(* ===== verification/Prelude.thy ===== *)
theory Prelude
  imports Main "HOL-Library.Word"
begin

section \<open>Shared types, automation and list lemmas\<close>

text \<open>
  What every component uses: names for the machine integers of the C++ code, the named
  collection \<open>frame_facts\<close> for facts that say what an operation leaves alone,
  \<open>std::string::find\<close> on a single character, splitting a byte stream at a newline, and
  facts on \<open>takeWhile\<close> and \<open>dropWhile\<close> that the string code rests on.
  Bytes of text are HOL \<open>char\<close>s, which are exactly the 256 values of a C++ \<open>char\<close>.
\<close>

unbundle bit_operations_syntax

named_theorems frame_facts "what an operation leaves unchanged"

type_synonym u8 = "8 word"
type_synonym u16 = "16 word"
type_synonym u32 = "32 word"
type_synonym u64 = "64 word"

abbreviation NUL :: char where "NUL \<equiv> CHR 0x00"
abbreviation NL :: char where "NL \<equiv> CHR 0x0A"
abbreviation CR :: char where "CR \<equiv> CHR 0x0D"
abbreviation SP :: char where "SP \<equiv> CHR 0x20"

subsection \<open>Finding a character\<close>

text \<open>\<open>std::string::find(c)\<close>: the first index of \<open>c\<close>, \<open>None\<close> for \<open>npos\<close>.\<close>

fun find_char :: "char \<Rightarrow> string \<Rightarrow> nat option" where
  "find_char c [] = None"
| "find_char c (x # xs) = (if x = c then Some 0 else map_option Suc (find_char c xs))"

lemma find_char_None: "find_char c s = None \<longleftrightarrow> c \<notin> set s"
  by (induction s) auto

lemma find_char_absent [simp]: "c \<notin> set s \<Longrightarrow> find_char c s = None"
  by (simp add: find_char_None)

lemma find_char_Some_mem: "find_char c s = Some i \<Longrightarrow> c \<in> set s"
  by (metis find_char_None option.distinct(1))

lemma find_char_Some_iff:
  "find_char c s = Some i \<longleftrightarrow> i < length s \<and> s ! i = c \<and> c \<notin> set (take i s)"
proof (induction s arbitrary: i)
  case Nil
  then show ?case by simp
next
  case (Cons x s)
  then show ?case by (cases i) auto
qed

lemma find_char_append_hit [simp]:
  "c \<notin> set s \<Longrightarrow> find_char c (s @ c # r) = Some (length s)"
  by (simp add: find_char_Some_iff)

lemma find_char_SomeE:
  assumes "find_char c s = Some i"
  obtains pre post where "s = pre @ c # post" and "length pre = i" and "c \<notin> set pre"
proof
  from assms have *: "i < length s" "s ! i = c" "c \<notin> set (take i s)"
    by (simp_all add: find_char_Some_iff)
  show "s = take i s @ c # drop (Suc i) s"
    using * by (metis id_take_nth_drop)
  show "length (take i s) = i" and "c \<notin> set (take i s)"
    using * by simp_all
qed

subsection \<open>Lists cut by a predicate\<close>

lemma dropWhile_append_all:
  "(\<forall>x\<in>set xs. P x) \<Longrightarrow> dropWhile P (xs @ ys) = dropWhile P ys"
  by (induction xs) auto

lemma dropWhile_hd_not: "xs = [] \<or> \<not> P (hd xs) \<Longrightarrow> dropWhile P xs = xs"
  by (cases xs) auto

lemma dropWhile_decomp:
  obtains pre where "xs = pre @ dropWhile P xs" and "\<forall>x\<in>set pre. P x"
  by (metis set_takeWhileD takeWhile_dropWhile_id)

lemma set_dropWhile_subset: "x \<in> set (dropWhile P xs) \<Longrightarrow> x \<in> set xs"
  by (metis set_dropWhileD)

lemma takeWhile_replicate_append [simp]:
  "c \<notin> set s \<Longrightarrow> takeWhile (\<lambda>x. x \<noteq> c) (s @ replicate n c) = s"
  by (induction s) (auto intro: takeWhile_eq_Nil_iff [THEN iffD2] simp: hd_replicate)

end
