(* ===== verification/TextProtocol.thy ===== *)
theory TextProtocol
  imports Prelude
begin

section \<open>The line protocol (\<open>protocol::parse_request\<close>, \<open>protocol::serialize_response\<close>)\<close>

text \<open>
  Models \<open>include/protocol/text_protocol.hpp\<close> and \<open>src/protocol/text_protocol.cpp\<close>: the
  request and response types, the whitespace and case helpers, the request parser with every
  branch and error message, and the response serializer. The C locale's \<open>std::isspace\<close> and
  \<open>std::tolower\<close> are written out (no part of the program calls \<open>setlocale\<close>).
  \<open>wf_request\<close> is what the parser promises of its result; \<open>print_request\<close> is the text that
  the clients build for a request.
\<close>

subsection \<open>Types\<close>

datatype RequestType = Get | Set | Del | Quit | Invalid

datatype ResponseType = Ok | Value | NotFound | Error | Bye

record Request =
  req_type :: RequestType
  req_key :: string
  req_value :: string
  req_error :: string

record Response =
  resp_type :: ResponseType
  resp_payload :: string

text \<open>A value-initialised \<open>Request\<close>: invalid, with empty strings.\<close>

definition default_request :: Request where
  "default_request = \<lparr>req_type = Invalid, req_key = [], req_value = [], req_error = []\<rparr>"

subsection \<open>Character and trimming helpers\<close>

definition isspace :: "char \<Rightarrow> bool" where
  "isspace c \<longleftrightarrow> c = SP \<or> c = CHR 0x09 \<or> c = NL \<or> c = CHR 0x0B \<or> c = CHR 0x0C \<or> c = CR"

definition tolower :: "char \<Rightarrow> char" where
  "tolower c = (let n = of_char c :: nat in if 65 \<le> n \<and> n \<le> 90 then char_of (n + 32) else c)"

fun trim_left :: "string \<Rightarrow> string" where
  "trim_left [] = []"
| "trim_left (c # text) = (if isspace c then trim_left text else c # text)"

text \<open>The loop of \<open>trim_right\<close>: \<open>end\<close> moves left while the character before it is a space.\<close>

fun trim_right_end :: "string \<Rightarrow> nat \<Rightarrow> nat" where
  "trim_right_end text 0 = 0"
| "trim_right_end text (Suc e) = (if isspace (text ! e) then trim_right_end text e else Suc e)"

definition trim_right :: "string \<Rightarrow> string" where
  "trim_right text = (if text = [] then [] else take (trim_right_end text (length text)) text)"

definition trim :: "string \<Rightarrow> string" where
  "trim text = trim_right (trim_left text)"

definition lower_copy :: "string \<Rightarrow> string" where
  "lower_copy text = map tolower text"

definition invalid_request :: "string \<Rightarrow> Request" where
  "invalid_request message = default_request\<lparr>req_type := Invalid, req_error := message\<rparr>"

subsection \<open>The parser\<close>

text \<open>
  The branches stand in the order of the code; each early \<open>return\<close> is one branch. The
  \<open>SET\<close> branch fills in the key and the value before it tests them, as the code does.
\<close>

definition parse_request :: "string \<Rightarrow> Request" where
  "parse_request line =
     (let cleaned = trim line in
      if cleaned = [] then invalid_request ''empty request''
      else
        let first_space = find_char SP cleaned;
            command = lower_copy (case first_space of None \<Rightarrow> cleaned | Some n \<Rightarrow> take n cleaned);
            remainder = (case first_space of None \<Rightarrow> [] | Some n \<Rightarrow> trim_left (drop (n + 1) cleaned));
            request = default_request
        in
        if command = ''get'' then
          (if remainder = [] then invalid_request ''GET requires a key''
           else if find_char SP remainder \<noteq> None then invalid_request ''GET accepts exactly one key''
           else request\<lparr>req_type := Get, req_key := remainder\<rparr>)
        else if command = ''del'' \<or> command = ''delete'' then
          (if remainder = [] then invalid_request ''DEL requires a key''
           else if find_char SP remainder \<noteq> None then invalid_request ''DEL accepts exactly one key''
           else request\<lparr>req_type := Del, req_key := remainder\<rparr>)
        else if command = ''set'' then
          (case find_char SP remainder of
             None \<Rightarrow> invalid_request ''SET requires a key and a value''
           | Some key_end \<Rightarrow>
               let request = request\<lparr>req_type := Set, req_key := take key_end remainder,
                                     req_value := trim_left (drop (key_end + 1) remainder)\<rparr>
               in if req_key request = [] then invalid_request ''SET requires a non-empty key''
                  else if req_value request = [] then invalid_request ''SET requires a non-empty value''
                  else request)
        else if command = ''quit'' \<or> command = ''exit'' then request\<lparr>req_type := Quit\<rparr>
        else invalid_request (''unknown command: '' @ command))"

subsection \<open>The serializer\<close>

definition serialize_response :: "Response \<Rightarrow> string" where
  "serialize_response response =
     (case resp_type response of
        Ok \<Rightarrow> ''OK'' @ [NL]
      | Value \<Rightarrow> ''VALUE '' @ resp_payload response @ [NL]
      | NotFound \<Rightarrow> ''NOT_FOUND'' @ [NL]
      | Error \<Rightarrow> ''ERROR '' @ resp_payload response @ [NL]
      | Bye \<Rightarrow> ''BYE'' @ [NL])"

subsection \<open>What the parser promises, and the clients' request text\<close>

definition trimmed :: "string \<Rightarrow> bool" where
  "trimmed s \<longleftrightarrow> s \<noteq> [] \<and> \<not> isspace (hd s) \<and> \<not> isspace (last s)"

fun wf_request :: "Request \<Rightarrow> bool" where
  "wf_request r =
     (case req_type r of
        Get \<Rightarrow> trimmed (req_key r) \<and> SP \<notin> set (req_key r) \<and> req_value r = [] \<and> req_error r = []
      | Del \<Rightarrow> trimmed (req_key r) \<and> SP \<notin> set (req_key r) \<and> req_value r = [] \<and> req_error r = []
      | Set \<Rightarrow> req_key r \<noteq> [] \<and> \<not> isspace (hd (req_key r)) \<and> SP \<notin> set (req_key r)
               \<and> trimmed (req_value r) \<and> req_error r = []
      | Quit \<Rightarrow> req_key r = [] \<and> req_value r = [] \<and> req_error r = []
      | Invalid \<Rightarrow> req_key r = [] \<and> req_value r = [] \<and> req_error r \<noteq> [])"

fun print_request :: "Request \<Rightarrow> string" where
  "print_request r =
     (case req_type r of
        Get \<Rightarrow> ''GET '' @ req_key r
      | Set \<Rightarrow> ''SET '' @ req_key r @ '' '' @ req_value r
      | Del \<Rightarrow> ''DEL '' @ req_key r
      | Quit \<Rightarrow> ''QUIT''
      | Invalid \<Rightarrow> [])"

declare wf_request.simps [simp del] print_request.simps [simp del]

subsection \<open>Trimming\<close>

lemma isspace_SP [simp]: "isspace SP" and isspace_NL [simp]: "isspace NL"
  and isspace_CR [simp]: "isspace CR"
  by (simp_all add: isspace_def)

lemma trim_left_eq: "trim_left s = dropWhile isspace s"
  by (induction s) auto

lemma trim_right_end_eq:
  "e \<le> length s \<Longrightarrow> take (trim_right_end s e) s = rev (dropWhile isspace (rev (take e s)))"
proof (induction e)
  case 0
  then show ?case by simp
next
  case (Suc e)
  then have "take (Suc e) s = take e s @ [s ! e]"
    by (simp add: take_Suc_conv_app_nth)
  then show ?case using Suc by simp
qed

lemma trim_right_eq: "trim_right s = rev (dropWhile isspace (rev s))"
  by (simp add: trim_right_def trim_right_end_eq)

lemma trim_eq: "trim s = rev (dropWhile isspace (rev (dropWhile isspace s)))"
  by (simp add: trim_def trim_left_eq trim_right_eq)

lemma trim_right_snoc [simp]:
  "trim_right (s @ [c]) = (if isspace c then trim_right s else s @ [c])"
  by (simp add: trim_right_eq)

lemma trim_left_fix [simp]: "s = [] \<or> \<not> isspace (hd s) \<Longrightarrow> trim_left s = s"
  by (simp add: trim_left_eq dropWhile_hd_not)

lemma trim_left_idem [simp]: "trim_left (trim_left s) = trim_left s"
  by (simp add: trim_left_eq)

lemma trim_left_hd: "trim_left s \<noteq> [] \<Longrightarrow> \<not> isspace (hd (trim_left s))"
  by (simp add: trim_left_eq hd_dropWhile)

lemma trim_left_append_spaces [simp]:
  "list_all isspace pre \<Longrightarrow> trim_left (pre @ s) = trim_left s"
  by (simp add: trim_left_eq dropWhile_append_all list_all_iff)

lemma trim_right_append_spaces [simp]:
  "list_all isspace post \<Longrightarrow> trim_right (s @ post) = trim_right s"
  by (simp add: trim_right_eq dropWhile_append_all list_all_iff)

lemma trim_right_suffix:
  assumes "trim_right s \<noteq> []"
  obtains post where "s = trim_right s @ post" and "list_all isspace post"
    and "\<not> isspace (last (trim_right s))"
proof -
  obtain pre where "rev s = pre @ dropWhile isspace (rev s)" "\<forall>x\<in>set pre. isspace x"
    by (rule dropWhile_decomp)
  then have "s = trim_right s @ rev pre" "list_all isspace (rev pre)"
    by (auto simp: trim_right_eq list_all_iff rev_swap)
  moreover have "\<not> isspace (last (trim_right s))"
    using assms hd_dropWhile [of isspace "rev s"] by (simp add: trim_right_eq last_rev)
  ultimately show ?thesis by (rule that)
qed

lemma trim_cases: "trim s = [] \<or> trimmed (trim s)"
proof (cases "trim s = []")
  case False
  then obtain post where post: "trim_left s = trim s @ post" "\<not> isspace (last (trim s))"
    using trim_right_suffix [of "trim_left s"] by (metis trim_def)
  have "trim_left s \<noteq> []" using post False by auto
  then have "\<not> isspace (hd (trim_left s))" by (rule trim_left_hd)
  with post False have "\<not> isspace (hd (trim s))" by simp
  with post False show ?thesis by (simp add: trimmed_def)
qed simp

lemma trim_fix [simp]: "trimmed s \<Longrightarrow> trim s = s"
  by (cases s rule: rev_cases) (auto simp: trimmed_def trim_def)

lemma trim_Nil [simp]: "trim [] = []"
  by (simp add: trim_def trim_right_def)

lemma trim_idem [simp]: "trim (trim s) = trim s"
  using trim_cases [of s] by auto

lemma trim_all_spaces: "list_all isspace s \<Longrightarrow> trim s = []"
  by (simp add: trim_eq list_all_iff dropWhile_eq_Nil_conv [THEN iffD2])

lemma trim_surround:
  assumes "list_all isspace pre" and "list_all isspace post"
  shows "trim (pre @ s @ post) = trim s"
proof (cases "list_all isspace s")
  case True
  with assms have "list_all isspace (pre @ s @ post)" by simp
  with True show ?thesis by (simp only: trim_all_spaces)
next
  case False
  then have "trim_left (s @ post) = trim_left s @ post"
    by (auto simp: trim_left_eq list_all_iff dropWhile_append)
  with assms show ?thesis by (simp add: trim_def)
qed

lemma set_trim_left_subset: "set (trim_left s) \<subseteq> set s"
  by (auto simp: trim_left_eq dest: set_dropWhile_subset)

lemma set_trim_subset: "set (trim s) \<subseteq> set s"
  by (auto simp: trim_eq dest!: set_dropWhile_subset)

subsection \<open>What the argument area looks like\<close>

lemma trim_left_last: "trim_left s \<noteq> [] \<Longrightarrow> last (trim_left s) = last s"
  by (metis dropWhile_decomp last_append trim_left_eq)

lemma trimmed_trim_left_drop:
  assumes "trimmed s" and "trim_left (drop n s) \<noteq> []"
  shows "trimmed (trim_left (drop n s))"
proof -
  have "drop n s \<noteq> []" using assms(2) by auto
  then have "n < length s" by simp
  then have "last (trim_left (drop n s)) = last s"
    using assms(2) by (simp add: trim_left_last last_drop)
  with assms show ?thesis by (simp add: trimmed_def trim_left_hd)
qed

lemma trimmed_after_space:
  assumes "trimmed s" and "find_char SP s = Some n"
  shows "trimmed (trim_left (drop (Suc n) s))"
proof -
  from assms(2) obtain pre post where s: "s = pre @ SP # post" and n: "length pre = n"
    by (rule find_char_SomeE)
  with assms(1) have post: "post \<noteq> []" "\<not> isspace (last post)"
    by (auto simp: trimmed_def split: if_splits)
  have "last post \<in> set post" using post by simp
  with post have "trim_left post \<noteq> []" by (auto simp: trim_left_eq dropWhile_eq_Nil_conv)
  moreover have "drop (Suc n) s = post" using s n by simp
  ultimately show ?thesis using assms(1) trimmed_trim_left_drop by metis
qed

lemma trimmed_no_leading_space: "trimmed s \<Longrightarrow> find_char SP s = Some n \<Longrightarrow> 0 < n"
  by (cases s) (auto simp: trimmed_def find_char_Some_iff split: if_splits)

lemma trimmed_take_key:
  "trimmed s \<Longrightarrow> find_char SP s = Some n \<Longrightarrow>
     take n s \<noteq> [] \<and> \<not> isspace (hd (take n s)) \<and> SP \<notin> set (take n s)"
  using trimmed_no_leading_space [of s n]
  by (auto simp: trimmed_def find_char_Some_iff hd_take)

lemma trimmed_neq_Nil: "trimmed s \<Longrightarrow> s \<noteq> []"
  by (simp add: trimmed_def)

subsection \<open>The parser's result\<close>

lemma invalid_request_simps [simp]:
  "req_type (invalid_request m) = Invalid" "req_error (invalid_request m) = m"
  "req_key (invalid_request m) = []" "req_value (invalid_request m) = []"
  by (simp_all add: invalid_request_def default_request_def)

lemma default_request_simps [simp]:
  "req_type default_request = Invalid" "req_error default_request = []"
  "req_key default_request = []" "req_value default_request = []"
  by (simp_all add: default_request_def)

lemma wf_invalid_request [simp]: "m \<noteq> [] \<Longrightarrow> wf_request (invalid_request m)"
  by (simp add: wf_request.simps)

lemma parse_request_trim [simp]: "parse_request (trim line) = parse_request line"
  by (simp add: parse_request_def)

text \<open>
  The parser on a trimmed line, with the two tests of the \<open>SET\<close> branch that can no longer fail
  removed.
\<close>

definition parse_words :: "string \<Rightarrow> string \<Rightarrow> Request" where
  "parse_words command remainder =
     (if command = ''get'' then
        (if remainder = [] then invalid_request ''GET requires a key''
         else if SP \<in> set remainder then invalid_request ''GET accepts exactly one key''
         else default_request\<lparr>req_type := Get, req_key := remainder\<rparr>)
      else if command = ''del'' \<or> command = ''delete'' then
        (if remainder = [] then invalid_request ''DEL requires a key''
         else if SP \<in> set remainder then invalid_request ''DEL accepts exactly one key''
         else default_request\<lparr>req_type := Del, req_key := remainder\<rparr>)
      else if command = ''set'' then
        (case find_char SP remainder of
           None \<Rightarrow> invalid_request ''SET requires a key and a value''
         | Some n \<Rightarrow> default_request\<lparr>req_type := Set, req_key := take n remainder,
                                     req_value := trim_left (drop (Suc n) remainder)\<rparr>)
      else if command = ''quit'' \<or> command = ''exit'' then default_request\<lparr>req_type := Quit\<rparr>
      else invalid_request (''unknown command: '' @ command))"

lemma parse_request_no_space:
  assumes "trimmed line" and "SP \<notin> set line"
  shows "parse_request line = parse_words (lower_copy line) []"
proof -
  have none: "find_char SP line = None" using assms(2) by simp
  show ?thesis
    using assms(1)
    by (simp add: parse_request_def parse_words_def trimmed_neq_Nil Let_def none)
qed

lemma parse_request_space:
  assumes line: "trimmed line" and n: "find_char SP line = Some n"
  shows "parse_request line
       = parse_words (lower_copy (take n line)) (trim_left (drop (Suc n) line))"
proof -
  let ?rem = "trim_left (drop (Suc n) line)"
  have rem: "trimmed ?rem" by (rule trimmed_after_space [OF line n])
  note opened = parse_request_def parse_words_def trimmed_neq_Nil [OF line] Let_def trim_fix [OF line] n
  show ?thesis
  proof (cases "find_char SP ?rem")
    case None
    then have "SP \<notin> set ?rem" by (simp add: find_char_None)
    with None show ?thesis by (simp add: opened)
  next
    case (Some m)
    then have "SP \<in> set ?rem" by (rule find_char_Some_mem)
    moreover have "take m ?rem \<noteq> []" "trim_left (drop (Suc m) ?rem) \<noteq> []"
      using trimmed_take_key [OF rem Some] trimmed_after_space [OF rem Some]
      by (simp_all only: trimmed_neq_Nil simp_thms)
    ultimately show ?thesis using Some
      by (simp add: opened del: trim_left_fix take_eq_Nil)
  qed
qed

lemma parse_request_cases:
  obtains (empty) "parse_request line = invalid_request ''empty request''"
  | (alone) "trimmed (trim line)" "SP \<notin> set (trim line)"
      "parse_request line = parse_words (lower_copy (trim line)) []"
  | (args) n where "trimmed (trim line)" "find_char SP (trim line) = Some n"
      "trimmed (trim_left (drop (Suc n) (trim line)))"
      "parse_request line = parse_words (lower_copy (take n (trim line)))
                                        (trim_left (drop (Suc n) (trim line)))"
proof (cases "trim line = []")
  case True
  then show ?thesis using empty by (simp add: parse_request_def)
next
  case False
  then have t: "trimmed (trim line)" using trim_cases [of line] by simp
  show ?thesis
  proof (cases "find_char SP (trim line)")
    case None
    then have "SP \<notin> set (trim line)" by (simp add: find_char_None)
    then show ?thesis using alone [OF t] parse_request_no_space [OF t] by simp
  next
    case (Some n)
    show ?thesis
      using args [OF t Some trimmed_after_space [OF t Some]] parse_request_space [OF t Some] by simp
  qed
qed

lemma wf_parse_words: "remainder = [] \<or> trimmed remainder \<Longrightarrow> wf_request (parse_words command remainder)"
proof (cases "find_char SP remainder")
  case None
  then have "SP \<notin> set remainder" by (simp add: find_char_None)
  moreover assume "remainder = [] \<or> trimmed remainder"
  ultimately show ?thesis by (auto simp: parse_words_def wf_request.simps)
next
  case (Some n)
  assume "remainder = [] \<or> trimmed remainder"
  with Some have rem: "trimmed remainder" by auto
  have "SP \<in> set remainder" "\<not> isspace (hd remainder)"
    using Some rem by (simp_all add: find_char_Some_mem trimmed_def)
  with Some trimmed_take_key [OF rem Some] trimmed_after_space [OF rem Some] show ?thesis
    by (simp add: parse_words_def wf_request.simps trimmed_neq_Nil [OF rem])
qed

lemma wf_parse_request: "wf_request (parse_request line)"
  by (cases line rule: parse_request_cases) (simp_all add: wf_parse_words)

subsection \<open>Printing and parsing back\<close>

lemma tolower_lower [simp]:
  "tolower CHR ''g'' = CHR ''g''" "tolower CHR ''G'' = CHR ''g''" "tolower CHR ''E'' = CHR ''e''"
  "tolower CHR ''T'' = CHR ''t''" "tolower CHR ''S'' = CHR ''s''" "tolower CHR ''D'' = CHR ''d''"
  "tolower CHR ''L'' = CHR ''l''" "tolower CHR ''Q'' = CHR ''q''" "tolower CHR ''U'' = CHR ''u''"
  "tolower CHR ''I'' = CHR ''i''" "tolower CHR ''q'' = CHR ''q''" "tolower CHR ''u'' = CHR ''u''"
  "tolower CHR ''i'' = CHR ''i''" "tolower CHR ''t'' = CHR ''t''" "tolower CHR ''s'' = CHR ''s''"
  "tolower CHR ''e'' = CHR ''e''" "tolower CHR ''d'' = CHR ''d''" "tolower CHR ''l'' = CHR ''l''"
  by (simp_all add: tolower_def Let_def char_of_eq_iff)

lemma lower_copy_simps [simp]:
  "lower_copy [] = []" "lower_copy (c # s) = tolower c # lower_copy s"
  "lower_copy (s @ s') = lower_copy s @ lower_copy s'"
  by (simp_all add: lower_copy_def)

lemma trimmed_print:
  assumes "wf_request r" and "req_type r \<noteq> Invalid"
  shows "trimmed (print_request r)"
  using assms by (cases "req_type r")
    (auto simp: wf_request.simps print_request.simps trimmed_def isspace_def)

lemma parse_print:
  assumes wf: "wf_request r" and valid: "req_type r \<noteq> Invalid"
  shows "parse_request (print_request r) = r"
proof (cases "req_type r")
  case Get
  have "parse_request (print_request r) = parse_words ''get'' (trim_left (req_key r))"
    using Get by (subst parse_request_space [OF trimmed_print [OF wf valid], of 3])
      (simp_all add: print_request.simps)
  with Get wf show ?thesis
    by (simp add: wf_request.simps trimmed_def parse_words_def default_request_def)
next
  case Del
  have "parse_request (print_request r) = parse_words ''del'' (trim_left (req_key r))"
    using Del by (subst parse_request_space [OF trimmed_print [OF wf valid], of 3])
      (simp_all add: print_request.simps)
  with Del wf show ?thesis
    by (simp add: wf_request.simps trimmed_def parse_words_def default_request_def)
next
  case Set
  have "parse_request (print_request r)
      = parse_words ''set'' (trim_left (req_key r @ SP # req_value r))"
    using Set by (subst parse_request_space [OF trimmed_print [OF wf valid], of 3])
      (simp_all add: print_request.simps)
  with Set wf show ?thesis
    by (simp add: wf_request.simps trimmed_def parse_words_def default_request_def)
next
  case Quit
  have "parse_request (print_request r) = parse_words ''quit'' []"
    using Quit by (subst parse_request_no_space [OF trimmed_print [OF wf valid]])
      (simp_all add: print_request.simps)
  with Quit wf show ?thesis
    by (simp add: wf_request.simps parse_words_def default_request_def)
qed (use valid in simp)

subsection \<open>Case and surrounding whitespace\<close>

lemma isspace_tolower [simp]: "isspace (tolower c) = isspace c"
proof -
  have "isspace c = (of_char c \<in> {9, 10, 11, 12, 13, 32 :: nat})" for c
    by (cases c) (auto simp: isspace_def of_char_eq_iff [symmetric, where 'a = nat])
  then show ?thesis
    by (auto simp: tolower_def Let_def)
qed

lemma lower_copy_spaces:
  assumes "lower_copy s = lower_copy s'"
  shows "list_all (\<lambda>c. \<not> isspace c) s = list_all (\<lambda>c. \<not> isspace c) s'"
proof -
  have "list_all (\<lambda>c. \<not> isspace c) s = list_all (\<lambda>c. \<not> isspace c) (lower_copy s)" for s
    by (induction s) simp_all
  with assms show ?thesis by metis
qed

lemma trim_append_rest:
  assumes "list_all (\<lambda>c. \<not> isspace c) cmd" and "cmd \<noteq> []"
  shows "trim (cmd @ rest) = cmd @ trim_right rest"
proof -
  obtain c cmd' where cmd: "cmd = c # cmd'" using assms(2) by (cases cmd) auto
  have "\<not> isspace (last cmd)" using assms by (simp add: list_all_iff)
  then have "\<not> (\<forall>x\<in>set (rev cmd). isspace x)" and "\<not> isspace (hd (rev cmd))"
    using assms by (simp_all add: hd_rev) (metis last_in_set)
  then have "trim_right (cmd @ rest) = cmd @ trim_right rest"
    using assms(2) by (auto simp: trim_right_eq dropWhile_append dropWhile_hd_not)
  moreover have "trim_left (cmd @ rest) = cmd @ rest" using assms(1) by (simp add: cmd)
  ultimately show ?thesis by (simp add: trim_def)
qed

lemma trim_right_hd: "trim_right rest \<noteq> [] \<Longrightarrow> hd (trim_right rest) = hd rest"
  by (metis hd_append2 trim_right_suffix)

lemma parse_command_word:
  assumes cmd: "list_all (\<lambda>c. \<not> isspace c) cmd" "cmd \<noteq> []" and rest: "rest = [] \<or> hd rest = SP"
  shows "parse_request (cmd @ rest) = parse_words (lower_copy cmd) (trim_left (trim_right rest))"
proof -
  let ?r = "trim_right rest"
  have t: "trim (cmd @ rest) = cmd @ ?r" by (rule trim_append_rest [OF cmd])
  have trimmed: "trimmed (cmd @ ?r)"
    using trim_cases [of "cmd @ rest"] cmd(2) by (simp add: t)
  have sp: "SP \<notin> set cmd" using cmd(1) by (auto simp: list_all_iff)
  have "parse_request (cmd @ rest) = parse_request (cmd @ ?r)"
    by (metis t parse_request_trim)
  also have "\<dots> = parse_words (lower_copy cmd) (trim_left ?r)"
  proof (cases "?r = []")
    case True
    then show ?thesis using parse_request_no_space [OF trimmed] sp by simp
  next
    case False
    moreover have "rest \<noteq> []" using False by (auto simp: trim_right_def)
    ultimately have "hd ?r = SP" using trim_right_hd rest by metis
    then obtain r' where r': "?r = SP # r'" using False by (cases ?r) auto
    then show ?thesis
      using parse_request_space [OF trimmed, of "length cmd"] sp by (simp add: trim_left_eq)
  qed
  finally show ?thesis .
qed

lemma parse_command_case:
  assumes "lower_copy cmd = lower_copy cmd'" and "list_all (\<lambda>c. \<not> isspace c) cmd"
    and "rest = [] \<or> hd rest = SP"
  shows "parse_request (cmd @ rest) = parse_request (cmd' @ rest)"
proof (cases "cmd = []")
  case True
  with assms(1) show ?thesis by (simp add: lower_copy_def)
next
  case False
  moreover have "cmd' \<noteq> []" using assms(1) False by (auto simp: lower_copy_def)
  moreover have "list_all (\<lambda>c. \<not> isspace c) cmd'" using assms(1,2) lower_copy_spaces by blast
  ultimately show ?thesis using assms by (simp add: parse_command_word)
qed

subsection \<open>The words of a line\<close>

text \<open>
  The command word of a line (lowercased) and the text of its arguments, cut without positions: what
  comes before the first space of the trimmed line, and what follows it without leading whitespace.
\<close>

definition command_word :: "string \<Rightarrow> string" where
  "command_word line = lower_copy (takeWhile (\<lambda>c. c \<noteq> SP) (trim line))"

definition arguments :: "string \<Rightarrow> string" where
  "arguments line = dropWhile isspace (dropWhile (\<lambda>c. c \<noteq> SP) (trim line))"

lemma take_find_char: "find_char c s = Some n \<Longrightarrow> take n s = takeWhile (\<lambda>x. x \<noteq> c) s"
  by (induction s arbitrary: n) (auto split: if_splits)

lemma drop_find_char: "find_char c s = Some n \<Longrightarrow> c # drop (Suc n) s = dropWhile (\<lambda>x. x \<noteq> c) s"
  by (induction s arbitrary: n) (auto split: if_splits)

lemma trim_eq_Nil: "trim s = [] \<longleftrightarrow> list_all isspace s"
  by (auto simp: trim_eq dropWhile_eq_Nil_conv list_all_iff dest: set_dropWhile_subset)
    (metis dropWhile_decomp dropWhile_eq_Nil_conv hd_dropWhile in_set_conv_decomp list.set_intros(1) list.exhaust_sel)

lemma parse_request_by_words:
  assumes "\<not> list_all isspace line"
  shows "parse_request line = parse_words (command_word line) (arguments line)"
    and "arguments line = [] \<or> trimmed (arguments line)"
proof -
  have t: "trimmed (trim line)" using assms trim_cases [of line] by (simp add: trim_eq_Nil)
  show "parse_request line = parse_words (command_word line) (arguments line)"
    and "arguments line = [] \<or> trimmed (arguments line)"
  proof (atomize (full), cases "find_char SP (trim line)")
    case None
    then have sp: "SP \<notin> set (trim line)" by (simp add: find_char_None)
    have words: "takeWhile (\<lambda>c. c \<noteq> SP) (trim line) = trim line" "dropWhile (\<lambda>c. c \<noteq> SP) (trim line) = []"
      using sp by (auto simp: takeWhile_eq_all_conv dropWhile_eq_Nil_conv)
    show "parse_request line = parse_words (command_word line) (arguments line) \<and> (arguments line = [] \<or> trimmed (arguments line))"
      using parse_request_no_space [OF t sp] unfolding command_word_def arguments_def words by simp
  next
    case (Some n)
    have "arguments line = trim_left (drop (Suc n) (trim line))"
      by (simp add: arguments_def trim_left_eq flip: drop_find_char [OF Some])
    then show "parse_request line = parse_words (command_word line) (arguments line) \<and> (arguments line = [] \<or> trimmed (arguments line))"
      using parse_request_space [OF t Some] trimmed_after_space [OF t Some]
      by (simp add: command_word_def take_find_char [OF Some, symmetric])
  qed
qed

lemma parse_words_errors:
  assumes "command \<noteq> []"
  shows
   "(req_error (parse_words command remainder) = ''empty request'') = False
    \<and> (req_error (parse_words command remainder) = ''GET requires a key'') = (command = ''get'' \<and> remainder = [])
    \<and> (req_error (parse_words command remainder) = ''GET accepts exactly one key'') = (command = ''get'' \<and> SP \<in> set remainder)
    \<and> (req_error (parse_words command remainder) = ''DEL requires a key'') = (command \<in> {''del'', ''delete''} \<and> remainder = [])
    \<and> (req_error (parse_words command remainder) = ''DEL accepts exactly one key'')
        = (command \<in> {''del'', ''delete''} \<and> SP \<in> set remainder)
    \<and> (req_error (parse_words command remainder) = ''SET requires a key and a value'') = (command = ''set'' \<and> SP \<notin> set remainder)
    \<and> (req_error (parse_words command remainder) = ''unknown command: '' @ command)
        = (command \<notin> {[], ''get'', ''del'', ''delete'', ''set'', ''quit'', ''exit''})
    \<and> (req_error (parse_words command remainder) = [])
        = (command \<in> {''quit'', ''exit''}
           \<or> command \<in> {''get'', ''del'', ''delete''} \<and> remainder \<noteq> [] \<and> SP \<notin> set remainder
           \<or> command = ''set'' \<and> SP \<in> set remainder)
    \<and> (req_type (parse_words command remainder) = Invalid) = (req_error (parse_words command remainder) \<noteq> [])"
proof -
  have sp: "find_char SP remainder = None \<longleftrightarrow> SP \<notin> set remainder" by (rule find_char_None)
  consider "command = ''get''" | "command = ''del'' \<or> command = ''delete''" | "command = ''set''" "SP \<in> set remainder"
    | "command = ''set''" "SP \<notin> set remainder" | "command = ''quit'' \<or> command = ''exit''"
    | "command \<notin> {''get'', ''del'', ''delete'', ''set'', ''quit'', ''exit''}" by blast
  then show ?thesis
    using assms by cases (auto simp: parse_words_def sp split: option.split)
qed

subsection \<open>The serialized line\<close>

text \<open>A response the handlers build: no payload unless it is a value or an error message.\<close>

definition canonical_response :: "Response \<Rightarrow> bool" where
  "canonical_response r \<longleftrightarrow> resp_type r \<in> {Value, Error} \<or> resp_payload r = []"

definition response_body :: "Response \<Rightarrow> string" where
  "response_body r =
     (case resp_type r of Ok \<Rightarrow> ''OK'' | Value \<Rightarrow> ''VALUE '' @ resp_payload r
      | NotFound \<Rightarrow> ''NOT_FOUND'' | Error \<Rightarrow> ''ERROR '' @ resp_payload r | Bye \<Rightarrow> ''BYE'')"

lemma serialize_body: "serialize_response r = response_body r @ [NL]"
  by (cases "resp_type r") (simp_all add: serialize_response_def response_body_def)

lemma response_body_NL [simp]:
  "NL \<in> set (response_body r) \<longleftrightarrow> resp_type r \<in> {Value, Error} \<and> NL \<in> set (resp_payload r)"
  by (cases "resp_type r") (simp_all add: response_body_def)

lemma response_body_inj:
  assumes "response_body r = response_body r'" "canonical_response r" "canonical_response r'"
  shows "r = r'"
  using assms by (cases "resp_type r"; cases "resp_type r'")
    (auto simp: response_body_def canonical_response_def intro!: Response.equality)

lemma count_list_body:
  "count_list (response_body r) NL
     = (if resp_type r = Value \<or> resp_type r = Error then count_list (resp_payload r) NL else 0)"
  by (cases "resp_type r") (simp_all add: response_body_def)

subsection \<open>Properties of the protocol layer\<close>

text \<open>
  C31: The requests the parser returns are exactly the well-formed ones. Whatever the line, the
  result is well-formed: \<open>GET\<close> and \<open>DEL\<close> carry a non-empty key without a space and without
  surrounding whitespace and nothing else; \<open>SET\<close> a non-empty key without a space that does not begin
  with whitespace (it may contain tabs and end in one) and a non-empty value without surrounding
  whitespace; \<open>QUIT\<close> neither key nor value; a rejected line has a message and no key or value. And
  every well-formed request that is not a rejection is the result of some line.
\<close>
theorem parse_request_wellformed:
  "wf_request (parse_request line)
   \<and> {r \<in> range parse_request. req_type r \<noteq> Invalid} = {r. wf_request r \<and> req_type r \<noteq> Invalid}"
  using wf_parse_request parse_print by (auto intro: range_eqI [OF sym])

text \<open>
  C25: Printing a well-formed request as the clients do (\<open>GET k\<close>, \<open>SET k v\<close>, \<open>DEL k\<close>, \<open>QUIT\<close>) and
  parsing the text gives the request back, also for values that contain spaces.
\<close>
theorem parse_print_roundtrip:
  assumes "wf_request r" and "req_type r \<noteq> Invalid"
  shows "parse_request (print_request r) = r"
  using assms by (rule parse_print)

theorem parse_print_roundtrip_witness:
  "parse_request (print_request \<lparr>req_type = Set, req_key = ''k1'', req_value = ''two words'', req_error = []\<rparr>)
     = \<lparr>req_type = Set, req_key = ''k1'', req_value = ''two words'', req_error = []\<rparr>"
  by (rule parse_print_roundtrip) (simp_all add: wf_request.simps trimmed_def isspace_def)

text \<open>
  Whitespace before and after a request line (spaces, tabs, carriage returns, newlines) never
  changes what the line means.
\<close>
theorem parse_ignores_surrounding_whitespace:
  assumes "list_all isspace pre" and "list_all isspace post"
  shows "parse_request (pre @ line @ post) = parse_request line"
  using trim_surround [OF assms] by (metis parse_request_trim)

theorem parse_ignores_surrounding_whitespace_witness:
  "parse_request ([SP, CHR 0x09] @ ''GET k'' @ [CR, NL]) = parse_request ''GET k''"
  by (rule parse_ignores_surrounding_whitespace) (simp_all add: isspace_def)

text \<open>
  Command names are case-insensitive: two command words that agree up to upper and lower case
  give the same request on every argument text.
\<close>
theorem parse_command_case_insensitive:
  assumes "lower_copy cmd = lower_copy cmd'" and "list_all (\<lambda>c. \<not> isspace c) cmd"
    and "rest = [] \<or> hd rest = SP"
  shows "parse_request (cmd @ rest) = parse_request (cmd' @ rest)"
  using assms by (rule parse_command_case)

theorem parse_command_case_insensitive_witness:
  "parse_request (''sEt'' @ '' a b'') = parse_request (''SET'' @ '' a b'')"
  by (rule parse_command_case_insensitive) (simp_all add: isspace_def)

text \<open>
  C34: Exactly which lines are rejected, and with which message, in terms of the line's lowercased
  command word and the text of its arguments: each message is returned for the lines listed and no
  others, a line is accepted in exactly the remaining cases, and a request is invalid exactly when
  it carries a message. (The conditions cover every line, so no other message occurs: the two later
  tests of the \<open>SET\<close> branch, for an empty key and an empty value, never reject a line.)
\<close>
theorem parse_error_messages:
  "(req_error (parse_request line) = ''empty request'') = list_all isspace line
   \<and> (req_error (parse_request line) = ''GET requires a key'') = (command_word line = ''get'' \<and> arguments line = [])
   \<and> (req_error (parse_request line) = ''GET accepts exactly one key'') = (command_word line = ''get'' \<and> SP \<in> set (arguments line))
   \<and> (req_error (parse_request line) = ''DEL requires a key'')
       = (command_word line \<in> {''del'', ''delete''} \<and> arguments line = [])
   \<and> (req_error (parse_request line) = ''DEL accepts exactly one key'')
       = (command_word line \<in> {''del'', ''delete''} \<and> SP \<in> set (arguments line))
   \<and> (req_error (parse_request line) = ''SET requires a key and a value'') = (command_word line = ''set'' \<and> SP \<notin> set (arguments line))
   \<and> (req_error (parse_request line) = ''unknown command: '' @ command_word line)
       = (command_word line \<notin> {[], ''get'', ''del'', ''delete'', ''set'', ''quit'', ''exit''})
   \<and> (req_error (parse_request line) = [])
       = (command_word line \<in> {''quit'', ''exit''}
          \<or> command_word line \<in> {''get'', ''del'', ''delete''} \<and> arguments line \<noteq> [] \<and> SP \<notin> set (arguments line)
          \<or> command_word line = ''set'' \<and> SP \<in> set (arguments line))
   \<and> (req_type (parse_request line) = Invalid) = (req_error (parse_request line) \<noteq> [])"
proof (cases "list_all isspace line")
  case True
  then have "trim line = []" by (simp add: trim_eq_Nil)
  then show ?thesis using True by (simp add: parse_request_def command_word_def arguments_def)
next
  case False
  then have "trimmed (trim line)" using trim_cases [of line] by (simp add: trim_eq_Nil)
  then have "command_word line \<noteq> []"
    by (cases "trim line") (auto simp: command_word_def trimmed_def)
  then show ?thesis
    using parse_words_errors [of "command_word line" "arguments line"] False
    unfolding parse_request_by_words(1) [OF False] by (simp only: simp_thms)
qed

text \<open>
  No two different responses have the same wire text, for the responses the handlers build
  (no stray payload on \<open>OK\<close>, \<open>NOT_FOUND\<close> and \<open>BYE\<close>), so a client can decode what it reads.
\<close>
theorem serialize_response_injective:
  assumes "canonical_response r" and "canonical_response r'"
  shows "serialize_response r = serialize_response r' \<longleftrightarrow> r = r'"
  using assms response_body_inj by (auto simp: serialize_body)

theorem serialize_response_injective_witness:
  "serialize_response \<lparr>resp_type = Value, resp_payload = ''x''\<rparr>
     \<noteq> serialize_response \<lparr>resp_type = Error, resp_payload = ''x''\<rparr>"
  by (subst serialize_response_injective) (simp_all add: canonical_response_def)

text \<open>
  A serialized response ends in a newline, and apart from it holds exactly the newlines of the
  payload of a value or error response: it is one line unless such a payload has a newline.
\<close>
theorem serialize_response_one_line:
  "last (serialize_response r) = NL
   \<and> count_list (serialize_response r) NL
       = 1 + (if resp_type r = Value \<or> resp_type r = Error then count_list (resp_payload r) NL else 0)"
  by (simp add: serialize_body count_list_body)

end
