(* ===== verification/StoreContract.thy ===== *)
theory StoreContract
  imports Prelude
begin

section \<open>The contract of a key-value store\<close>

text \<open>
  What the request handlers and the one-sided clients rely on: a store has an abstraction to a
  partial map from keys to values, an invariant that every operation keeps, and \<open>put\<close>, \<open>get\<close>
  and \<open>del\<close> act on the map. A \<open>put\<close> may refuse (a bounded store can be full or the value too
  large); then nothing changes. Both stores of the program, \<open>kvstore::KeyValueStore\<close> and
  \<open>kvstore::RdmaStore\<close>, are interpretations, and the lemmas below are proved once for both.
\<close>

subsection \<open>Operation sequences and their meaning on a map\<close>

datatype store_op = PutOp string string | GetOp string | DelOp string

datatype store_result = Stored bool | Found "string option" | Deleted bool

fun op_key :: "store_op \<Rightarrow> string" where
  "op_key (PutOp k v) = k"
| "op_key (GetOp k) = k"
| "op_key (DelOp k) = k"

fun map_step :: "store_op \<Rightarrow> (string \<rightharpoonup> string) \<Rightarrow> store_result \<times> (string \<rightharpoonup> string)" where
  "map_step (PutOp k v) m = (Stored True, m(k \<mapsto> v))"
| "map_step (GetOp k) m = (Found (m k), m)"
| "map_step (DelOp k) m = (Deleted (m k \<noteq> None), m(k := None))"

fun map_run :: "store_op list \<Rightarrow> (string \<rightharpoonup> string) \<Rightarrow> store_result list \<times> (string \<rightharpoonup> string)" where
  "map_run [] m = ([], m)"
| "map_run (x # xs) m =
     (let (r, m1) = map_step x m; (rs, m2) = map_run xs m1 in (r # rs, m2))"

subsection \<open>The contract\<close>

locale map_store =
  fixes abs_map :: "'s \<Rightarrow> string \<rightharpoonup> string"
    and inv :: "'s \<Rightarrow> bool"
    and ok_key :: "string \<Rightarrow> bool"
    and ok_val :: "string \<Rightarrow> bool"
    and put :: "string \<Rightarrow> string \<Rightarrow> 's \<Rightarrow> bool \<times> 's"
    and get :: "string \<Rightarrow> 's \<Rightarrow> string option"
    and del :: "string \<Rightarrow> 's \<Rightarrow> bool \<times> 's"
  assumes get_law: "inv s \<Longrightarrow> ok_key k \<Longrightarrow> get k s = abs_map s k"
    and put_inv: "inv s \<Longrightarrow> ok_key k \<Longrightarrow> ok_val v \<Longrightarrow> inv (snd (put k v s))"
    and put_stored: "inv s \<Longrightarrow> ok_key k \<Longrightarrow> ok_val v \<Longrightarrow> fst (put k v s) \<Longrightarrow>
           abs_map (snd (put k v s)) = (abs_map s)(k \<mapsto> v)"
    and put_refused: "inv s \<Longrightarrow> ok_key k \<Longrightarrow> \<not> fst (put k v s) \<Longrightarrow> snd (put k v s) = s"
    and del_inv: "inv s \<Longrightarrow> ok_key k \<Longrightarrow> inv (snd (del k s))"
    and del_law: "inv s \<Longrightarrow> ok_key k \<Longrightarrow>
           fst (del k s) = (abs_map s k \<noteq> None) \<and> abs_map (snd (del k s)) = (abs_map s)(k := None)"
begin

definition ok_op :: "store_op \<Rightarrow> bool" where
  "ok_op x = (case x of PutOp k v \<Rightarrow> ok_key k \<and> ok_val v | GetOp k \<Rightarrow> ok_key k | DelOp k \<Rightarrow> ok_key k)"

fun step :: "store_op \<Rightarrow> 's \<Rightarrow> store_result \<times> 's" where
  "step (PutOp k v) s = (let (b, s') = put k v s in (Stored b, s'))"
| "step (GetOp k) s = (Found (get k s), s)"
| "step (DelOp k) s = (let (b, s') = del k s in (Deleted b, s'))"

fun run :: "store_op list \<Rightarrow> 's \<Rightarrow> store_result list \<times> 's" where
  "run [] s = ([], s)"
| "run (x # xs) s = (let (r, s1) = step x s; (rs, s2) = run xs s1 in (r # rs, s2))"

lemma get_put_same:
  "inv s \<Longrightarrow> ok_key k \<Longrightarrow> ok_val v \<Longrightarrow> fst (put k v s) \<Longrightarrow> get k (snd (put k v s)) = Some v"
  by (simp add: get_law put_inv put_stored)

lemma get_put_other:
  "inv s \<Longrightarrow> ok_key k \<Longrightarrow> ok_val v \<Longrightarrow> ok_key k' \<Longrightarrow> k' \<noteq> k \<Longrightarrow>
     get k' (snd (put k v s)) = get k' s"
  by (cases "fst (put k v s)") (simp_all add: get_law put_inv put_stored put_refused)

lemma get_del:
  "inv s \<Longrightarrow> ok_key k \<Longrightarrow> ok_key k' \<Longrightarrow>
     get k' (snd (del k s)) = (if k' = k then None else get k' s)"
  by (simp add: get_law del_inv del_law)

lemma step_inv: "inv s \<Longrightarrow> ok_op x \<Longrightarrow> inv (snd (step x s))"
  by (cases x) (simp_all add: ok_op_def put_inv del_inv prod.case_eq_if)

text \<open>A step whose \<open>put\<close> is not refused is the step on the map.\<close>

lemma step_refines:
  assumes "inv s" and "ok_op x" and "fst (step x s) \<noteq> Stored False"
  shows "fst (step x s) = fst (map_step x (abs_map s))
       \<and> abs_map (snd (step x s)) = snd (map_step x (abs_map s))"
proof (cases x)
  case (PutOp k v)
  with assms show ?thesis
    using put_stored [of s k v] by (auto simp: ok_op_def split: prod.splits)
next
  case (GetOp k)
  with assms show ?thesis by (simp add: ok_op_def get_law)
next
  case (DelOp k)
  with assms show ?thesis
    using del_law [of s k] by (auto simp: ok_op_def split: prod.splits)
qed

lemma run_refines:
  assumes "inv s" and "\<forall>x\<in>set xs. ok_op x" and "Stored False \<notin> set (fst (run xs s))"
  shows "fst (run xs s) = fst (map_run xs (abs_map s))
       \<and> abs_map (snd (run xs s)) = snd (map_run xs (abs_map s)) \<and> inv (snd (run xs s))"
  using assms
proof (induction xs arbitrary: s)
  case Nil
  then show ?case by simp
next
  case (Cons x xs)
  obtain r s1 where st: "step x s = (r, s1)" by (cases "step x s")
  obtain rs s2 where rn: "run xs s1 = (rs, s2)" by (cases "run xs s1")
  have "r \<noteq> Stored False" and rest: "Stored False \<notin> set (fst (run xs s1))"
    using Cons.prems(3) by (auto simp: st rn)
  then have "r = fst (map_step x (abs_map s)) \<and> abs_map s1 = snd (map_step x (abs_map s))"
    using step_refines [of s x] Cons.prems by (simp add: st)
  moreover have "inv s1" using step_inv [of s x] Cons.prems by (simp add: st)
  ultimately show ?case
    using Cons.IH [of s1] Cons.prems rest by (auto simp: st rn split: prod.splits)
qed

end

end
