(* ===== verification/KvStore.thy ===== *)
theory KvStore
  imports StoreContract "HOL-Library.AList"
begin

section \<open>The mutex-protected store (\<open>kvstore::KeyValueStore\<close>)\<close>

text \<open>
  Models \<open>include/kvstore/kv_store.hpp\<close> and \<open>src/kvstore/kv_store.cpp\<close>. The
  \<open>std::unordered_map\<close> is an association list with distinct keys: \<open>insert_or_assign\<close> is
  \<open>AList.update\<close>, \<open>erase\<close> is \<open>AList.delete\<close>, \<open>find\<close> is \<open>map_of\<close> (the code never iterates, so
  the order is not observable). The second half models the \<open>std::mutex\<close> and the threads of the
  two-sided server: every method takes the lock, reads the table, writes it back and unlocks in
  separate steps of an interleaving, and the lock is what makes the methods atomic.
\<close>

subsection \<open>The operations\<close>

record KeyValueStore =
  entries :: "(string \<times> string) list"

definition empty_store :: KeyValueStore where
  "empty_store = \<lparr>entries = []\<rparr>"

definition kv_set :: "string \<Rightarrow> string \<Rightarrow> KeyValueStore \<Rightarrow> bool \<times> KeyValueStore" where
  "kv_set k v s =
     (let inserted = (map_of (entries s) k = None)
      in (inserted, s\<lparr>entries := AList.update k v (entries s)\<rparr>))"

definition kv_get :: "string \<Rightarrow> KeyValueStore \<Rightarrow> string option" where
  "kv_get k s = (case map_of (entries s) k of None \<Rightarrow> None | Some v \<Rightarrow> Some v)"

definition kv_erase :: "string \<Rightarrow> KeyValueStore \<Rightarrow> bool \<times> KeyValueStore" where
  "kv_erase k s =
     (let rest = AList.delete k (entries s); removed = length (entries s) - length rest
      in (removed > 0, s\<lparr>entries := rest\<rparr>))"

definition kv_size :: "KeyValueStore \<Rightarrow> nat" where
  "kv_size s = length (entries s)"

subsection \<open>Invariant and abstraction\<close>

definition kv_inv :: "KeyValueStore \<Rightarrow> bool" where
  "kv_inv s \<longleftrightarrow> distinct (map fst (entries s))"

definition kv_map :: "KeyValueStore \<Rightarrow> string \<rightharpoonup> string" where
  "kv_map s = map_of (entries s)"

lemma kv_inv_empty [simp]: "kv_inv empty_store" and kv_map_empty [simp]: "kv_map empty_store = Map.empty"
  by (simp_all add: kv_inv_def kv_map_def empty_store_def)

lemma kv_get_map: "kv_get k s = kv_map s k"
  by (simp add: kv_get_def kv_map_def split: option.split)

lemma kv_set_result [simp]: "fst (kv_set k v s) = (k \<notin> dom (kv_map s))"
  by (simp add: kv_set_def kv_map_def domIff)

lemma kv_set_map [simp]: "kv_map (snd (kv_set k v s)) = (kv_map s)(k \<mapsto> v)"
  by (simp add: kv_set_def kv_map_def update_conv')

lemma kv_set_inv: "kv_inv s \<Longrightarrow> kv_inv (snd (kv_set k v s))"
  by (simp add: kv_set_def kv_inv_def distinct_update)

lemma kv_erase_map [simp]: "kv_map (snd (kv_erase k s)) = (kv_map s)(k := None)"
  by (simp add: kv_erase_def kv_map_def Let_def delete_conv')

lemma kv_erase_inv: "kv_inv s \<Longrightarrow> kv_inv (snd (kv_erase k s))"
  by (simp add: kv_erase_def kv_inv_def Let_def distinct_delete)

lemma length_delete_less: "length (AList.delete k xs) < length xs \<longleftrightarrow> k \<in> fst ` set xs"
proof (induction xs)
  case (Cons x xs)
  have "length (AList.delete k xs) \<le> length xs" by (rule length_delete_le)
  with Cons show ?case by (auto simp: less_Suc_eq_le)
qed simp

lemma kv_erase_result [simp]: "fst (kv_erase k s) = (k \<in> dom (kv_map s))"
  using length_delete_less [of k "entries s"]
  by (simp add: kv_erase_def kv_map_def Let_def dom_map_of_conv_image_fst)

lemma kv_size_card: "kv_inv s \<Longrightarrow> kv_size s = card (dom (kv_map s))"
  using distinct_card [of "map fst (entries s)"]
  by (simp add: kv_inv_def kv_size_def kv_map_def dom_map_of_conv_image_fst)

text \<open>The store meets the contract; no \<open>set\<close> is ever refused and every string is admissible.\<close>

definition kv_put :: "string \<Rightarrow> string \<Rightarrow> KeyValueStore \<Rightarrow> bool \<times> KeyValueStore" where
  "kv_put k v s = (True, snd (kv_set k v s))"

lemma fst_kv_put [simp]: "fst (kv_put k v s)" and snd_kv_put [simp]: "snd (kv_put k v s) = snd (kv_set k v s)"
  by (simp_all add: kv_put_def)

interpretation kvs: map_store kv_map kv_inv "\<lambda>_. True" "\<lambda>_. True" kv_put kv_get kv_erase
  by unfold_locales
    (simp_all add: kv_get_map kv_set_inv kv_erase_inv domIff)

subsection \<open>Threads and the mutex\<close>

datatype kv_call = CallSet string string | CallGet string | CallErase string | CallSize

datatype kv_ret = RetBool bool | RetValue "string option" | RetSize nat

fun kv_apply :: "kv_call \<Rightarrow> KeyValueStore \<Rightarrow> kv_ret \<times> KeyValueStore" where
  "kv_apply (CallSet k v) s = (let (inserted, s') = kv_set k v s in (RetBool inserted, s'))"
| "kv_apply (CallGet k) s = (RetValue (kv_get k s), s)"
| "kv_apply (CallErase k) s = (let (removed, s') = kv_erase k s in (RetBool removed, s'))"
| "kv_apply CallSize s = (RetSize (kv_size s), s)"

text \<open>
  Where a thread is in a method: outside, blocked on the \<open>lock_guard\<close>'s constructor, inside with
  the lock, inside after it has read the table and computed its result and the new contents, or
  inside after it has written the contents back.
\<close>

datatype thread_pc =
    Outside
  | Blocked kv_call
  | Locked kv_call
  | Computed kv_call kv_ret KeyValueStore
  | Written kv_call kv_ret

text \<open>\<open>history\<close> is a ghost: the calls in the order in which they wrote the table, with results.\<close>

record kv_threads =
  shared :: KeyValueStore
  mutex_owner :: "nat option"
  pcs :: "nat \<Rightarrow> thread_pc"
  history :: "(nat \<times> kv_call \<times> kv_ret) list"

definition kv_threads_init :: kv_threads where
  "kv_threads_init =
     \<lparr>shared = empty_store, mutex_owner = None, pcs = (\<lambda>_. Outside), history = []\<rparr>"

inductive kv_step :: "kv_threads \<Rightarrow> kv_threads \<Rightarrow> bool" where
  enter: "pcs s t = Outside \<Longrightarrow> kv_step s (s\<lparr>pcs := (pcs s)(t := Blocked c)\<rparr>)"
| lock: "pcs s t = Blocked c \<Longrightarrow> mutex_owner s = None \<Longrightarrow>
     kv_step s (s\<lparr>pcs := (pcs s)(t := Locked c), mutex_owner := Some t\<rparr>)"
| compute: "pcs s t = Locked c \<Longrightarrow> kv_apply c (shared s) = (r, s') \<Longrightarrow>
     kv_step s (s\<lparr>pcs := (pcs s)(t := Computed c r s')\<rparr>)"
| commit: "pcs s t = Computed c r s' \<Longrightarrow>
     kv_step s (s\<lparr>shared := s', pcs := (pcs s)(t := Written c r), history := history s @ [(t, c, r)]\<rparr>)"
| unlock: "pcs s t = Written c r \<Longrightarrow>
     kv_step s (s\<lparr>pcs := (pcs s)(t := Outside), mutex_owner := None\<rparr>)"

inductive kv_reachable :: "kv_threads \<Rightarrow> bool" where
  kv_start: "kv_reachable kv_threads_init"
| kv_next: "kv_reachable s \<Longrightarrow> kv_step s s' \<Longrightarrow> kv_reachable s'"



fun in_critical :: "thread_pc \<Rightarrow> bool" where
  "in_critical Outside = False"
| "in_critical (Blocked c) = False"
| "in_critical (Locked c) = True"
| "in_critical (Computed c r s) = True"
| "in_critical (Written c r) = True"

subsection \<open>The sequential meaning of a history\<close>

fun replay :: "kv_call list \<Rightarrow> KeyValueStore \<Rightarrow> kv_ret list \<times> KeyValueStore" where
  "replay [] s = ([], s)"
| "replay (c # cs) s =
     (let (r, s1) = kv_apply c s; (rs, s2) = replay cs s1 in (r # rs, s2))"

definition calls_of :: "(nat \<times> kv_call \<times> kv_ret) list \<Rightarrow> kv_call list" where
  "calls_of h = map (\<lambda>(t, c, r). c) h"

definition results_of :: "(nat \<times> kv_call \<times> kv_ret) list \<Rightarrow> kv_ret list" where
  "results_of h = map (\<lambda>(t, c, r). r) h"

lemma calls_of_simps [simp]: "calls_of [] = []" "calls_of ((t, c, r) # h) = c # calls_of h"
  "calls_of (h @ h') = calls_of h @ calls_of h'"
  by (simp_all add: calls_of_def)

lemma results_of_simps [simp]: "results_of [] = []" "results_of ((t, c, r) # h) = r # results_of h"
  "results_of (h @ h') = results_of h @ results_of h'"
  by (simp_all add: results_of_def)

lemma replay_append:
  "replay (cs @ cs') s =
     (let (rs, s1) = replay cs s; (rs', s2) = replay cs' s1 in (rs @ rs', s2))"
  by (induction cs arbitrary: s) (auto split: prod.splits)

lemma kv_apply_inv: "kv_inv s \<Longrightarrow> kv_inv (snd (kv_apply c s))"
  by (cases c) (simp_all add: kv_set_inv kv_erase_inv prod.case_eq_if)

text \<open>
  The invariant: the lock is held by exactly the thread that is inside a method, what a thread has
  computed is still right for the shared table, and the history is a sequential run.
\<close>

definition kv_sys_inv :: "kv_threads \<Rightarrow> bool" where
  "kv_sys_inv s \<longleftrightarrow>
     (\<forall>t. in_critical (pcs s t) \<longleftrightarrow> mutex_owner s = Some t)
     \<and> (\<forall>t c r s'. pcs s t = Computed c r s' \<longrightarrow> kv_apply c (shared s) = (r, s'))
     \<and> replay (calls_of (history s)) empty_store = (results_of (history s), shared s)
     \<and> kv_inv (shared s)"

lemma kv_sys_inv_init: "kv_sys_inv kv_threads_init"
  by (simp add: kv_sys_inv_def kv_threads_init_def)

lemma kv_sys_inv_pc_lock:
  "kv_sys_inv s \<Longrightarrow> in_critical (pcs s t) \<Longrightarrow> in_critical (pcs s u) \<Longrightarrow> u = t"
  by (auto simp: kv_sys_inv_def)

lemma kv_step_inv:
  assumes "kv_step s s'" and inv: "kv_sys_inv s"
  shows "kv_sys_inv s'"
proof -
  have own: "(mutex_owner s = Some t) = in_critical (pcs s t)" for t
    using inv by (simp add: kv_sys_inv_def)
  have computed: "kv_apply c (shared s) = (r, s1)" if "pcs s t = Computed c r s1" for t c r s1
    using inv that by (simp add: kv_sys_inv_def)
  have seq: "replay (calls_of (history s)) empty_store = (results_of (history s), shared s)"
    and wf: "kv_inv (shared s)"
    using inv by (simp_all add: kv_sys_inv_def)
  note facts = kv_sys_inv_def own computed seq wf
  from assms(1) show ?thesis
  proof (cases rule: kv_step.cases)
    case (enter t c)
    then show ?thesis by (auto simp: facts)
  next
    case (lock t c)
    then show ?thesis using own by (auto simp: facts)
  next
    case (compute t c r s1)
    then show ?thesis by (auto simp: facts)
  next
    case (commit t c r s1)
    have only: "pcs s u \<noteq> Computed c' r' s2" if "u \<noteq> t" for u c' r' s2
      using kv_sys_inv_pc_lock [OF inv, of t u] that commit by auto
    have app: "kv_apply c (shared s) = (r, s1)" using computed commit by blast
    then have "kv_inv s1" using kv_apply_inv [OF wf, of c] by simp
    with commit app only show ?thesis by (auto simp: facts replay_append)
  next
    case (unlock t c r)
    then have "mutex_owner s = Some t" by (simp add: own)
    then have "\<not> in_critical (pcs s u)" if "u \<noteq> t" for u
      using own [of u] that by simp
    with unlock show ?thesis by (simp add: kv_sys_inv_def computed seq wf)
  qed
qed

lemma kv_reachable_inv: "kv_reachable s \<Longrightarrow> kv_sys_inv s"
  by (induction rule: kv_reachable.induct) (auto intro: kv_sys_inv_init kv_step_inv)

subsection \<open>Threads that use keys of their own\<close>

fun call_key :: "kv_call \<Rightarrow> string option" where
  "call_key (CallSet k v) = Some k"
| "call_key (CallGet k) = Some k"
| "call_key (CallErase k) = Some k"
| "call_key CallSize = None"

definition agree_on :: "string set \<Rightarrow> KeyValueStore \<Rightarrow> KeyValueStore \<Rightarrow> bool" where
  "agree_on K s s' \<longleftrightarrow> (\<forall>k\<in>K. kv_map s k = kv_map s' k)"

lemma kv_apply_frame [frame_facts]:
  "call_key c \<notin> Some ` K \<Longrightarrow> agree_on K (snd (kv_apply c s)) s"
  by (cases c) (auto simp: agree_on_def prod.case_eq_if)

lemma kv_apply_agree:
  assumes "call_key c \<in> Some ` K" and "agree_on K s s'"
  shows "fst (kv_apply c s) = fst (kv_apply c s') \<and> agree_on K (snd (kv_apply c s)) (snd (kv_apply c s'))"
  using assms by (cases c) (auto simp: agree_on_def prod.case_eq_if kv_get_map domIff)

lemma agree_on_trans: "agree_on K s1 s2 \<Longrightarrow> agree_on K s2 s3 \<Longrightarrow> agree_on K s1 s3"
  by (simp add: agree_on_def)

text \<open>The results of the calls on keys of \<open>K\<close> do not depend on the calls on other keys.\<close>

lemma replay_isolated:
  assumes "replay (calls_of h) s = (results_of h, s1)" and "agree_on K s s'"
    and "\<forall>e\<in>set h. call_key (fst (snd e)) \<in> Some ` K \<longleftrightarrow> P (fst e)"
  shows "results_of (filter (\<lambda>e. P (fst e)) h)
       = fst (replay (calls_of (filter (\<lambda>e. P (fst e)) h)) s')"
  using assms
proof (induction h arbitrary: s s')
  case (Cons x h)
  obtain t c r where x: "x = (t, c, r)" by (cases x)
  obtain s2 where step: "kv_apply c s = (r, s2)" and rest: "replay (calls_of h) s2 = (results_of h, s1)"
    using Cons.prems(1) by (auto simp: x split: prod.splits)
  show ?case
  proof (cases "P t")
    case True
    then have key: "call_key c \<in> Some ` K" using Cons.prems(3) by (simp add: x)
    obtain s3 where step': "kv_apply c s' = (r, s3)" and "agree_on K s2 s3"
      using kv_apply_agree [OF key Cons.prems(2)] step by (cases "kv_apply c s'") auto
    then have "results_of (filter (\<lambda>e. P (fst e)) h)
       = fst (replay (calls_of (filter (\<lambda>e. P (fst e)) h)) s3)"
      using Cons.IH [OF rest] Cons.prems(3) by simp
    with True step' show ?thesis by (simp add: x split: prod.split)
  next
    case False
    then have "call_key c \<notin> Some ` K" using Cons.prems(3) by (simp add: x)
    then have "agree_on K s2 s'"
      using kv_apply_frame [of c K s] step Cons.prems(2) agree_on_trans by fastforce
    then show ?thesis using Cons.IH [OF rest] Cons.prems(3) False by (simp add: x)
  qed
qed simp

text \<open>A whole method call of one thread is a run of five steps (used to build example runs).\<close>

lemma kv_reachable_call:
  assumes "kv_reachable s" and "pcs s t = Outside" and "mutex_owner s = None"
  shows "kv_reachable (s\<lparr>shared := snd (kv_apply c (shared s)),
                        history := history s @ [(t, c, fst (kv_apply c (shared s)))]\<rparr>)"
proof -
  obtain r s1 where app: "kv_apply c (shared s) = (r, s1)" by (cases "kv_apply c (shared s)")
  have pcs: "(pcs s)(t := Outside) = pcs s" using assms(2) by auto
  note r1 = kv_next [OF assms(1) enter [OF assms(2), of c]]
  note r2 = kv_next [OF r1 lock [of _ t c]]
  note r3 = kv_next [OF r2 compute [of _ t c r s1]]
  note r4 = kv_next [OF r3 commit [of _ t c r s1]]
  note r5 = kv_next [OF r4 unlock [of _ t c r]]
  show ?thesis using r5 assms(2,3) app pcs by (cases s) simp
qed

lemma kv_two_calls:
  "\<exists>s. kv_reachable s
     \<and> history s = [(0, c, fst (kv_apply c empty_store)),
                    (7, d, fst (kv_apply d (snd (kv_apply c empty_store))))]"
proof -
  note r1 = kv_reachable_call [OF kv_start, of 0 c]
  note r2 = kv_reachable_call [OF r1, of 7 d]
  show ?thesis by (rule exI, rule conjI, rule r2) (simp_all add: kv_threads_init_def)
qed

subsection \<open>Properties of the store\<close>

text \<open>
  C32: The store refines a partial map: \<open>get\<close> reads it, \<open>set\<close> updates it and reports whether the key
  is new, \<open>erase\<close> removes the key and reports whether it was there, and each keeps the keys distinct.
\<close>
theorem kv_store_refines_map:
  assumes "kv_inv s"
  shows "kv_get k s = kv_map s k
       \<and> fst (kv_set k v s) = (kv_map s k = None)
       \<and> kv_map (snd (kv_set k v s)) = (kv_map s)(k \<mapsto> v)
       \<and> fst (kv_erase k s) = (kv_map s k \<noteq> None)
       \<and> kv_map (snd (kv_erase k s)) = (kv_map s)(k := None)
       \<and> kv_size s = card (dom (kv_map s))
       \<and> kv_inv (snd (kv_set k v s)) \<and> kv_inv (snd (kv_erase k s))"
  using assms
  by (auto simp: kv_get_map domIff kv_set_inv kv_erase_inv kv_size_card)

theorem kv_store_refines_map_witness:
  "kv_get ''a'' (snd (kv_set ''a'' ''1'' empty_store)) = Some ''1''
   \<and> kv_size (snd (kv_set ''a'' ''1'' empty_store)) = 1"
proof -
  have "kv_inv (snd (kv_set ''a'' ''1'' empty_store))" by (simp add: kv_set_inv)
  from kv_store_refines_map [OF this] show ?thesis by simp
qed

text \<open>
  C30: Linearizability under the mutex. In every reachable state of any number of threads, at most
  one thread is inside a method, and the shared table and all results returned so far are those of
  running the calls one after the other in the order of their writes.
\<close>
theorem kv_mutex_linearizable:
  assumes "kv_reachable s"
  shows "replay (calls_of (history s)) empty_store = (results_of (history s), shared s)
       \<and> (in_critical (pcs s t) \<and> in_critical (pcs s u) \<longrightarrow> t = u)"
  using kv_reachable_inv [OF assms] kv_sys_inv_pc_lock [of s u t] by (auto simp: kv_sys_inv_def)

theorem kv_mutex_linearizable_witness:
  "\<exists>s :: kv_threads. history s = [(0, CallSet ''a'' ''1'', RetBool True), (7, CallGet ''a'', RetValue (Some ''1''))]
     \<and> replay (calls_of (history s)) empty_store = (results_of (history s), shared s)"
proof -
  obtain s where s: "kv_reachable s"
    "history s = [(0, CallSet ''a'' ''1'', RetBool True), (7, CallGet ''a'', RetValue (Some ''1''))]"
    using kv_two_calls [of "CallSet ''a'' ''1''" "CallGet ''a''"]
    by (auto simp: prod.case_eq_if kv_get_map)
  show ?thesis
    by (rule exI [of _ s], rule conjI, rule s(2), rule conjunct1, rule kv_mutex_linearizable [OF s(1)])
qed

text \<open>
  Threads with disjoint keys do not disturb each other (what the concurrency test samples):
  if thread \<open>t\<close>'s calls use keys of \<open>K\<close> and no other thread's call does, the results of \<open>t\<close> in any
  interleaving are those of \<open>t\<close> running alone on an empty store.
\<close>
theorem kv_disjoint_threads_isolated:
  assumes "kv_reachable s"
    and "\<forall>e\<in>set (history s). call_key (fst (snd e)) \<in> Some ` K \<longleftrightarrow> fst e = t"
  shows "results_of (filter (\<lambda>e. fst e = t) (history s))
       = fst (replay (calls_of (filter (\<lambda>e. fst e = t) (history s))) empty_store)"
proof (rule replay_isolated)
  show "replay (calls_of (history s)) empty_store = (results_of (history s), shared s)"
    using kv_reachable_inv [OF assms(1)] by (simp add: kv_sys_inv_def)
qed (use assms(2) in \<open>auto simp: agree_on_def\<close>)

theorem kv_disjoint_threads_isolated_witness:
  "\<exists>s :: kv_threads. history s = [(0, CallSet ''a'' ''1'', RetBool True), (7, CallGet ''b'', RetValue None)]
     \<and> results_of (filter (\<lambda>e. fst e = 0) (history s))
       = fst (replay (calls_of (filter (\<lambda>e. fst e = 0) (history s))) empty_store)"
proof -
  obtain s where s: "kv_reachable s"
    "history s = [(0, CallSet ''a'' ''1'', RetBool True), (7, CallGet ''b'', RetValue None)]"
    using kv_two_calls [of "CallSet ''a'' ''1''" "CallGet ''b''"]
    by (auto simp: prod.case_eq_if kv_get_map)
  then have own: "\<forall>e\<in>set (history s). call_key (fst (snd e)) \<in> Some ` {''a''} \<longleftrightarrow> fst e = 0" by simp
  show ?thesis using kv_disjoint_threads_isolated [OF s(1) own] s(2) by blast
qed

end
