(* ===== verification/OpenAddressing.thy ===== *)
theory OpenAddressing
  imports Prelude
begin

section \<open>Linear probing with tombstones\<close>

text \<open>
  The algorithm behind both sides of the one-sided table: the server's \<open>RdmaStore::set/get/erase\<close>
  (\<open>src/kvstore/rdma_store.cpp\<close>) and the client's \<open>one_sided_get\<close> and \<open>one_sided_set\<close>
  (\<open>src/client/rdma_client.cpp\<close>) probe \<open>hash, hash + 1, ...\<close> until they meet the key or an empty
  slot, and skip tombstones. The locale fixes only what probing looks at: the number of slots, the
  hash, the status of a slot and the key it holds. Its invariant says that no key is stored twice
  and that no slot between a key's home position and the slot that holds it is empty; its lemmas
  say that a search decides presence, and that overwriting, inserting at the place a search finds
  and tombstoning keep the invariant and act on the contents as on a map.
\<close>

datatype slot_status = Empty | Valid | Tomb

text \<open>Where a key goes: over its own slot, into a free slot, or nowhere because no slot is empty;
then the first tombstone on the way, if any, is still recorded.\<close>

datatype place = Overwrite nat | Insert nat | NoEmpty "nat option"

locale open_addressing =
  fixes N :: nat
    and hash :: "'k \<Rightarrow> nat"
    and status :: "'s \<Rightarrow> slot_status"
    and key_of :: "'s \<Rightarrow> 'k"
  assumes N_pos: "0 < N"
begin

definition pos :: "'k \<Rightarrow> nat \<Rightarrow> nat" where
  "pos k i = (hash k + i) mod N"

definition chain :: "'s list \<Rightarrow> 'k \<Rightarrow> nat \<Rightarrow> bool" where
  "chain t k m \<longleftrightarrow> (\<forall>i<m. status (t ! pos k i) \<noteq> Empty)"

definition holds :: "'s list \<Rightarrow> nat \<Rightarrow> 'k \<Rightarrow> bool" where
  "holds t p k \<longleftrightarrow> status (t ! p) = Valid \<and> key_of (t ! p) = k"

definition table_inv :: "'s list \<Rightarrow> bool" where
  "table_inv t \<longleftrightarrow> length t = N
     \<and> (\<forall>p<N. \<forall>k. holds t p k \<longrightarrow> (\<exists>m<N. p = pos k m \<and> chain t k m))
     \<and> (\<forall>p<N. \<forall>q<N. \<forall>k. holds t p k \<longrightarrow> holds t q k \<longrightarrow> p = q)"

definition stop :: "'s list \<Rightarrow> 'k \<Rightarrow> nat \<Rightarrow> bool" where
  "stop t k i \<longleftrightarrow> status (t ! pos k i) = Empty \<or> holds t (pos k i) k"

definition search_from :: "'s list \<Rightarrow> 'k \<Rightarrow> nat \<Rightarrow> nat option" where
  "search_from t k i = find (stop t k) [i..<N]"

definition lookup_from :: "'s list \<Rightarrow> 'k \<Rightarrow> nat \<Rightarrow> nat option" where
  "lookup_from t k i =
     (case search_from t k i of None \<Rightarrow> None
      | Some j \<Rightarrow> if status (t ! pos k j) = Empty then None else Some (pos k j))"

definition lookup :: "'s list \<Rightarrow> 'k \<Rightarrow> nat option" where
  "lookup t k = lookup_from t k 0"

definition tomb_upto :: "'s list \<Rightarrow> 'k \<Rightarrow> nat \<Rightarrow> nat option" where
  "tomb_upto t k i = map_option (pos k) (find (\<lambda>j. status (t ! pos k j) = Tomb) [0..<i])"

definition place_from :: "'s list \<Rightarrow> 'k \<Rightarrow> nat \<Rightarrow> place" where
  "place_from t k i =
     (case search_from t k i of None \<Rightarrow> NoEmpty (tomb_upto t k N)
      | Some j \<Rightarrow>
          if status (t ! pos k j) = Empty
          then Insert (case tomb_upto t k j of None \<Rightarrow> pos k j | Some p \<Rightarrow> p)
          else Overwrite (pos k j))"

definition place_of :: "'s list \<Rightarrow> 'k \<Rightarrow> place" where
  "place_of t k = place_from t k 0"

definition contents :: "('s \<Rightarrow> 'v) \<Rightarrow> 's list \<Rightarrow> 'k \<rightharpoonup> 'v" where
  "contents val t k = map_option (\<lambda>p. val (t ! p)) (lookup t k)"

subsection \<open>Probe positions and one probe\<close>

lemma pos_less [simp]: "pos k i < N"
  using N_pos by (simp add: pos_def)

lemma pos_inj: "i < N \<Longrightarrow> j < N \<Longrightarrow> pos k i = pos k j \<Longrightarrow> i = j"
proof (induction i j rule: linorder_wlog)
  case (le i j)
  then have "(hash k + j) mod N = (hash k + i) mod N" by (simp add: pos_def)
  then have "N dvd j - i" using le(1) by (metis add_diff_cancel_left mod_eq_dvd_iff_nat nat_add_left_cancel_le)
  then show ?case using le by (metis dvd_imp_le less_imp_diff_less not_less zero_less_diff nat_less_le)
qed simp

lemma search_from_end [simp]: "N \<le> i \<Longrightarrow> search_from t k i = None"
  by (simp add: search_from_def)

lemma search_from_step:
  "i < N \<Longrightarrow> search_from t k i = (if stop t k i then Some i else search_from t k (Suc i))"
  by (simp add: search_from_def upt_conv_Cons)

lemma search_from_Some: "search_from t k i = Some j \<Longrightarrow> i \<le> j \<and> j < N \<and> stop t k j \<and> (\<forall>l. i \<le> l \<and> l < j \<longrightarrow> \<not> stop t k l)"
proof -
  assume "search_from t k i = Some j"
  then obtain m where m: "m < N - i" "stop t k (i + m)" "j = i + m" "\<forall>l<m. \<not> stop t k (i + l)"
    by (auto simp: search_from_def find_Some_iff)
  have "\<not> stop t k l" if "i \<le> l" "l < j" for l
    using m(4) [rule_format, of "l - i"] m(3) that by simp
  with m show ?thesis by simp
qed

lemma search_from_None: "search_from t k i = None \<longleftrightarrow> (\<forall>j. i \<le> j \<and> j < N \<longrightarrow> \<not> stop t k j)"
  by (auto simp: search_from_def find_None_iff)

lemma lookup_from_end [simp]: "N \<le> i \<Longrightarrow> lookup_from t k i = None"
  by (simp add: lookup_from_def)

lemma lookup_from_step:
  assumes "i < N"
  shows "lookup_from t k i =
     (if status (t ! pos k i) = Empty then None
      else if holds t (pos k i) k then Some (pos k i)
      else lookup_from t k (Suc i))"
  using assms by (simp add: lookup_from_def search_from_step stop_def)

lemma tomb_upto_0 [simp]: "tomb_upto t k 0 = None"
  by (simp add: tomb_upto_def)

lemma find_snoc: "find P (xs @ [x]) = (case find P xs of None \<Rightarrow> if P x then Some x else None | Some y \<Rightarrow> Some y)"
  by (induction xs) auto

lemma tomb_upto_Suc [simp]:
  "tomb_upto t k (Suc i) =
     (case tomb_upto t k i of
        None \<Rightarrow> if status (t ! pos k i) = Tomb then Some (pos k i) else None
      | Some p \<Rightarrow> Some p)"
  by (simp add: tomb_upto_def find_snoc split: option.split)

lemma tomb_upto_SomeE:
  assumes "tomb_upto t k i = Some p"
  obtains m where "m < i" and "p = pos k m" and "status (t ! p) = Tomb"
  using assms by (auto simp: tomb_upto_def find_Some_iff)

lemma place_from_end: "N \<le> i \<Longrightarrow> place_from t k i = NoEmpty (tomb_upto t k N)"
  by (simp add: place_from_def)

lemma place_from_step:
  assumes "i < N"
  shows "place_from t k i =
     (if holds t (pos k i) k then Overwrite (pos k i)
      else if status (t ! pos k i) = Empty
        then Insert (case tomb_upto t k i of None \<Rightarrow> pos k i | Some p \<Rightarrow> p)
      else place_from t k (Suc i))"
  using assms by (auto simp: place_from_def search_from_step stop_def holds_def)

subsection \<open>A search decides presence\<close>

lemma chain_before_stop:
  assumes "\<forall>l<j. \<not> stop t k l" and "m \<le> j"
  shows "chain t k m"
  using assms by (auto simp: chain_def stop_def)

lemma lookup_SomeD: "lookup t k = Some p \<Longrightarrow> p < N \<and> holds t p k"
  by (auto simp: lookup_def lookup_from_def stop_def dest!: search_from_Some
      split: option.splits if_splits)

lemma lookup_NoneD:
  assumes inv: "table_inv t" and none: "lookup t k = None"
  shows "\<not> holds t p k \<or> N \<le> p"
proof (rule ccontr)
  assume "\<not> ?thesis"
  then have p: "p < N" "holds t p k" by simp_all
  then obtain m where m: "m < N" "p = pos k m" "chain t k m"
    using inv by (auto simp: table_inv_def)
  have hit: "stop t k m" using p m by (simp add: stop_def)
  show False
  proof (cases "search_from t k 0")
    case None
    with hit m(1) show ?thesis by (simp add: search_from_None)
  next
    case (Some j)
    note found = search_from_Some [OF this]
    have empty: "status (t ! pos k j) = Empty"
      using none Some by (auto simp: lookup_def lookup_from_def split: if_splits)
    have "j \<le> m" using found hit by (metis le0 linorder_not_less)
    moreover have "j \<noteq> m" using empty p m by (auto simp: holds_def)
    ultimately have "j < m" by simp
    with m(3) empty show ?thesis by (auto simp: chain_def)
  qed
qed

lemma lookup_iff:
  assumes "table_inv t"
  shows "lookup t k = Some p \<longleftrightarrow> p < N \<and> holds t p k"
proof
  assume p: "p < N \<and> holds t p k"
  show "lookup t k = Some p"
  proof (cases "lookup t k")
    case None
    with p lookup_NoneD [OF assms, of k p] show ?thesis by auto
  next
    case (Some q)
    with p lookup_SomeD [OF this] assms show ?thesis by (auto simp: table_inv_def)
  qed
qed (rule lookup_SomeD)

lemma lookup_None_iff: "table_inv t \<Longrightarrow> lookup t k = None \<longleftrightarrow> (\<forall>p<N. \<not> holds t p k)"
  using lookup_NoneD [of t k] lookup_iff [of t k] by (cases "lookup t k") auto

lemma place_Overwrite: "place_of t k = Overwrite p \<longleftrightarrow> lookup t k = Some p"
  by (auto simp: place_of_def place_from_def lookup_def lookup_from_def split: option.splits)

lemma place_Insert:
  assumes "place_of t k = Insert p"
  obtains m where "m < N" and "p = pos k m" and "chain t k m" and "status (t ! p) \<noteq> Valid"
    and "lookup t k = None"
proof -
  from assms obtain j where j: "search_from t k 0 = Some j" "status (t ! pos k j) = Empty"
    and p: "p = (case tomb_upto t k j of None \<Rightarrow> pos k j | Some q \<Rightarrow> q)"
    by (auto simp: place_of_def place_from_def split: option.splits if_splits)
  note found = search_from_Some [OF j(1)]
  then have ch: "chain t k m" if "m \<le> j" for m
    using chain_before_stop [of j t k m] that by simp
  have none: "lookup t k = None" using j by (simp add: lookup_def lookup_from_def)
  show ?thesis
  proof (cases "tomb_upto t k j")
    case None
    with p j found ch none that [of j] show ?thesis by simp
  next
    case (Some q)
    then obtain m where "m < j" "q = pos k m" "status (t ! q) = Tomb" by (rule tomb_upto_SomeE)
    with p Some found ch none that [of m] show ?thesis by simp
  qed
qed

lemma place_NoEmpty:
  assumes "place_of t k = NoEmpty tp"
  shows "lookup t k = None \<and> (\<forall>i<N. status (t ! pos k i) \<noteq> Empty) \<and> tp = tomb_upto t k N"
proof -
  from assms have none: "search_from t k 0 = None" and tp: "tp = tomb_upto t k N"
    by (auto simp: place_of_def place_from_def split: option.splits if_splits)
  have "lookup t k = None" by (simp add: none lookup_def lookup_from_def)
  with none tp show ?thesis by (auto simp: search_from_None stop_def)
qed

lemma place_NoEmpty_Tomb:
  assumes "place_of t k = NoEmpty (Some p)"
  obtains m where "m < N" and "p = pos k m" and "chain t k m" and "status (t ! p) \<noteq> Valid"
    and "lookup t k = None"
proof -
  note full = place_NoEmpty [OF assms]
  then have "tomb_upto t k N = Some p" by simp
  then obtain m where "m < N" "p = pos k m" "status (t ! p) = Tomb" by (rule tomb_upto_SomeE)
  with full that [of m] show ?thesis by (auto simp: chain_def)
qed

text \<open>Every position is probed: the \<open>N\<close> probes of a key visit each slot.\<close>

lemma pos_surj:
  assumes "p < N"
  obtains i where "i < N" and "pos k i = p"
proof -
  have "inj_on (pos k) {..<N}" by (auto simp: inj_on_def intro: pos_inj)
  then have "pos k ` {..<N} = {..<N}" by (intro endo_inj_surj) auto
  with assms that show ?thesis by (metis (no_types, lifting) image_iff lessThan_iff)
qed

lemma place_NoEmpty_full:
  "place_of t k = NoEmpty tp \<Longrightarrow> p < N \<Longrightarrow> status (t ! p) \<noteq> Empty"
  using place_NoEmpty pos_surj by metis

subsection \<open>Changing one slot\<close>

lemma holds_update: "p < length t \<Longrightarrow> q < length t \<Longrightarrow>
    holds (t[p := s]) q k = (if q = p then status s = Valid \<and> key_of s = k else holds t q k)"
  by (simp add: holds_def)

lemma chain_update:
  assumes "length t = N" and "status s \<noteq> Empty" and "chain t k m"
  shows "chain (t[p := s]) k m"
proof -
  have "t[p := s] ! pos k i = (if pos k i = p then s else t ! pos k i)" for i
    using assms(1) pos_less [of k i] by (cases "pos k i = p") simp_all
  then show ?thesis using assms(2,3) by (simp add: chain_def)
qed

text \<open>Tables with the same statuses and keys look the same to probing.\<close>

lemma relabel_all:
  assumes "\<And>q. q < N \<Longrightarrow> status (t' ! q) = status (t ! q) \<and> key_of (t' ! q) = key_of (t ! q)"
  shows relabel_holds: "holds t' (pos k i) = holds t (pos k i)"
    and relabel_chain: "chain t' k m = chain t k m"
    and relabel_find: "search_from t' k i = search_from t k i"
    and relabel_tomb: "tomb_upto t' k i = tomb_upto t k i"
    and relabel_place: "place_from t' k i = place_from t k i"
    and relabel_from: "lookup_from t' k i = lookup_from t k i"
proof -
  have st: "status (t' ! pos k j) = status (t ! pos k j)" and ky: "key_of (t' ! pos k j) = key_of (t ! pos k j)" for k j
    using assms [of "pos k j"] by simp_all
  show "holds t' (pos k i) = holds t (pos k i)" by (rule ext) (simp add: holds_def st ky)
  show "chain t' k m = chain t k m" by (simp add: chain_def st)
  have "stop t' k = stop t k" by (rule ext) (simp add: stop_def holds_def st ky)
  then have find: "search_from t' k j = search_from t k j" for j by (simp add: search_from_def)
  have tomb: "tomb_upto t' k j = tomb_upto t k j" for j by (simp add: tomb_upto_def st)
  show "search_from t' k i = search_from t k i" by (rule find)
  show "tomb_upto t' k i = tomb_upto t k i" by (rule tomb)
  show "place_from t' k i = place_from t k i" by (simp add: place_from_def find tomb st cong: option.case_cong if_cong)
  show "lookup_from t' k i = lookup_from t k i" by (simp add: lookup_from_def find st cong: option.case_cong)
qed

text \<open>A change that touches neither status nor key is invisible to probing.\<close>

lemma relabel:
  assumes "p < length t" and "status s = status (t ! p)" and "key_of s = key_of (t ! p)"
  shows relabel_inv: "table_inv (t[p := s]) = table_inv t"
    and relabel_lookup: "lookup (t[p := s]) k = lookup t k"
proof -
  have st: "status (t[p := s] ! q) = status (t ! q)" and ky: "key_of (t[p := s] ! q) = key_of (t ! q)" for q
    using assms by (cases "q = p"; simp)+
  show "table_inv (t[p := s]) = table_inv t"
    by (simp add: table_inv_def holds_def chain_def st ky)
  show "lookup (t[p := s]) k = lookup t k"
    unfolding lookup_def by (rule relabel_from) (simp add: st ky)
qed

text \<open>Putting a key into any non-valid slot of its chain, when it is nowhere else.\<close>

lemma insert_inv:
  assumes inv: "table_inv t" and none: "lookup t k = None"
    and m: "m < N" "p = pos k m" "chain t k m" and free: "status (t ! p) \<noteq> Valid"
    and s: "status s = Valid" "key_of s = k"
  shows "table_inv (t[p := s])"
proof -
  have len: "length t = N" and p: "p < N" using inv m by (simp_all add: table_inv_def)
  have absent: "\<not> holds t q k" if "q < N" for q
    using none that lookup_None_iff [OF inv] by blast
  have upd: "holds (t[p := s]) q k' = (if q = p then k' = k else holds t q k')" if "q < N" for q k'
    using holds_update [of p t q s k'] that p len s by auto
  have chains: "\<exists>m<N. q = pos k' m \<and> chain (t[p := s]) k' m"
    if "q < N" "holds (t[p := s]) q k'" for q k'
  proof (cases "q = p")
    case True
    with that upd have "k' = k" by simp
    with True m chain_update [OF len, of s k m p] s show ?thesis by auto
  next
    case False
    with that upd have "holds t q k'" by simp
    with that(1) inv obtain m' where "m' < N" "q = pos k' m'" "chain t k' m'"
      by (auto simp: table_inv_def)
    with chain_update [OF len, of s k' m' p] s show ?thesis by auto
  qed
  have uniq: "q = r"
    if "q < N" "r < N" "holds (t[p := s]) q k'" "holds (t[p := s]) r k'" for q r k'
    using that upd absent inv by (auto simp: table_inv_def split: if_splits)
  show ?thesis unfolding table_inv_def using len chains uniq by auto
qed

lemma overwrite_inv:
  assumes inv: "table_inv t" and at: "lookup t k = Some p"
    and s: "status s = Valid" "key_of s = k"
  shows "table_inv (t[p := s])"
proof -
  have len: "length t = N" and p: "p < N" "holds t p k"
    using inv lookup_SomeD [OF at] by (simp_all add: table_inv_def)
  have upd: "holds (t[p := s]) q k' = holds t q k'" if "q < N" for q k'
    using holds_update [of p t q s k'] that p len s by (auto simp: holds_def)
  have "\<exists>m<N. q = pos k' m \<and> chain (t[p := s]) k' m" if "q < N" "holds t q k'" for q k'
  proof -
    from that inv obtain m' where "m' < N" "q = pos k' m'" "chain t k' m'"
      by (auto simp: table_inv_def)
    with chain_update [OF len, of s k' m' p] s show ?thesis by auto
  qed
  moreover have "q = r" if "q < N" "r < N" "holds t q k'" "holds t r k'" for q r k'
    using that inv by (auto simp: table_inv_def)
  ultimately show ?thesis unfolding table_inv_def using len upd by auto
qed

lemma erase_inv:
  assumes inv: "table_inv t" and p: "p < N" and s: "status s = Tomb"
  shows "table_inv (t[p := s])"
proof -
  have len: "length t = N" using inv by (simp add: table_inv_def)
  have upd: "holds (t[p := s]) q k' = (q \<noteq> p \<and> holds t q k')" if "q < N" for q k'
    using holds_update [of p t q s k'] that p len s by (auto simp: holds_def)
  have "\<exists>m<N. q = pos k' m \<and> chain (t[p := s]) k' m" if "q < N" "holds t q k'" for q k'
  proof -
    from that inv obtain m' where "m' < N" "q = pos k' m'" "chain t k' m'"
      by (auto simp: table_inv_def)
    with chain_update [OF len, of s k' m' p] s show ?thesis by auto
  qed
  moreover have "q = r" if "q < N" "r < N" "holds t q k'" "holds t r k'" for q r k'
    using that inv by (auto simp: table_inv_def)
  ultimately show ?thesis unfolding table_inv_def using len upd by auto
qed

text \<open>What a lookup finds after a change, and the contents as a map.\<close>

lemma option_eq_by_Some: "(\<And>x. a = Some x \<longleftrightarrow> b = Some x) \<Longrightarrow> a = b"
  by (metis option.exhaust)

lemma lookup_insert:
  assumes "table_inv t" and "lookup t k = None"
    and "m < N" "p = pos k m" "chain t k m" and free: "status (t ! p) \<noteq> Valid"
    and s: "status s = Valid" "key_of s = k"
  shows "lookup (t[p := s]) k' = (if k' = k then Some p else lookup t k')"
proof (rule option_eq_by_Some)
  fix q
  have inv': "table_inv (t[p := s])" using assms by (rule insert_inv)
  have len: "length t = N" and p: "p < N" using assms by (simp_all add: table_inv_def)
  have "\<not> holds t q k" if "q < N"
    using assms(2) that lookup_None_iff [OF assms(1)] by blast
  moreover have "\<not> holds t p k'" using free by (simp add: holds_def)
  ultimately show "lookup (t[p := s]) k' = Some q \<longleftrightarrow> (if k' = k then Some p else lookup t k') = Some q"
    using p s holds_update [of p t q s k'] len
    by (auto simp: lookup_iff [OF inv'] lookup_iff [OF assms(1)] split: if_splits)
qed

lemma lookup_overwrite:
  assumes "table_inv t" and at: "lookup t k = Some p" and s: "status s = Valid" "key_of s = k"
  shows "lookup (t[p := s]) k' = lookup t k'"
proof (rule option_eq_by_Some)
  fix q
  have inv': "table_inv (t[p := s])" using assms by (rule overwrite_inv)
  have len: "length t = N" and p: "p < N" "holds t p k"
    using assms(1) lookup_SomeD [OF at] by (simp_all add: table_inv_def)
  have "holds t p k' \<longleftrightarrow> k' = k" using p by (auto simp: holds_def)
  then show "lookup (t[p := s]) k' = Some q \<longleftrightarrow> lookup t k' = Some q"
    using p s holds_update [of p t q s k'] len
    by (auto simp: lookup_iff [OF inv'] lookup_iff [OF assms(1)] split: if_splits)
qed

lemma lookup_erase:
  assumes "table_inv t" and at: "lookup t k = Some p" and s: "status s = Tomb"
  shows "lookup (t[p := s]) k' = (if k' = k then None else lookup t k')"
proof (rule option_eq_by_Some)
  fix q
  have len: "length t = N" and p: "p < N" "holds t p k"
    using assms(1) lookup_SomeD [OF at] by (simp_all add: table_inv_def)
  have inv': "table_inv (t[p := s])" by (rule erase_inv [OF assms(1) p(1) s])
  have upd: "holds (t[p := s]) q k' \<longleftrightarrow> q \<noteq> p \<and> holds t q k'" if "q < N"
    using holds_update [of p t q s k'] p s len that by auto
  show "lookup (t[p := s]) k' = Some q \<longleftrightarrow> (if k' = k then None else lookup t k') = Some q"
  proof (cases "k' = k")
    case True
    have "q = p" if "q < N" "holds t q k" using that p assms(1) unfolding table_inv_def by blast
    with True upd show ?thesis by (auto simp: lookup_iff [OF inv'])
  next
    case False
    then have "\<not> holds t p k'" using p by (auto simp: holds_def)
    with False upd show ?thesis by (auto simp: lookup_iff [OF inv'] lookup_iff [OF assms(1)])
  qed
qed

lemma lookup_other:
  assumes "lookup t k' = Some q" and "status (t ! p) \<noteq> Valid \<or> key_of (t ! p) \<noteq> k'"
  shows "q \<noteq> p"
  using lookup_SomeD [OF assms(1)] assms(2) by (auto simp: holds_def)

lemma contents_insert:
  assumes "table_inv t" and "lookup t k = None"
    and "m < N" "p = pos k m" "chain t k m" and free: "status (t ! p) \<noteq> Valid"
    and s: "status s = Valid" "key_of s = k"
  shows "contents val (t[p := s]) = (contents val t)(k \<mapsto> val s)"
proof
  fix k'
  have len: "length t = N" and p: "p < N" using assms by (simp_all add: table_inv_def)
  show "contents val (t[p := s]) k' = ((contents val t)(k \<mapsto> val s)) k'"
  proof (cases "lookup t k'")
    case None
    then show ?thesis using p len by (simp add: contents_def lookup_insert [OF assms])
  next
    case (Some q)
    with lookup_other [of t k' q p] free have "q \<noteq> p" by simp
    with Some show ?thesis using p len by (simp add: contents_def lookup_insert [OF assms])
  qed
qed

lemma contents_overwrite:
  assumes "table_inv t" and at: "lookup t k = Some p" and s: "status s = Valid" "key_of s = k"
  shows "contents val (t[p := s]) = (contents val t)(k \<mapsto> val s)"
proof
  fix k'
  have len: "length t = N" and p: "p < N" "holds t p k"
    using assms(1) lookup_SomeD [OF at] by (simp_all add: table_inv_def)
  show "contents val (t[p := s]) k' = ((contents val t)(k \<mapsto> val s)) k'"
  proof (cases "k' = k")
    case True
    then show ?thesis using at p len by (simp add: contents_def lookup_overwrite [OF assms])
  next
    case False
    then have "q \<noteq> p" if "lookup t k' = Some q" for q
      using lookup_other [OF that, of p] p(2) by (auto simp: holds_def)
    with False show ?thesis
      by (cases "lookup t k'") (simp_all add: contents_def lookup_overwrite [OF assms])
  qed
qed

lemma contents_erase:
  assumes "table_inv t" and at: "lookup t k = Some p" and s: "status s = Tomb"
  shows "contents val (t[p := s]) = (contents val t)(k := None)"
proof
  fix k'
  have p: "holds t p k" using lookup_SomeD [OF at] by simp
  show "contents val (t[p := s]) k' = ((contents val t)(k := None)) k'"
  proof (cases "k' = k")
    case True
    then show ?thesis by (simp add: contents_def lookup_erase [OF assms])
  next
    case False
    then have "q \<noteq> p" if "lookup t k' = Some q" for q
      using lookup_other [OF that, of p] p by (auto simp: holds_def)
    with False show ?thesis
      by (cases "lookup t k'") (simp_all add: contents_def lookup_erase [OF assms])
  qed
qed

end

end
