(* ===== verification/RdmaStore.thy ===== *)
theory RdmaStore
  imports OpenAddressing StoreContract
begin

section \<open>The fixed-layout table exported by RDMA (\<open>kvstore::RdmaStore\<close>)\<close>

text \<open>
  Models \<open>include/kvstore/rdma_store.hpp\<close> and \<open>src/kvstore/rdma_store.cpp\<close>: the 1024-byte slot, the
  FNV-1a slot index on 32-bit words, and \<open>set\<close>, \<open>get\<close>, \<open>erase\<close> as the loops of the code over the
  probe counter \<open>i\<close>. C arrays are lists of fixed length; \<open>memset\<close>, \<open>memcpy\<close> and \<open>strncmp\<close> are
  written out. A \<open>string_view\<close> argument is the list of its bytes and its \<open>data()\<close> is followed by a
  NUL, which holds at every call of the program (all pass a \<open>std::string\<close>). Messages to \<open>cerr\<close>
  are not modelled; registration of the array is in \<open>RdmaContext\<close>.
\<close>

subsection \<open>Slots\<close>

definition RDMA_KEY_MAX :: nat where "RDMA_KEY_MAX = 112"

definition RDMA_VALUE_MAX :: nat where "RDMA_VALUE_MAX = 896"

definition RDMA_NUM_SLOTS :: nat where "RDMA_NUM_SLOTS = 4096"

lemmas rdma_sizes = RDMA_KEY_MAX_def RDMA_VALUE_MAX_def RDMA_NUM_SLOTS_def

record RdmaSlot =
  occupied :: u8
  slot_pad :: string
  access_count :: u64
  slot_key :: string
  slot_value :: string

record RdmaStore =
  slots :: "RdmaSlot list"

definition zero_slot :: RdmaSlot where
  "zero_slot = \<lparr>occupied = 0, slot_pad = replicate 7 NUL, access_count = 0,
                slot_key = replicate RDMA_KEY_MAX NUL, slot_value = replicate RDMA_VALUE_MAX NUL\<rparr>"

definition RdmaStore_init :: RdmaStore where
  "RdmaStore_init = \<lparr>slots = replicate RDMA_NUM_SLOTS zero_slot\<rparr>"

subsection \<open>C memory functions\<close>

definition memset :: "string \<Rightarrow> char \<Rightarrow> nat \<Rightarrow> string" where
  "memset dst c n = replicate n c @ drop n dst"

definition memcpy :: "string \<Rightarrow> string \<Rightarrow> nat \<Rightarrow> string" where
  "memcpy dst src n = take n src @ drop n dst"

text \<open>\<open>strncmp(a, b, n) == 0\<close>: equal up to the first NUL or \<open>n\<close> bytes. The last equation is for
  buffers that end before the comparison does; no call of the program reaches it.\<close>

fun strncmp_eq :: "nat \<Rightarrow> string \<Rightarrow> string \<Rightarrow> bool" where
  "strncmp_eq 0 a b = True"
| "strncmp_eq (Suc n) (x # a) (y # b) =
     (if x \<noteq> y then False else if x = NUL then True else strncmp_eq n a b)"
| "strncmp_eq (Suc n) a b = False"

text \<open>\<open>std::string(const char*)\<close>: the bytes before the first NUL.\<close>

definition c_str :: "string \<Rightarrow> string" where
  "c_str buf = takeWhile (\<lambda>c. c \<noteq> NUL) buf"

subsection \<open>The hash\<close>

fun fnv_loop :: "u32 \<Rightarrow> string \<Rightarrow> u32" where
  "fnv_loop hash [] = hash"
| "fnv_loop hash (c # key) = fnv_loop ((hash XOR of_char c) * 16777619) key"

definition slot_index :: "string \<Rightarrow> nat" where
  "slot_index key = unat (fnv_loop 2166136261 key) AND (RDMA_NUM_SLOTS - 1)"

subsection \<open>Operations\<close>

definition overwrite_value :: "RdmaSlot \<Rightarrow> string \<Rightarrow> RdmaSlot" where
  "overwrite_value slot value =
     slot\<lparr>slot_value := memcpy (memset (slot_value slot) NUL RDMA_VALUE_MAX) value (length value)\<rparr>"

definition fill_slot :: "RdmaSlot \<Rightarrow> string \<Rightarrow> string \<Rightarrow> RdmaSlot" where
  "fill_slot dst key value =
     dst\<lparr>occupied := 1, access_count := 0,
         slot_key := memcpy (memset (slot_key dst) NUL RDMA_KEY_MAX) key (length key),
         slot_value := memcpy (memset (slot_value dst) NUL RDMA_VALUE_MAX) value (length value)\<rparr>"

function set_loop :: "string \<Rightarrow> string \<Rightarrow> nat \<Rightarrow> nat \<Rightarrow> nat \<Rightarrow> RdmaStore \<Rightarrow> bool \<times> RdmaStore" where
  "set_loop key value idx i first_tombstone st =
     (if i < RDMA_NUM_SLOTS then
        let probe = (idx + i) AND (RDMA_NUM_SLOTS - 1);
            slot = slots st ! probe in
        if occupied slot = 1 \<and> strncmp_eq RDMA_KEY_MAX (slot_key slot) (key @ [NUL]) then
          (True, st\<lparr>slots := (slots st)[probe := overwrite_value slot value]\<rparr>)
        else
          let first_tombstone =
            (if occupied slot = 2 \<and> first_tombstone = RDMA_NUM_SLOTS then probe else first_tombstone) in
          if occupied slot = 0 then
            let target = (if first_tombstone \<noteq> RDMA_NUM_SLOTS then first_tombstone else probe) in
            (True, st\<lparr>slots := (slots st)[target := fill_slot (slots st ! target) key value]\<rparr>)
          else set_loop key value idx (i + 1) first_tombstone st
      else (False, st))"
  by pat_completeness auto
termination
  by (relation "measure (\<lambda>(key, value, idx, i, ft, st). RDMA_NUM_SLOTS - i)") auto

definition rdma_set :: "string \<Rightarrow> string \<Rightarrow> RdmaStore \<Rightarrow> bool \<times> RdmaStore" where
  "rdma_set key value st =
     (if length key \<ge> RDMA_KEY_MAX then (False, st)
      else if length value \<ge> RDMA_VALUE_MAX then (False, st)
      else set_loop key value (slot_index key) 0 RDMA_NUM_SLOTS st)"

function get_loop :: "string \<Rightarrow> nat \<Rightarrow> nat \<Rightarrow> RdmaStore \<Rightarrow> string option" where
  "get_loop key idx i st =
     (if i < RDMA_NUM_SLOTS then
        let probe = (idx + i) AND (RDMA_NUM_SLOTS - 1);
            slot = slots st ! probe in
        if occupied slot = 0 then None
        else if occupied slot = 2 then get_loop key idx (i + 1) st
        else if strncmp_eq RDMA_KEY_MAX (slot_key slot) (key @ [NUL]) then Some (c_str (slot_value slot))
        else get_loop key idx (i + 1) st
      else None)"
  by pat_completeness auto
termination
  by (relation "measure (\<lambda>(key, idx, i, st). RDMA_NUM_SLOTS - i)") auto

definition rdma_get :: "string \<Rightarrow> RdmaStore \<Rightarrow> string option" where
  "rdma_get key st = get_loop key (slot_index key) 0 st"

function erase_loop :: "string \<Rightarrow> nat \<Rightarrow> nat \<Rightarrow> RdmaStore \<Rightarrow> bool \<times> RdmaStore" where
  "erase_loop key idx i st =
     (if i < RDMA_NUM_SLOTS then
        let probe = (idx + i) AND (RDMA_NUM_SLOTS - 1);
            slot = slots st ! probe in
        if occupied slot = 0 then (False, st)
        else if occupied slot = 2 then erase_loop key idx (i + 1) st
        else if strncmp_eq RDMA_KEY_MAX (slot_key slot) (key @ [NUL]) then
          (True, st\<lparr>slots := (slots st)[probe := slot\<lparr>occupied := 2\<rparr>]\<rparr>)
        else erase_loop key idx (i + 1) st
      else (False, st))"
  by pat_completeness auto
termination
  by (relation "measure (\<lambda>(key, idx, i, st). RDMA_NUM_SLOTS - i)") auto

definition rdma_erase :: "string \<Rightarrow> RdmaStore \<Rightarrow> bool \<times> RdmaStore" where
  "rdma_erase key st = erase_loop key (slot_index key) 0 st"

declare set_loop.simps [simp del] get_loop.simps [simp del] erase_loop.simps [simp del]

subsection \<open>Memory lemmas\<close>

lemma memcpy_memset:
  "length dst = n \<Longrightarrow> length src \<le> n \<Longrightarrow>
     memcpy (memset dst NUL n) src (length src) = src @ replicate (n - length src) NUL"
  by (simp add: memcpy_def memset_def)

lemma strncmp_eq_iff:
  "NUL \<in> set a \<Longrightarrow> length a \<le> n \<Longrightarrow> strncmp_eq n a (k @ [NUL]) \<longleftrightarrow> c_str a = c_str k"
proof (induction n a "k @ [NUL]" arbitrary: k rule: strncmp_eq.induct)
  case (2 n x a y b)
  then show ?case by (cases k) (auto simp: c_str_def)
qed (auto simp: c_str_def)

lemma c_str_id [simp]: "NUL \<notin> set k \<Longrightarrow> c_str k = k"
  by (auto simp: c_str_def takeWhile_eq_all_conv)

lemma c_str_padded [simp]: "NUL \<notin> set k \<Longrightarrow> c_str (k @ replicate n NUL) = k"
  by (simp add: c_str_def)

lemma NUL_notin_c_str [simp]: "NUL \<notin> set (c_str k)"
  by (auto simp: c_str_def dest: set_takeWhileD)

lemma mask_index: "x AND (RDMA_NUM_SLOTS - 1) = x mod RDMA_NUM_SLOTS"
proof -
  have "x AND mask 12 = x mod 2 ^ 12" by (simp only: flip: take_bit_eq_mask take_bit_eq_mod)
  then show ?thesis by (simp add: RDMA_NUM_SLOTS_def mask_eq_exp_minus_1)
qed

lemma slot_index_less: "slot_index key < RDMA_NUM_SLOTS"
  unfolding slot_index_def mask_index by (simp add: RDMA_NUM_SLOTS_def)

subsection \<open>The table behind the array\<close>

definition slot_status_of :: "RdmaSlot \<Rightarrow> slot_status" where
  "slot_status_of s = (if occupied s = 0 then Empty else if occupied s = 2 then Tomb else Valid)"

definition slot_key_of :: "RdmaSlot \<Rightarrow> string" where
  "slot_key_of s = c_str (slot_key s)"

definition slot_value_of :: "RdmaSlot \<Rightarrow> string" where
  "slot_value_of s = c_str (slot_value s)"

definition slot_ok :: "RdmaSlot \<Rightarrow> bool" where
  "slot_ok s \<longleftrightarrow> occupied s \<in> {0, 1, 2} \<and> length (slot_pad s) = 7
     \<and> length (slot_key s) = RDMA_KEY_MAX \<and> NUL \<in> set (slot_key s)
     \<and> length (slot_value s) = RDMA_VALUE_MAX \<and> NUL \<in> set (slot_value s)"

interpretation tab: open_addressing RDMA_NUM_SLOTS slot_index slot_status_of slot_key_of
  by unfold_locales (simp add: RDMA_NUM_SLOTS_def)

definition store_inv :: "RdmaStore \<Rightarrow> bool" where
  "store_inv st \<longleftrightarrow> tab.table_inv (slots st) \<and> (\<forall>s\<in>set (slots st). slot_ok s)"

definition rdma_map :: "RdmaStore \<Rightarrow> string \<rightharpoonup> string" where
  "rdma_map st = tab.contents slot_value_of (slots st)"

definition key_ok :: "string \<Rightarrow> bool" where
  "key_ok k \<longleftrightarrow> NUL \<notin> set k"

lemma probe_index: "(slot_index key + i) AND (RDMA_NUM_SLOTS - 1) = tab.pos key i"
  by (simp only: mask_index tab.pos_def)

lemma store_inv_length: "store_inv st \<Longrightarrow> length (slots st) = RDMA_NUM_SLOTS"
  by (simp add: store_inv_def tab.table_inv_def)

lemma store_inv_slot: "store_inv st \<Longrightarrow> p < RDMA_NUM_SLOTS \<Longrightarrow> slot_ok (slots st ! p)"
  by (simp add: store_inv_def tab.table_inv_def)

lemma slot_cmp:
  "slot_ok s \<Longrightarrow> key_ok key \<Longrightarrow>
     strncmp_eq RDMA_KEY_MAX (slot_key s) (key @ [NUL]) \<longleftrightarrow> slot_key_of s = key"
  by (simp add: strncmp_eq_iff slot_ok_def key_ok_def slot_key_of_def)

lemma slot_status_cases:
  "slot_status_of s = Empty \<longleftrightarrow> occupied s = 0" "slot_status_of s = Tomb \<longleftrightarrow> occupied s = 2"
  "slot_ok s \<Longrightarrow> slot_status_of s = Valid \<longleftrightarrow> occupied s = 1"
  "slot_status_of s = Valid \<longleftrightarrow> occupied s \<noteq> 0 \<and> occupied s \<noteq> 2"
  by (auto simp: slot_status_of_def slot_ok_def)

lemma get_loop_lookup:
  assumes "store_inv st" and "key_ok key"
  shows "get_loop key (slot_index key) i st
       = map_option (\<lambda>p. slot_value_of (slots st ! p)) (tab.lookup_from (slots st) key i)"
proof (induction "RDMA_NUM_SLOTS - i" arbitrary: i)
  case 0
  then show ?case by (subst get_loop.simps) simp
next
  case (Suc n)
  then have i: "i < RDMA_NUM_SLOTS" and ih: "get_loop key (slot_index key) (i + 1) st
       = map_option (\<lambda>p. slot_value_of (slots st ! p)) (tab.lookup_from (slots st) key (Suc i))"
    by simp_all
  have cmp: "strncmp_eq RDMA_KEY_MAX (slot_key (slots st ! tab.pos key i)) (key @ [NUL])
       \<longleftrightarrow> slot_key_of (slots st ! tab.pos key i) = key"
    by (rule slot_cmp) (simp_all add: store_inv_slot assms)
  show ?case
    by (subst get_loop.simps, simp only: probe_index Let_def ih)
      (simp add: i cmp tab.lookup_from_step tab.holds_def slot_status_of_def slot_value_of_def)
qed

lemma erase_loop_lookup:
  assumes "store_inv st" and "key_ok key"
  shows "erase_loop key (slot_index key) i st
       = (case tab.lookup_from (slots st) key i of None \<Rightarrow> (False, st)
          | Some p \<Rightarrow> (True, st\<lparr>slots := (slots st)[p := (slots st ! p)\<lparr>occupied := 2\<rparr>]\<rparr>))"
proof (induction "RDMA_NUM_SLOTS - i" arbitrary: i)
  case 0
  then show ?case by (subst erase_loop.simps) simp
next
  case (Suc n)
  then have i: "i < RDMA_NUM_SLOTS" and ih: "erase_loop key (slot_index key) (i + 1) st
       = (case tab.lookup_from (slots st) key (Suc i) of None \<Rightarrow> (False, st)
          | Some p \<Rightarrow> (True, st\<lparr>slots := (slots st)[p := (slots st ! p)\<lparr>occupied := 2\<rparr>]\<rparr>))"
    by simp_all
  have cmp: "strncmp_eq RDMA_KEY_MAX (slot_key (slots st ! tab.pos key i)) (key @ [NUL])
       \<longleftrightarrow> slot_key_of (slots st ! tab.pos key i) = key"
    by (rule slot_cmp) (simp_all add: store_inv_slot assms)
  show ?case
    by (subst erase_loop.simps, simp only: probe_index Let_def ih)
      (simp add: i cmp tab.lookup_from_step tab.holds_def slot_status_of_def)
qed

text \<open>The first tombstone as the loop keeps it: its index, or \<open>RDMA_NUM_SLOTS\<close> for none.\<close>

definition tomb_var :: "nat option \<Rightarrow> nat" where
  "tomb_var tp = (case tp of None \<Rightarrow> RDMA_NUM_SLOTS | Some p \<Rightarrow> p)"

definition place_result :: "string \<Rightarrow> string \<Rightarrow> RdmaStore \<Rightarrow> place \<Rightarrow> bool \<times> RdmaStore" where
  "place_result key value st pl =
     (case pl of
        Overwrite p \<Rightarrow> (True, st\<lparr>slots := (slots st)[p := overwrite_value (slots st ! p) value]\<rparr>)
      | Insert p \<Rightarrow> (True, st\<lparr>slots := (slots st)[p := fill_slot (slots st ! p) key value]\<rparr>)
      | NoEmpty tp \<Rightarrow> (False, st))"

lemma tomb_upto_less: "tab.tomb_upto t k i = Some p \<Longrightarrow> p < RDMA_NUM_SLOTS"
  by (metis tab.tomb_upto_SomeE tab.pos_less)

lemma set_loop_place:
  assumes "store_inv st" and "key_ok key"
  shows "set_loop key value (slot_index key) i (tomb_var (tab.tomb_upto (slots st) key i)) st
       = place_result key value st (tab.place_from (slots st) key i)"
proof (induction "RDMA_NUM_SLOTS - i" arbitrary: i)
  case 0
  then show ?case by (subst set_loop.simps) (simp add: tab.place_from_end place_result_def)
next
  case (Suc n)
  let ?s = "slots st ! tab.pos key i" and ?tp = "tab.tomb_upto (slots st) key i"
  from Suc have i: "i < RDMA_NUM_SLOTS" by simp
  have ih: "set_loop key value (slot_index key) (i + 1) (tomb_var (tab.tomb_upto (slots st) key (Suc i))) st
       = place_result key value st (tab.place_from (slots st) key (Suc i))"
    using Suc.hyps(1) [of "Suc i"] Suc.hyps(2) by (simp del: tab.tomb_upto_Suc)
  have ok: "slot_ok ?s" by (simp add: store_inv_slot assms)
  have cmp: "strncmp_eq RDMA_KEY_MAX (slot_key ?s) (key @ [NUL]) \<longleftrightarrow> slot_key_of ?s = key"
    by (rule slot_cmp [OF ok assms(2)])
  have hit: "occupied ?s = 1 \<and> slot_key_of ?s = key \<longleftrightarrow> tab.holds (slots st) (tab.pos key i) key"
    by (simp add: tab.holds_def slot_status_cases(3) [OF ok])
  have none: "tomb_var ?tp = RDMA_NUM_SLOTS \<longleftrightarrow> ?tp = None"
    using tomb_upto_less [of "slots st" key i] by (cases ?tp) (auto simp: tomb_var_def)
  have tv: "(if occupied ?s = 2 \<and> tomb_var ?tp = RDMA_NUM_SLOTS then tab.pos key i else tomb_var ?tp)
       = tomb_var (tab.tomb_upto (slots st) key (Suc i))"
    using none by (cases ?tp) (simp_all add: tomb_var_def slot_status_cases)
  have target: "(if tomb_var (tab.tomb_upto (slots st) key (Suc i)) \<noteq> RDMA_NUM_SLOTS
                 then tomb_var (tab.tomb_upto (slots st) key (Suc i)) else tab.pos key i)
       = (case ?tp of None \<Rightarrow> tab.pos key i | Some p \<Rightarrow> p)" if "occupied ?s = 0"
    using that tomb_upto_less [of "slots st" key i]
    by (cases ?tp) (auto simp: tomb_var_def slot_status_cases)
  show ?case
    by (subst set_loop.simps, simp only: probe_index Let_def cmp hit tv ih tab.place_from_step [OF i])
      (use target in \<open>auto simp: i slot_status_cases place_result_def simp del: tab.tomb_upto_Suc\<close>)
qed

subsection \<open>Operations as table changes\<close>

lemma rdma_get_map: "store_inv st \<Longrightarrow> key_ok key \<Longrightarrow> rdma_get key st = rdma_map st key"
  by (simp add: rdma_get_def get_loop_lookup rdma_map_def tab.contents_def tab.lookup_def)

lemma rdma_erase_lookup:
  "store_inv st \<Longrightarrow> key_ok key \<Longrightarrow> rdma_erase key st
     = (case tab.lookup (slots st) key of None \<Rightarrow> (False, st)
        | Some p \<Rightarrow> (True, st\<lparr>slots := (slots st)[p := (slots st ! p)\<lparr>occupied := 2\<rparr>]\<rparr>))"
  by (simp add: rdma_erase_def erase_loop_lookup tab.lookup_def)

definition fits :: "string \<Rightarrow> string \<Rightarrow> bool" where
  "fits key value \<longleftrightarrow> length key < RDMA_KEY_MAX \<and> length value < RDMA_VALUE_MAX"

lemma rdma_set_place:
  "store_inv st \<Longrightarrow> key_ok key \<Longrightarrow> rdma_set key value st
     = (if fits key value then place_result key value st (tab.place_of (slots st) key) else (False, st))"
  using set_loop_place [of st key "value" 0]
  by (auto simp: rdma_set_def fits_def tab.place_of_def tomb_var_def)

lemma overwrite_value_facts:
  assumes "slot_ok s" and "fits key value" and "key_ok value" and "slot_status_of s = Valid"
  shows "slot_ok (overwrite_value s value)" "slot_status_of (overwrite_value s value) = Valid"
    "slot_key_of (overwrite_value s value) = slot_key_of s"
    "slot_value_of (overwrite_value s value) = value"
proof -
  have "memcpy (memset (slot_value s) NUL RDMA_VALUE_MAX) value (length value)
      = value @ replicate (RDMA_VALUE_MAX - length value) NUL"
    using assms by (simp add: memcpy_memset slot_ok_def fits_def)
  with assms show "slot_ok (overwrite_value s value)" "slot_status_of (overwrite_value s value) = Valid"
    "slot_key_of (overwrite_value s value) = slot_key_of s"
    "slot_value_of (overwrite_value s value) = value"
    by (auto simp: overwrite_value_def slot_ok_def fits_def slot_status_of_def slot_key_of_def
        slot_value_of_def key_ok_def)
qed

lemma fill_slot_facts:
  assumes "slot_ok s" and "fits key value" and "key_ok key" and "key_ok value"
  shows "slot_ok (fill_slot s key value)" "slot_status_of (fill_slot s key value) = Valid"
    "slot_key_of (fill_slot s key value) = key" "slot_value_of (fill_slot s key value) = value"
proof -
  have "memcpy (memset (slot_value s) NUL RDMA_VALUE_MAX) value (length value)
      = value @ replicate (RDMA_VALUE_MAX - length value) NUL"
    "memcpy (memset (slot_key s) NUL RDMA_KEY_MAX) key (length key)
      = key @ replicate (RDMA_KEY_MAX - length key) NUL"
    using assms by (simp_all add: memcpy_memset slot_ok_def fits_def)
  with assms show "slot_ok (fill_slot s key value)" "slot_status_of (fill_slot s key value) = Valid"
    "slot_key_of (fill_slot s key value) = key" "slot_value_of (fill_slot s key value) = value"
    by (auto simp: fill_slot_def slot_ok_def fits_def slot_status_of_def slot_key_of_def
        slot_value_of_def key_ok_def)
qed

lemma tomb_slot_facts:
  "slot_ok s \<Longrightarrow> slot_ok (s\<lparr>occupied := 2\<rparr>)" "slot_status_of (s\<lparr>occupied := 2\<rparr>) = Tomb"
  by (simp_all add: slot_ok_def slot_status_of_def)

lemma store_inv_update:
  "store_inv st \<Longrightarrow> slot_ok s \<Longrightarrow> tab.table_inv ((slots st)[p := s]) \<Longrightarrow>
     store_inv (st\<lparr>slots := (slots st)[p := s]\<rparr>)"
  using set_update_subset_insert [of "slots st" p s] by (auto simp: store_inv_def)

lemma place_result_refines:
  assumes st: "store_inv st" and ok: "key_ok key" "key_ok value" and fit: "fits key value"
    and pl: "tab.place_of (slots st) key = pl"
  shows "store_inv (snd (place_result key value st pl))
       \<and> (fst (place_result key value st pl) \<longrightarrow>
            rdma_map (snd (place_result key value st pl)) = (rdma_map st)(key \<mapsto> value))
       \<and> (\<not> fst (place_result key value st pl) \<longrightarrow> snd (place_result key value st pl) = st)"
proof (cases pl)
  case (Overwrite p)
  then have at: "tab.lookup (slots st) key = Some p" using pl by (simp add: tab.place_Overwrite)
  then have p: "p < RDMA_NUM_SLOTS" "slot_status_of (slots st ! p) = Valid"
      "slot_key_of (slots st ! p) = key"
    using tab.lookup_SomeD [OF at] by (simp_all add: tab.holds_def)
  note new = overwrite_value_facts [OF store_inv_slot [OF st p(1)] fit ok(2) p(2)]
  have inv: "tab.table_inv (slots st)" using st by (simp add: store_inv_def)
  show ?thesis
    using new(3) p(3) Overwrite
      store_inv_update [OF st new(1) tab.overwrite_inv [OF inv at new(2)]]
      tab.contents_overwrite [OF inv at new(2), of slot_value_of]
    by (simp add: place_result_def rdma_map_def new(4))
next
  case (Insert p)
  then obtain m where m: "m < RDMA_NUM_SLOTS" "p = tab.pos key m" "tab.chain (slots st) key m"
      "slot_status_of (slots st ! p) \<noteq> Valid" and none: "tab.lookup (slots st) key = None"
    using pl tab.place_Insert by blast
  have inv: "tab.table_inv (slots st)" using st by (simp add: store_inv_def)
  have "p < RDMA_NUM_SLOTS" using m by simp
  note new = fill_slot_facts [OF store_inv_slot [OF st this] fit ok]
  show ?thesis
    using Insert store_inv_update [OF st new(1) tab.insert_inv [OF inv none m new(2,3)]]
      tab.contents_insert [OF inv none m new(2,3), of slot_value_of]
    by (simp add: place_result_def rdma_map_def new(4))
next
  case (NoEmpty tp)
  then show ?thesis using st by (simp add: place_result_def)
qed

lemma rdma_set_refines:
  assumes "store_inv st" and "key_ok key" and "key_ok value"
  shows "store_inv (snd (rdma_set key value st))"
    "fst (rdma_set key value st) \<Longrightarrow> rdma_map (snd (rdma_set key value st)) = (rdma_map st)(key \<mapsto> value)"
  using place_result_refines [OF assms _ refl] assms(1)
  by (simp_all add: rdma_set_place [OF assms(1,2)] split: if_splits)

lemma rdma_set_refused:
  "store_inv st \<Longrightarrow> key_ok key \<Longrightarrow> \<not> fst (rdma_set key value st) \<Longrightarrow> snd (rdma_set key value st) = st"
  by (auto simp: rdma_set_place place_result_def split: if_splits place.splits)

lemma rdma_erase_refines:
  assumes "store_inv st" and "key_ok key"
  shows "store_inv (snd (rdma_erase key st))
    \<and> fst (rdma_erase key st) = (rdma_map st key \<noteq> None)
    \<and> rdma_map (snd (rdma_erase key st)) = (rdma_map st)(key := None)"
proof (cases "tab.lookup (slots st) key")
  case None
  then have "rdma_map st key = None" by (simp add: rdma_map_def tab.contents_def)
  with None assms show ?thesis by (auto simp: rdma_erase_lookup)
next
  case (Some p)
  have inv: "tab.table_inv (slots st)" using assms(1) by (simp add: store_inv_def)
  have p: "p < RDMA_NUM_SLOTS" using tab.lookup_SomeD [OF Some] by simp
  note ok = tomb_slot_facts(1) [OF store_inv_slot [OF assms(1) p]]
  note tomb = tomb_slot_facts(2) [of "slots st ! p"]
  show ?thesis
    using Some assms store_inv_update [OF assms(1) ok tab.erase_inv [OF inv p tomb]]
      tab.contents_erase [OF inv Some tomb, of slot_value_of]
    by (simp add: rdma_erase_lookup rdma_map_def tab.contents_def [of slot_value_of "slots st" key])
qed

interpretation rds: map_store rdma_map store_inv key_ok key_ok rdma_set rdma_get rdma_erase
  by unfold_locales
    (simp_all add: rdma_get_map rdma_set_refines rdma_set_refused rdma_erase_refines)

lemma store_inv_init: "store_inv RdmaStore_init"
proof -
  have "slot_ok zero_slot" by (simp add: slot_ok_def zero_slot_def rdma_sizes)
  moreover have "slot_status_of zero_slot = Empty" by (simp add: slot_status_of_def zero_slot_def)
  ultimately show ?thesis
    by (simp add: store_inv_def RdmaStore_init_def tab.table_inv_def tab.holds_def)
qed

lemma rdma_map_init: "rdma_map RdmaStore_init = Map.empty"
proof
  fix k
  have "slot_status_of zero_slot = Empty" by (simp add: slot_status_of_def zero_slot_def)
  then have "tab.lookup (slots RdmaStore_init) k = None"
    using store_inv_init
    by (simp add: store_inv_def tab.lookup_None_iff tab.holds_def) (simp add: RdmaStore_init_def)
  then show "rdma_map RdmaStore_init k = None" by (simp add: rdma_map_def tab.contents_def)
qed

subsection \<open>Capacity\<close>

text \<open>Slots that are not empty. They are never emptied again, and a \<open>set\<close> uses up at most one.\<close>

definition used :: "RdmaStore \<Rightarrow> nat" where
  "used st = length (filter (\<lambda>s. occupied s \<noteq> 0) (slots st))"

lemma filter_update_le: "length (filter P (xs[p := s])) \<le> Suc (length (filter P xs))"
proof (induction xs arbitrary: p)
  case (Cons x xs)
  then show ?case by (cases p) (auto simp: le_SucI)
qed simp

lemma filter_update_hit:
  "p < length xs \<Longrightarrow> P (xs ! p) \<Longrightarrow> length (filter P (xs[p := s])) \<le> length (filter P xs)"
proof (induction xs arbitrary: p)
  case (Cons x xs)
  then show ?case by (cases p) auto
qed simp

lemma rdma_set_used:
  "store_inv st \<Longrightarrow> key_ok key \<Longrightarrow> used (snd (rdma_set key value st)) \<le> Suc (used st)"
  by (auto simp: rdma_set_place place_result_def used_def filter_update_le split: place.split)

lemma rdma_erase_used:
  assumes "store_inv st" and "key_ok key"
  shows "used (snd (rdma_erase key st)) \<le> used st"
proof (cases "tab.lookup (slots st) key")
  case (Some p)
  then have "p < length (slots st)" "occupied (slots st ! p) \<noteq> 0"
    using tab.lookup_SomeD [OF Some] store_inv_length [OF assms(1)]
    by (simp_all add: tab.holds_def slot_status_cases)
  with Some show ?thesis
    by (simp add: rdma_erase_lookup assms used_def filter_update_hit)
qed (simp add: rdma_erase_lookup assms)

lemma full_iff_used:
  assumes "store_inv st"
  shows "used st < RDMA_NUM_SLOTS \<longleftrightarrow> (\<exists>p<RDMA_NUM_SLOTS. occupied (slots st ! p) = 0)"
proof -
  have len: "length (slots st) = RDMA_NUM_SLOTS" by (rule store_inv_length [OF assms])
  have "used st < length (slots st) \<longleftrightarrow> (\<exists>s\<in>set (slots st). occupied s = 0)"
    unfolding used_def
    by (metis (mono_tags, lifting) filter_id_conv length_filter_less less_irrefl)
  with len show ?thesis by (metis in_set_conv_nth)
qed

lemma rdma_set_accepts:
  assumes "store_inv st" and "key_ok key"
  shows "fst (rdma_set key value st) \<longleftrightarrow>
    fits key value \<and> (rdma_map st key \<noteq> None \<or> used st < RDMA_NUM_SLOTS)"
proof (cases "tab.place_of (slots st) key")
  case (Overwrite p)
  then have "tab.lookup (slots st) key = Some p" by (simp add: tab.place_Overwrite)
  with Overwrite show ?thesis
    by (simp add: rdma_set_place assms place_result_def rdma_map_def tab.contents_def)
next
  case (Insert p)
  have "used st < RDMA_NUM_SLOTS"
  proof (rule ccontr)
    assume "\<not> ?thesis"
    then have "tab.search_from (slots st) key 0 \<noteq> None \<and> (\<forall>q<RDMA_NUM_SLOTS. slot_status_of (slots st ! q) \<noteq> Empty)"
      using Insert full_iff_used [OF assms(1)]
      by (auto simp: tab.place_of_def tab.place_from_def slot_status_cases split: option.splits)
    with Insert show False
      by (auto simp: tab.place_of_def tab.place_from_def split: option.splits if_splits)
  qed
  with Insert show ?thesis by (simp add: rdma_set_place assms place_result_def)
next
  case (NoEmpty tp)
  then have "\<not> used st < RDMA_NUM_SLOTS"
    using tab.place_NoEmpty_full [OF NoEmpty] by (simp add: full_iff_used assms slot_status_cases)
  moreover have "rdma_map st key = None"
    using tab.place_NoEmpty [OF NoEmpty] by (simp add: rdma_map_def tab.contents_def)
  ultimately show ?thesis using NoEmpty by (simp add: rdma_set_place assms place_result_def)
qed

text \<open>Erasing keeps the number of used slots exactly.\<close>

lemma rdma_erase_full:
  assumes "store_inv st" and "key_ok key" and "\<not> used st < RDMA_NUM_SLOTS"
  shows "\<not> used (snd (rdma_erase key st)) < RDMA_NUM_SLOTS"
proof (cases "tab.lookup (slots st) key")
  case (Some p)
  have inv': "store_inv (snd (rdma_erase key st))" using rdma_erase_refines assms(1,2) by blast
  have "occupied (slots (snd (rdma_erase key st)) ! q) \<noteq> 0" if "q < RDMA_NUM_SLOTS" for q
    using assms that store_inv_length [OF assms(1)] Some
    by (cases "q = p") (auto simp: rdma_erase_lookup full_iff_used)
  then show ?thesis by (auto simp: full_iff_used [OF inv'])
qed (use assms in \<open>simp add: rdma_erase_lookup\<close>)

fun count_puts :: "store_op list \<Rightarrow> nat" where
  "count_puts [] = 0"
| "count_puts (PutOp k v # xs) = Suc (count_puts xs)"
| "count_puts (GetOp k # xs) = count_puts xs"
| "count_puts (DelOp k # xs) = count_puts xs"

fun op_fits :: "store_op \<Rightarrow> bool" where
  "op_fits (PutOp k v) = (key_ok k \<and> key_ok v \<and> fits k v)"
| "op_fits (GetOp k) = key_ok k"
| "op_fits (DelOp k) = key_ok k"

lemma op_fits_ok: "op_fits x \<Longrightarrow> rds.ok_op x"
  by (cases x) (simp_all add: rds.ok_op_def)

text \<open>As long as there is room for all of them, no \<open>set\<close> of a run is refused.\<close>

lemma rds_run_accepts:
  assumes "store_inv st" and "\<forall>x\<in>set xs. op_fits x" and "used st + count_puts xs \<le> RDMA_NUM_SLOTS"
  shows "Stored False \<notin> set (fst (rds.run xs st))"
  using assms
proof (induction xs arbitrary: st)
  case (Cons x xs)
  obtain r st1 where st1: "rds.step x st = (r, st1)" by (cases "rds.step x st")
  have "rds.ok_op x" using Cons.prems(2) op_fits_ok by simp
  with st1 rds.step_inv [OF Cons.prems(1)] have inv1: "store_inv st1" by fastforce
  have "r \<noteq> Stored False \<and> used st1 + count_puts xs \<le> RDMA_NUM_SLOTS"
  proof (cases x)
    case (PutOp k v)
    then show ?thesis
      using st1 Cons.prems rdma_set_used [of st k v] rdma_set_accepts [of st k v]
      by (auto split: prod.splits)
  next
    case (DelOp k)
    then show ?thesis
      using st1 Cons.prems rdma_erase_used [of st k] by (auto split: prod.splits)
  qed (use st1 Cons.prems in auto)
  then show ?case
    using Cons.IH [OF inv1] Cons.prems(2) by (auto simp: st1 split: prod.splits)
qed simp

lemma used_init [simp]: "used RdmaStore_init = 0"
  by (simp add: used_def RdmaStore_init_def zero_slot_def)

subsection \<open>Properties of the table\<close>

text \<open>
  C1: The slot array implements a partial map. From any well-formed table and for keys and values
  without NUL, \<open>get\<close> reads the map; \<open>set\<close> updates it or, when it returns false, changes nothing;
  \<open>erase\<close> removes the key and reports whether it was there; and \<open>set\<close> and \<open>erase\<close> keep the table
  well-formed (no key twice, no empty slot inside a probe chain, every buffer NUL-terminated).
\<close>
theorem rdma_store_refines_map:
  assumes "store_inv st" and "key_ok k" and "key_ok v"
  shows "rdma_get k st = rdma_map st k
       \<and> store_inv (snd (rdma_set k v st))
       \<and> (if fst (rdma_set k v st) then rdma_map (snd (rdma_set k v st)) = (rdma_map st)(k \<mapsto> v)
          else snd (rdma_set k v st) = st)
       \<and> store_inv (snd (rdma_erase k st))
       \<and> fst (rdma_erase k st) = (rdma_map st k \<noteq> None)
       \<and> rdma_map (snd (rdma_erase k st)) = (rdma_map st)(k := None)"
  using assms rdma_set_refines [OF assms] rdma_set_refused [OF assms(1,2)]
    rdma_erase_refines [OF assms(1,2)]
  by (simp add: rdma_get_map)

lemma key_ok_ab: "key_ok ''a''" "key_ok ''1''"
  by (simp_all add: key_ok_def)

theorem rdma_store_refines_map_witness:
  "rdma_get ''a'' RdmaStore_init = None
   \<and> store_inv (snd (rdma_set ''a'' ''1'' RdmaStore_init)) \<and> \<not> fst (rdma_erase ''a'' RdmaStore_init)"
  using rdma_store_refines_map [OF store_inv_init key_ok_ab] by (simp add: rdma_map_init)

text \<open>
  Exactly when \<open>set\<close> succeeds: the key and value leave room for their terminators, and the key
  is already stored or some slot is empty. A tombstone alone is not enough.
\<close>
theorem rdma_set_succeeds_iff:
  assumes "store_inv st" and "key_ok k"
  shows "fst (rdma_set k v st) \<longleftrightarrow>
           length k < RDMA_KEY_MAX \<and> length v < RDMA_VALUE_MAX
           \<and> (rdma_get k st \<noteq> None \<or> (\<exists>p<RDMA_NUM_SLOTS. occupied (slots st ! p) = 0))"
  by (simp add: rdma_set_accepts assms fits_def full_iff_used rdma_get_map)

theorem rdma_set_succeeds_iff_witness:
  "fst (rdma_set ''a'' ''1'' RdmaStore_init) \<and> \<not> fst (rdma_set ''a'' (replicate 896 CHR ''x'') RdmaStore_init)"
proof -
  have "occupied (slots RdmaStore_init ! 0) = 0"
    by (simp add: RdmaStore_init_def zero_slot_def RDMA_NUM_SLOTS_def)
  moreover have "(0 :: nat) < RDMA_NUM_SLOTS" by (simp add: RDMA_NUM_SLOTS_def)
  ultimately show ?thesis
    using rdma_set_succeeds_iff [OF store_inv_init key_ok_ab(1)]
    by (auto simp: RDMA_KEY_MAX_def RDMA_VALUE_MAX_def)
qed

text \<open>
  C33: Once no slot is empty, deleting never makes room: right after a successful or unsuccessful
  \<open>erase k\<close> the table still refuses to \<open>set\<close> that same key, although its slot is now a reusable
  tombstone. (The client's one-sided write reuses the tombstone in this situation.)
\<close>
theorem rdma_full_table_never_recovers:
  assumes "store_inv st" and "key_ok k" and "\<forall>p<RDMA_NUM_SLOTS. occupied (slots st ! p) \<noteq> 0"
  shows "\<not> fst (rdma_set k v (snd (rdma_erase k st)))"
proof -
  have st: "store_inv (snd (rdma_erase k st))" "rdma_map (snd (rdma_erase k st)) k = None"
    using rdma_erase_refines [OF assms(1,2)] by simp_all
  have "\<not> used (snd (rdma_erase k st)) < RDMA_NUM_SLOTS"
    using assms by (intro rdma_erase_full) (simp_all add: full_iff_used)
  with st show ?thesis by (simp add: rdma_set_accepts assms(2))
qed

text \<open>A full table: every slot a tombstone, except that \<open>a\<close> is stored at its home position.\<close>

definition tomb_slot :: RdmaSlot where
  "tomb_slot = zero_slot\<lparr>occupied := 2\<rparr>"

definition full_store :: RdmaStore where
  "full_store = \<lparr>slots = (replicate RDMA_NUM_SLOTS tomb_slot)[slot_index ''a'' := fill_slot tomb_slot ''a'' ''1'']\<rparr>"

lemma full_store_inv: "store_inv full_store"
proof -
  let ?t = "replicate RDMA_NUM_SLOTS tomb_slot"
  have ok: "slot_ok tomb_slot" by (simp add: tomb_slot_def slot_ok_def zero_slot_def rdma_sizes)
  have tomb: "slot_status_of tomb_slot = Tomb" by (simp add: tomb_slot_def slot_status_of_def)
  have inv: "tab.table_inv ?t" by (simp add: tab.table_inv_def tab.holds_def tomb)
  have none: "tab.lookup ?t ''a'' = None"
    by (simp add: tab.lookup_None_iff [OF inv] tab.holds_def tomb)
  have fit: "fits ''a'' ''1''" by (simp add: fits_def rdma_sizes)
  note new = fill_slot_facts [OF ok fit key_ok_ab]
  have "slot_index ''a'' = tab.pos ''a'' 0" using slot_index_less by (simp add: tab.pos_def)
  then have "tab.table_inv (?t[slot_index ''a'' := fill_slot tomb_slot ''a'' ''1''])"
    by (intro tab.insert_inv [OF inv none, of 0] new)
      (simp_all add: tab.chain_def tomb tab.N_pos slot_index_less)
  moreover have "store_inv \<lparr>slots = ?t\<rparr>" using inv ok by (simp add: store_inv_def)
  ultimately show ?thesis
    using store_inv_update [of "\<lparr>slots = ?t\<rparr>"] new(1) by (simp add: full_store_def)
qed

lemma full_store_occupied: "p < RDMA_NUM_SLOTS \<Longrightarrow> occupied (slots full_store ! p) \<noteq> 0"
  by (cases "p = slot_index ''a''") (auto simp: full_store_def tomb_slot_def fill_slot_def)

theorem rdma_full_table_never_recovers_witness:
  "\<not> fst (rdma_set ''a'' ''1'' (snd (rdma_erase ''a'' full_store)))"
  by (rule rdma_full_table_never_recovers [OF full_store_inv key_ok_ab(1)])
    (simp add: full_store_occupied)

text \<open>
  The probe sequence of any key stays inside the array and visits every slot exactly once: the
  masked index is the remainder by the number of slots, and the map from probe counters to slots
  is a bijection.
\<close>
theorem rdma_probe_bijection:
  "bij_betw (\<lambda>i. (slot_index k + i) AND (RDMA_NUM_SLOTS - 1)) {..<RDMA_NUM_SLOTS} {..<RDMA_NUM_SLOTS}"
proof -
  have "inj_on (tab.pos k) {..<RDMA_NUM_SLOTS}" by (auto simp: inj_on_def intro: tab.pos_inj)
  moreover from this have "tab.pos k ` {..<RDMA_NUM_SLOTS} = {..<RDMA_NUM_SLOTS}"
    by (intro endo_inj_surj) auto
  ultimately show ?thesis by (simp only: bij_betw_def probe_index simp_thms)
qed

end
