(* ===== verification/Memory.thy ===== *)
theory Memory
  imports RdmaStore
begin

section \<open>Byte-addressed memory and the layout of a slot\<close>

text \<open>
  The memory an RDMA operation reads and writes: a map from 64-bit addresses to bytes, on both the
  server (the exported array \<open>slots_\<close> of \<open>include/kvstore/rdma_store.hpp\<close>) and the client. A
  \<open>RdmaSlot\<close> is its 1024 bytes in the layout the header's table and \<open>static_assert\<close>s fix:
  \<open>occupied\<close> at 0, padding at 1, \<open>access_count\<close> at 8 (little endian), \<open>key\<close> at 16, \<open>value\<close> at 128.
  The lemmas say that storing a slot and loading it again gives it back, that every 1024-byte string
  is a slot, and that a store to one element of the array changes that element alone.
\<close>

type_synonym mem = "u64 \<Rightarrow> char"

definition load :: "mem \<Rightarrow> u64 \<Rightarrow> nat \<Rightarrow> string" where
  "load m a n = map (\<lambda>i. m (a + of_nat i)) [0..<n]"

definition store :: "mem \<Rightarrow> u64 \<Rightarrow> string \<Rightarrow> mem" where
  "store m a bs = (\<lambda>x. let d = unat (x - a) in if d < length bs then bs ! d else m x)"

lemma length_load [simp]: "length (load m a n) = n"
  by (simp add: load_def)

lemma load_0 [simp]: "load m a 0 = []"
  by (simp add: load_def)

lemma load_nth [simp]: "i < n \<Longrightarrow> load m a n ! i = m (a + of_nat i)"
  by (simp add: load_def)

lemma load_append: "load m a (n + k) = load m a n @ load m (a + of_nat n) k"
  by (rule nth_equalityI) (auto simp: nth_append ac_simps)

lemma store_Nil [simp]: "store m a [] = m"
  by (simp add: store_def)

lemma unat_of_nat64: "n < 2 ^ 64 \<Longrightarrow> unat (of_nat n :: u64) = n"
  by (simp add: unat_of_nat)

lemma unat_less64: "unat (w :: u64) < 2 ^ 64"
  using unsigned_less [of w] by simp

lemma store_hit: "i < length bs \<Longrightarrow> length bs \<le> 2 ^ 64 \<Longrightarrow> store m a bs (a + of_nat i) = bs ! i"
  by (simp add: store_def unat_of_nat64)

lemma load_store_same: "length bs \<le> 2 ^ 64 \<Longrightarrow> n = length bs \<Longrightarrow> load (store m a bs) a n = bs"
  by (rule nth_equalityI) (simp_all add: store_hit)

text \<open>An access misses a store when none of its bytes is one of the stored ones.\<close>

definition misses :: "u64 \<Rightarrow> nat \<Rightarrow> u64 \<Rightarrow> nat \<Rightarrow> bool" where
  "misses b n a k \<longleftrightarrow> (\<forall>i<n. k \<le> unat (b + of_nat i - a))"

lemma load_store_other: "misses b n a (length bs) \<Longrightarrow> load (store m a bs) b n = load m b n"
  by (rule nth_equalityI) (auto simp: misses_def store_def Let_def not_less [symmetric])

subsection \<open>Integers as bytes\<close>

fun nat_bytes :: "nat \<Rightarrow> nat \<Rightarrow> string" where
  "nat_bytes 0 n = []"
| "nat_bytes (Suc k) n = char_of (n mod 256) # nat_bytes k (n div 256)"

fun bytes_nat :: "string \<Rightarrow> nat" where
  "bytes_nat [] = 0"
| "bytes_nat (c # cs) = of_char c + 256 * bytes_nat cs"

definition u64_bytes :: "u64 \<Rightarrow> string" where
  "u64_bytes w = nat_bytes 8 (unat w)"

definition bytes_u64 :: "string \<Rightarrow> u64" where
  "bytes_u64 bs = of_nat (bytes_nat bs)"

lemma length_nat_bytes [simp]: "length (nat_bytes k n) = k"
  by (induction k arbitrary: n) auto

lemma bytes_nat_bytes: "bytes_nat (nat_bytes k n) = n mod 256 ^ k"
proof (induction k arbitrary: n)
  case (Suc k)
  then show ?case by (simp add: mod_mult2_eq)
qed simp

lemma bytes_nat_less: "bytes_nat bs < 256 ^ length bs"
proof (induction bs)
  case (Cons c cs)
  have "(of_char c :: nat) < 256" by (metis of_char_mod_256 mod_less_divisor zero_less_numeral)
  moreover have "256 * bytes_nat cs + 256 \<le> 256 * 256 ^ length cs" using Cons by simp
  ultimately show ?case by (simp only: bytes_nat.simps length_Cons power_Suc)
qed simp

lemma nat_bytes_nat: "length bs = k \<Longrightarrow> nat_bytes k (bytes_nat bs) = bs"
proof (induction bs arbitrary: k)
  case (Cons c cs)
  then show ?case by (cases k) auto
qed simp

lemma length_u64_bytes [simp]: "length (u64_bytes w) = 8"
  by (simp add: u64_bytes_def)

lemma bytes_u64_bytes [simp]: "bytes_u64 (u64_bytes w) = w"
proof -
  have "unat w < 2 ^ 64" using unat_less64 by simp
  then have "unat w < 256 ^ 8" by simp
  then show ?thesis by (simp add: bytes_u64_def u64_bytes_def bytes_nat_bytes)
qed

subsection \<open>A slot as its bytes\<close>

definition slot_size :: nat where "slot_size = 1024"

definition access_count_offset :: nat where "access_count_offset = 8"

definition encode_slot :: "RdmaSlot \<Rightarrow> string" where
  "encode_slot s = char_of (unat (occupied s)) # slot_pad s @ u64_bytes (access_count s)
     @ slot_key s @ slot_value s"

definition decode_slot :: "string \<Rightarrow> RdmaSlot" where
  "decode_slot bs = \<lparr>occupied = of_char (bs ! 0), slot_pad = take 7 (drop 1 bs),
     access_count = bytes_u64 (take 8 (drop access_count_offset bs)),
     slot_key = take RDMA_KEY_MAX (drop 16 bs), slot_value = take RDMA_VALUE_MAX (drop 128 bs)\<rparr>"

definition slot_lens :: "RdmaSlot \<Rightarrow> bool" where
  "slot_lens s \<longleftrightarrow> length (slot_pad s) = 7 \<and> length (slot_key s) = RDMA_KEY_MAX
     \<and> length (slot_value s) = RDMA_VALUE_MAX"

lemma length_encode_slot [simp]: "slot_lens s \<Longrightarrow> length (encode_slot s) = slot_size"
  by (simp add: encode_slot_def slot_lens_def slot_size_def rdma_sizes)

lemma of_char_byte: "(of_char (char_of (unat w)) :: u8) = w"
proof -
  have "(of_char (char_of (unat w)) :: u8) = of_nat (of_char (char_of (unat w)))"
    by (simp only: of_nat_of_char)
  moreover have "unat w < 256" using unsigned_less [of w] by simp
  ultimately show ?thesis by (simp only: of_char_of mod_less) simp
qed

lemma decode_encode_slot: "slot_lens s \<Longrightarrow> decode_slot (encode_slot s) = s"
  by (simp add: encode_slot_def decode_slot_def slot_lens_def rdma_sizes access_count_offset_def
      of_char_byte)

lemma slot_lens_decode [simp]: "length bs = slot_size \<Longrightarrow> slot_lens (decode_slot bs)"
  by (simp add: decode_slot_def slot_lens_def slot_size_def rdma_sizes)

subsection \<open>The exported array in memory\<close>

text \<open>The address arithmetic of the clients: \<open>base + idx * sizeof(RdmaSlot)\<close> on 64 bits.\<close>

definition slot_addr :: "u64 \<Rightarrow> nat \<Rightarrow> u64" where
  "slot_addr base idx = base + of_nat idx * of_nat slot_size"

definition slot_at :: "mem \<Rightarrow> u64 \<Rightarrow> RdmaSlot" where
  "slot_at m a = decode_slot (load m a slot_size)"

definition table_at :: "mem \<Rightarrow> u64 \<Rightarrow> RdmaStore" where
  "table_at m base = \<lparr>slots = map (\<lambda>i. slot_at m (slot_addr base i)) [0..<RDMA_NUM_SLOTS]\<rparr>"

lemma unat_of_nat_diff:
  "p \<le> n \<Longrightarrow> n < 2 ^ 64 \<Longrightarrow> unat (of_nat n - of_nat p :: u64) = n - p"
  by (metis le_less_trans diff_le_self of_nat_diff unat_of_nat64)

lemma unat_of_nat_diff_wrap:
  assumes "n < p" and "p < 2 ^ 64"
  shows "unat (of_nat n - of_nat p :: u64) = 2 ^ 64 + n - p"
  using assms by (simp add: unat_sub_if' unat_of_nat)

lemma slot_addr_diff:
  "slot_addr base i + of_nat j - slot_addr base p = of_nat (i * slot_size + j) - of_nat (p * slot_size)"
  by (simp add: slot_addr_def)

lemma other_slot_far:
  assumes "i < RDMA_NUM_SLOTS" and "p < RDMA_NUM_SLOTS" and "i \<noteq> p" and "j < slot_size"
  shows "slot_size \<le> unat (slot_addr base i + of_nat j - slot_addr base p)"
proof (cases "i < p")
  case True
  with assms show ?thesis
    unfolding slot_addr_diff
    by (subst unat_of_nat_diff_wrap) (simp_all add: slot_size_def rdma_sizes)
next
  case False
  with assms show ?thesis
    unfolding slot_addr_diff
    by (subst unat_of_nat_diff) (simp_all add: slot_size_def rdma_sizes)
qed

lemma length_table_at [simp]: "length (slots (table_at m base)) = RDMA_NUM_SLOTS"
  by (simp add: table_at_def)

lemma table_at_nth [simp]:
  "i < RDMA_NUM_SLOTS \<Longrightarrow> slots (table_at m base) ! i = slot_at m (slot_addr base i)"
  by (simp add: table_at_def)

text \<open>A store inside slot \<open>p\<close> leaves the other slots alone.\<close>

lemma slot_at_store_other:
  assumes "i < RDMA_NUM_SLOTS" and "p < RDMA_NUM_SLOTS" and "i \<noteq> p" and "k + length bs \<le> slot_size"
  shows "slot_at (store m (slot_addr base p + of_nat k) bs) (slot_addr base i) = slot_at m (slot_addr base i)"
proof -
  have "length bs \<le> unat (slot_addr base i + of_nat j - (slot_addr base p + of_nat k))"
    if j: "j < slot_size" for j
  proof -
    let ?d = "slot_addr base i + of_nat j - slot_addr base p"
    have d: "slot_size \<le> unat ?d" by (rule other_slot_far) (use assms j in auto)
    have "unat (of_nat k :: u64) = k" using assms(4) by (intro unat_of_nat64) (simp add: slot_size_def)
    then have "unat (?d - of_nat k) = unat ?d - k"
      using d assms(4) by (subst unat_sub_if') simp
    then show ?thesis using d assms(4) by (simp add: algebra_simps)
  qed
  then have "load (store m (slot_addr base p + of_nat k) bs) (slot_addr base i) slot_size
           = load m (slot_addr base i) slot_size"
    by (intro load_store_other) (simp add: misses_def)
  then show ?thesis by (simp add: slot_at_def)
qed

lemma table_at_store_slot:
  assumes "p < RDMA_NUM_SLOTS" and "slot_lens s"
  shows "table_at (store m (slot_addr base p) (encode_slot s)) base
       = (table_at m base)\<lparr>slots := (slots (table_at m base))[p := s]\<rparr>"
proof -
  have "slot_at (store m (slot_addr base p) (encode_slot s)) (slot_addr base i)
      = (if i = p then s else slot_at m (slot_addr base i))" if i: "i < RDMA_NUM_SLOTS" for i
  proof (cases "i = p")
    case True
    have "load (store m (slot_addr base p) (encode_slot s)) (slot_addr base p) slot_size = encode_slot s"
      by (rule load_store_same) (use assms in \<open>simp_all add: slot_size_def\<close>)
    with True show ?thesis by (simp add: slot_at_def decode_encode_slot assms)
  next
    case False
    then show ?thesis
      using slot_at_store_other [of i p 0 "encode_slot s"] assms i by simp
  qed
  then have "slots (table_at (store m (slot_addr base p) (encode_slot s)) base)
     = (slots (table_at m base))[p := s]"
    using assms(1) by (intro nth_equalityI) (simp_all add: nth_list_update)
  then show ?thesis by (cases "table_at (store m (slot_addr base p) (encode_slot s)) base") simp
qed

text \<open>Adding to the counter of slot \<open>p\<close> in place, as a remote atomic does.\<close>

definition add_u64 :: "mem \<Rightarrow> u64 \<Rightarrow> u64 \<Rightarrow> mem" where
  "add_u64 m a v = store m a (u64_bytes (bytes_u64 (load m a 8) + v))"

lemma load_store_inside:
  assumes "k + length bs \<le> n" and "n < 2 ^ 63"
  shows "load (store m (a + of_nat k) bs) a n = take k (load m a n) @ bs @ drop (k + length bs) (load m a n)"
proof (rule nth_equalityI)
  fix i assume "i < length (load (store m (a + of_nat k) bs) a n)"
  then have i: "i < n" by simp
  have d: "unat (a + of_nat i - (a + of_nat k)) = (if i < k then 2 ^ 64 + i - k else i - k)"
    using unat_of_nat_diff [of k i] unat_of_nat_diff_wrap [of i k] i assms by simp
  have "store m (a + of_nat k) bs (a + of_nat i)
     = (if i < k \<or> k + length bs \<le> i then m (a + of_nat i) else bs ! (i - k))"
    unfolding store_def Let_def d using i assms by auto
  then show "load (store m (a + of_nat k) bs) a n ! i
     = (take k (load m a n) @ bs @ drop (k + length bs) (load m a n)) ! i"
    using i assms(1) by (auto simp: nth_append min_def)
qed (use assms in simp)

lemma add_u64_slot:
  "slot_at (add_u64 m (a + of_nat access_count_offset) v) a
   = (slot_at m a)\<lparr>access_count := access_count (slot_at m a) + v\<rparr>"
proof -
  let ?old = "load m a slot_size"
  let ?bs = "u64_bytes (bytes_u64 (take 8 (drop 8 ?old)) + v)"
  have "load m (a + of_nat access_count_offset) 8 = take 8 (drop 8 ?old)"
    by (rule nth_equalityI) (simp_all add: slot_size_def access_count_offset_def ac_simps)
  then have "load (add_u64 m (a + of_nat access_count_offset) v) a slot_size
     = take 8 ?old @ ?bs @ drop 16 ?old"
    using load_store_inside [of access_count_offset ?bs slot_size m a]
    by (simp add: add_u64_def access_count_offset_def slot_size_def)
  then show ?thesis
    by (simp add: slot_at_def decode_slot_def access_count_offset_def slot_size_def rdma_sizes
        nth_append drop_take)
qed

lemma table_at_add_count:
  assumes "p < RDMA_NUM_SLOTS"
  shows "slots (table_at (add_u64 m (slot_addr base p + of_nat access_count_offset) v) base)
       = (slots (table_at m base))[p := (slot_at m (slot_addr base p))
            \<lparr>access_count := access_count (slot_at m (slot_addr base p)) + v\<rparr>]"
proof (rule nth_equalityI)
  fix i assume "i < length (slots (table_at (add_u64 m (slot_addr base p + of_nat access_count_offset) v) base))"
  then have i: "i < RDMA_NUM_SLOTS" by simp
  let ?bs = "u64_bytes (bytes_u64 (load m (slot_addr base p + of_nat access_count_offset) 8) + v)"
  have "slot_at (add_u64 m (slot_addr base p + of_nat access_count_offset) v) (slot_addr base i)
     = slot_at m (slot_addr base i)" if "i \<noteq> p"
    unfolding add_u64_def
    by (rule slot_at_store_other) (use i assms that in \<open>simp_all add: slot_size_def access_count_offset_def\<close>)
  then show "slots (table_at (add_u64 m (slot_addr base p + of_nat access_count_offset) v) base) ! i
     = (slots (table_at m base))[p := (slot_at m (slot_addr base p))
            \<lparr>access_count := access_count (slot_at m (slot_addr base p)) + v\<rparr>] ! i"
    using i assms by (cases "i = p") (simp_all add: add_u64_slot nth_list_update)
qed simp

subsection \<open>Properties of the layout\<close>

text \<open>
  The slot layout is a faithful encoding: a slot whose arrays have their declared lengths takes
  exactly 1024 bytes, is read back from them unchanged, and no byte of it lies in another slot's
  1024 bytes, so writing slot \<open>p\<close> of the exported array at its computed address changes slot \<open>p\<close> of
  the array and nothing else, whatever the base address.
\<close>
theorem slot_layout_roundtrip:
  assumes "slot_lens s" and "p < RDMA_NUM_SLOTS"
  shows "length (encode_slot s) = slot_size \<and> decode_slot (encode_slot s) = s
       \<and> slots (table_at (store m (slot_addr base p) (encode_slot s)) base)
         = (slots (table_at m base))[p := s]"
  using assms by (simp add: decode_encode_slot table_at_store_slot)

theorem slot_layout_roundtrip_witness:
  "slots (table_at (store (\<lambda>_. NUL) (slot_addr 18446744073709551615 4095) (encode_slot zero_slot)) 18446744073709551615)
   ! 4095 = zero_slot"
proof -
  have lens: "slot_lens zero_slot" by (simp add: slot_lens_def zero_slot_def)
  have p: "4095 < RDMA_NUM_SLOTS" by (simp add: rdma_sizes)
  have len: "4095 < length (slots (table_at (\<lambda>_. NUL) 18446744073709551615))" using p by simp
  show ?thesis
    unfolding slot_layout_roundtrip [OF lens p, THEN conjunct2, THEN conjunct2]
    by (rule nth_list_update_eq [OF len])
qed

end
