(* ===== verification/RdmaContext.thy ===== *)
theory RdmaContext
  imports Memory
begin

section \<open>One queue pair and its resources (\<open>net::RdmaContext\<close>)\<close>

text \<open>
  Models \<open>include/net/rdma_context.hpp\<close> and \<open>src/net/rdma_context.cpp\<close> (and \<open>register_mr\<close> of
  \<open>src/kvstore/rdma_store.cpp\<close>). libibverbs is not part of the repository: the record \<open>verbs\<close>
  holds its functions, as state transformers on a \<open>host\<close> (the process's memory and the NIC), and
  every operation of the context takes it as an argument. What the code relies on is stated as
  predicates on such a record: \<open>verbs_accounting\<close> (which resources exist), \<open>verbs_qp_table\<close> (the
  queue pair state table) and \<open>verbs_data_path\<close> (completion of one-sided requests);
  \<open>SimVerbs\<close> gives a concrete instance. The busy loop of \<open>poll_completion\<close> is a
  \<open>partial_function\<close>, so a poll that never sees a completion is \<open>None\<close>. The arrays \<open>send_buf_\<close>
  and \<open>recv_buf_\<close> live in the host's memory at the addresses the context records.
\<close>

subsection \<open>What verbs.h declares\<close>

datatype access_flag = LOCAL_WRITE | REMOTE_READ | REMOTE_WRITE | REMOTE_ATOMIC

datatype qp_state = QPS_RESET | QPS_INIT | QPS_RTR | QPS_RTS

datatype qp_type = QPT_RC | QPT_UC | QPT_UD

datatype qp_mask =
    M_STATE | M_PKEY_INDEX | M_PORT | M_ACCESS_FLAGS | M_AV | M_PATH_MTU | M_DEST_QPN | M_RQ_PSN
  | M_MAX_DEST_RD_ATOMIC | M_MIN_RNR_TIMER | M_TIMEOUT | M_RETRY_CNT | M_RNR_RETRY | M_SQ_PSN
  | M_MAX_QP_RD_ATOMIC

datatype wr_opcode = WR_SEND | WR_RDMA_READ | WR_RDMA_WRITE | WR_FETCH_AND_ADD

datatype wc_opcode = WC_SEND | WC_RDMA_READ | WC_RDMA_WRITE | WC_FETCH_ADD | WC_RECV

datatype wc_status = WC_SUCCESS | WC_ERROR nat

record ibv_mr =
  mr_handle :: nat
  mr_addr :: u64
  mr_lkey :: u32
  mr_rkey :: u32

record ibv_qp =
  qp_handle :: nat
  qp_number :: u32

record ibv_qp_init_attr =
  send_cq :: nat
  recv_cq :: nat
  init_qp_type :: qp_type
  sq_sig_all :: bool
  max_send_wr :: nat
  max_recv_wr :: nat
  max_send_sge :: nat
  max_recv_sge :: nat
  max_inline_data :: nat

record ibv_qp_attr =
  attr_state :: qp_state
  attr_port_num :: u8
  attr_pkey_index :: u16
  attr_access_flags :: "access_flag list"
  attr_path_mtu :: nat
  attr_dest_qp_num :: u32
  attr_rq_psn :: nat
  attr_max_dest_rd_atomic :: nat
  attr_min_rnr_timer :: nat
  ah_is_global :: bool
  ah_sgid_index :: nat
  ah_hop_limit :: nat
  ah_dlid :: u16
  ah_port_num :: u8
  ah_dgid :: string
  attr_timeout :: nat
  attr_retry_cnt :: nat
  attr_rnr_retry :: nat
  attr_sq_psn :: nat
  attr_max_rd_atomic :: nat

definition zero_qp_attr :: ibv_qp_attr where
  "zero_qp_attr = \<lparr>attr_state = QPS_RESET, attr_port_num = 0, attr_pkey_index = 0,
     attr_access_flags = [], attr_path_mtu = 0, attr_dest_qp_num = 0, attr_rq_psn = 0,
     attr_max_dest_rd_atomic = 0, attr_min_rnr_timer = 0, ah_is_global = False, ah_sgid_index = 0,
     ah_hop_limit = 0, ah_dlid = 0, ah_port_num = 0, ah_dgid = replicate 16 NUL, attr_timeout = 0,
     attr_retry_cnt = 0, attr_rnr_retry = 0, attr_sq_psn = 0, attr_max_rd_atomic = 0\<rparr>"

record ibv_sge =
  sge_addr :: u64
  sge_length :: u32
  sge_lkey :: u32

record ibv_recv_wr =
  recv_wr_id :: nat
  recv_sge :: ibv_sge

record ibv_send_wr =
  wr_id :: nat
  wr_sge :: ibv_sge
  wr_op :: wr_opcode
  wr_signaled :: bool
  wr_remote_addr :: u64
  wr_rkey :: u32
  wr_compare_add :: u64

record ibv_wc =
  wc_stat :: wc_status
  wc_op :: wc_opcode
  wc_byte_len :: u32

record 'n host =
  host_mem :: mem
  nic :: 'n

record 'n verbs =
  ibv_get_device_list :: "'n host \<Rightarrow> nat list option \<times> 'n host"
  ibv_free_device_list :: "'n host \<Rightarrow> 'n host"
  ibv_get_device_name :: "nat \<Rightarrow> string"
  ibv_open_device :: "nat \<Rightarrow> 'n host \<Rightarrow> nat option \<times> 'n host"
  ibv_close_device :: "nat \<Rightarrow> 'n host \<Rightarrow> 'n host"
  ibv_alloc_pd :: "nat \<Rightarrow> 'n host \<Rightarrow> nat option \<times> 'n host"
  ibv_dealloc_pd :: "nat \<Rightarrow> 'n host \<Rightarrow> 'n host"
  ibv_create_cq :: "nat \<Rightarrow> nat \<Rightarrow> 'n host \<Rightarrow> nat option \<times> 'n host"
  ibv_destroy_cq :: "nat \<Rightarrow> 'n host \<Rightarrow> 'n host"
  ibv_create_qp :: "nat \<Rightarrow> ibv_qp_init_attr \<Rightarrow> 'n host \<Rightarrow> ibv_qp option \<times> 'n host"
  ibv_destroy_qp :: "ibv_qp \<Rightarrow> 'n host \<Rightarrow> 'n host"
  ibv_reg_mr :: "nat \<Rightarrow> u64 \<Rightarrow> nat \<Rightarrow> access_flag list \<Rightarrow> 'n host \<Rightarrow> ibv_mr option \<times> 'n host"
  ibv_dereg_mr :: "ibv_mr \<Rightarrow> 'n host \<Rightarrow> 'n host"
  ibv_modify_qp :: "ibv_qp \<Rightarrow> ibv_qp_attr \<Rightarrow> qp_mask list \<Rightarrow> 'n host \<Rightarrow> int \<times> 'n host"
  ibv_query_port_lid :: "nat \<Rightarrow> u8 \<Rightarrow> 'n host \<Rightarrow> u16"
  ibv_query_gid :: "nat \<Rightarrow> u8 \<Rightarrow> nat \<Rightarrow> 'n host \<Rightarrow> string"
  ibv_post_recv :: "ibv_qp \<Rightarrow> ibv_recv_wr \<Rightarrow> 'n host \<Rightarrow> int \<times> 'n host"
  ibv_post_send :: "ibv_qp \<Rightarrow> ibv_send_wr \<Rightarrow> 'n host \<Rightarrow> int \<times> 'n host"
  ibv_poll_cq :: "nat \<Rightarrow> 'n host \<Rightarrow> int \<times> ibv_wc \<times> 'n host"

subsection \<open>The context and the connection data\<close>

definition RDMA_MSG_SIZE :: nat where "RDMA_MSG_SIZE = 4096"

record QpInfo =
  qi_qp_num :: u32
  qi_lid :: u16
  qi_gid :: string
  qi_rkey :: u32
  qi_addr :: u64
  qi_num_slots :: u64

record RdmaContext =
  ctx_ptr :: "nat option"
  pd_ptr :: "nat option"
  cq_ptr :: "nat option"
  qp_ptr :: "ibv_qp option"
  send_mr :: "ibv_mr option"
  recv_mr :: "ibv_mr option"
  send_buf :: u64
  recv_buf :: u64
  recv_len :: u32
  exported_rkey :: u32
  exported_addr :: u64
  exported_num_slots :: u64
  port_num :: u8

text \<open>A default-constructed context, with its two arrays at the given addresses.\<close>

definition RdmaContext_default :: "u64 \<Rightarrow> u64 \<Rightarrow> RdmaContext" where
  "RdmaContext_default sbuf rbuf =
     \<lparr>ctx_ptr = None, pd_ptr = None, cq_ptr = None, qp_ptr = None, send_mr = None, recv_mr = None,
      send_buf = sbuf, recv_buf = rbuf, recv_len = 0, exported_rkey = 0, exported_addr = 0,
      exported_num_slots = 0, port_num = 1\<rparr>"

subsection \<open>Teardown and initialisation\<close>

definition drop_send_mr :: "'n verbs \<Rightarrow> RdmaContext \<times> 'n host \<Rightarrow> RdmaContext \<times> 'n host" where
  "drop_send_mr V = (\<lambda>(c, h). case send_mr c of None \<Rightarrow> (c, h)
      | Some m \<Rightarrow> (c\<lparr>send_mr := None\<rparr>, ibv_dereg_mr V m h))"

definition drop_recv_mr :: "'n verbs \<Rightarrow> RdmaContext \<times> 'n host \<Rightarrow> RdmaContext \<times> 'n host" where
  "drop_recv_mr V = (\<lambda>(c, h). case recv_mr c of None \<Rightarrow> (c, h)
      | Some m \<Rightarrow> (c\<lparr>recv_mr := None\<rparr>, ibv_dereg_mr V m h))"

definition drop_qp :: "'n verbs \<Rightarrow> RdmaContext \<times> 'n host \<Rightarrow> RdmaContext \<times> 'n host" where
  "drop_qp V = (\<lambda>(c, h). case qp_ptr c of None \<Rightarrow> (c, h)
      | Some q \<Rightarrow> (c\<lparr>qp_ptr := None\<rparr>, ibv_destroy_qp V q h))"

definition drop_cq :: "'n verbs \<Rightarrow> RdmaContext \<times> 'n host \<Rightarrow> RdmaContext \<times> 'n host" where
  "drop_cq V = (\<lambda>(c, h). case cq_ptr c of None \<Rightarrow> (c, h)
      | Some q \<Rightarrow> (c\<lparr>cq_ptr := None\<rparr>, ibv_destroy_cq V q h))"

definition drop_pd :: "'n verbs \<Rightarrow> RdmaContext \<times> 'n host \<Rightarrow> RdmaContext \<times> 'n host" where
  "drop_pd V = (\<lambda>(c, h). case pd_ptr c of None \<Rightarrow> (c, h)
      | Some p \<Rightarrow> (c\<lparr>pd_ptr := None\<rparr>, ibv_dealloc_pd V p h))"

definition drop_ctx :: "'n verbs \<Rightarrow> RdmaContext \<times> 'n host \<Rightarrow> RdmaContext \<times> 'n host" where
  "drop_ctx V = (\<lambda>(c, h). case ctx_ptr c of None \<Rightarrow> (c, h)
      | Some x \<Rightarrow> (c\<lparr>ctx_ptr := None\<rparr>, ibv_close_device V x h))"

definition rdma_destroy :: "'n verbs \<Rightarrow> RdmaContext \<Rightarrow> 'n host \<Rightarrow> RdmaContext \<times> 'n host" where
  "rdma_destroy V c h =
     drop_ctx V (drop_pd V (drop_cq V (drop_qp V (drop_recv_mr V (drop_send_mr V (c, h))))))"

definition fail_destroy :: "'n verbs \<Rightarrow> RdmaContext \<Rightarrow> 'n host \<Rightarrow> bool \<times> RdmaContext \<times> 'n host" where
  "fail_destroy V c h = (let (c, h) = rdma_destroy V c h in (False, c, h))"

fun pick_device :: "'n verbs \<Rightarrow> string option \<Rightarrow> nat list \<Rightarrow> nat option" where
  "pick_device V device_name [] = None"
| "pick_device V device_name (d # ds) =
     (if device_name = None \<or> Some (ibv_get_device_name V d) = device_name then Some d
      else pick_device V device_name ds)"

definition init_qp_attr :: "nat \<Rightarrow> ibv_qp_init_attr" where
  "init_qp_attr cq = \<lparr>send_cq = cq, recv_cq = cq, init_qp_type = QPT_RC, sq_sig_all = False,
     max_send_wr = 32, max_recv_wr = 32, max_send_sge = 1, max_recv_sge = 1, max_inline_data = 64\<rparr>"

definition init_attr :: "RdmaContext \<Rightarrow> ibv_qp_attr" where
  "init_attr c = zero_qp_attr\<lparr>attr_state := QPS_INIT, attr_port_num := port_num c, attr_pkey_index := 0,
     attr_access_flags := [REMOTE_READ, REMOTE_WRITE, REMOTE_ATOMIC]\<rparr>"

definition init_mask :: "qp_mask list" where
  "init_mask = [M_STATE, M_PKEY_INDEX, M_PORT, M_ACCESS_FLAGS]"

text \<open>The part of \<open>init\<close> after the device has been opened, then the whole of it.\<close>

definition init_opened :: "'n verbs \<Rightarrow> nat \<Rightarrow> RdmaContext \<Rightarrow> 'n host \<Rightarrow> bool \<times> RdmaContext \<times> 'n host" where
  "init_opened V x c h =
     (case ibv_alloc_pd V x h of
        (None, h) \<Rightarrow> fail_destroy V (c\<lparr>pd_ptr := None\<rparr>) h
      | (Some p, h) \<Rightarrow> let c = c\<lparr>pd_ptr := Some p\<rparr> in
     (case ibv_create_cq V x 64 h of
        (None, h) \<Rightarrow> fail_destroy V (c\<lparr>cq_ptr := None\<rparr>) h
      | (Some q, h) \<Rightarrow> let c = c\<lparr>cq_ptr := Some q\<rparr> in
     (case ibv_create_qp V p (init_qp_attr q) h of
        (None, h) \<Rightarrow> fail_destroy V (c\<lparr>qp_ptr := None\<rparr>) h
      | (Some qp, h) \<Rightarrow> let c = c\<lparr>qp_ptr := Some qp\<rparr> in
     (case ibv_reg_mr V p (send_buf c) RDMA_MSG_SIZE [LOCAL_WRITE] h of
        (None, h) \<Rightarrow> fail_destroy V (c\<lparr>send_mr := None\<rparr>) h
      | (Some sm, h) \<Rightarrow> let c = c\<lparr>send_mr := Some sm\<rparr> in
     (case ibv_reg_mr V p (recv_buf c) RDMA_MSG_SIZE [LOCAL_WRITE] h of
        (None, h) \<Rightarrow> fail_destroy V (c\<lparr>recv_mr := None\<rparr>) h
      | (Some rm, h) \<Rightarrow> let c = c\<lparr>recv_mr := Some rm\<rparr> in
     (case ibv_modify_qp V qp (init_attr c) init_mask h of
        (ret, h) \<Rightarrow> if ret \<noteq> 0 then fail_destroy V c h else (True, c, h)))))))"

definition rdma_init :: "'n verbs \<Rightarrow> string option \<Rightarrow> RdmaContext \<Rightarrow> 'n host \<Rightarrow> bool \<times> RdmaContext \<times> 'n host" where
  "rdma_init V device_name c h =
     (case ibv_get_device_list V h of
        (None, h) \<Rightarrow> (False, c, h)
      | (Some dev_list, h) \<Rightarrow>
          if length dev_list = 0 then (False, c, h)
          else
            let dev = pick_device V device_name dev_list; h = ibv_free_device_list V h in
            (case dev of
               None \<Rightarrow> (False, c, h)
             | Some dev \<Rightarrow>
                 (case ibv_open_device V dev h of
                    (None, h) \<Rightarrow> (False, c\<lparr>ctx_ptr := None\<rparr>, h)
                  | (Some x, h) \<Rightarrow> init_opened V x (c\<lparr>ctx_ptr := Some x\<rparr>) h)))"

subsection \<open>Connection data and the queue pair states\<close>

text \<open>\<open>local_info\<close> dereferences \<open>qp_\<close> and \<open>ctx_\<close>: \<open>None\<close> is the null dereference, which happens
exactly when \<open>init\<close> has not succeeded.\<close>

definition local_info :: "'n verbs \<Rightarrow> RdmaContext \<Rightarrow> 'n host \<Rightarrow> QpInfo option" where
  "local_info V c h =
     (case (qp_ptr c, ctx_ptr c) of
        (Some qp, Some x) \<Rightarrow>
          Some \<lparr>qi_qp_num = qp_number qp, qi_lid = ibv_query_port_lid V x (port_num c) h,
                qi_gid = take 16 (ibv_query_gid V x (port_num c) 0 h), qi_rkey = exported_rkey c,
                qi_addr = exported_addr c, qi_num_slots = exported_num_slots c\<rparr>
      | _ \<Rightarrow> None)"

definition set_exported_region :: "ibv_mr \<Rightarrow> u64 \<Rightarrow> RdmaContext \<Rightarrow> RdmaContext" where
  "set_exported_region mr n c =
     c\<lparr>exported_rkey := mr_rkey mr, exported_addr := mr_addr mr, exported_num_slots := n\<rparr>"

definition rtr_attr :: "QpInfo \<Rightarrow> RdmaContext \<Rightarrow> ibv_qp_attr" where
  "rtr_attr remote c = zero_qp_attr\<lparr>attr_state := QPS_RTR, attr_path_mtu := 1024,
     attr_dest_qp_num := qi_qp_num remote, attr_rq_psn := 0, attr_max_dest_rd_atomic := 16,
     attr_min_rnr_timer := 12, ah_is_global := True, ah_sgid_index := 0, ah_hop_limit := 1,
     ah_dlid := qi_lid remote, ah_port_num := port_num c, ah_dgid := take 16 (qi_gid remote)\<rparr>"

definition rtr_mask :: "qp_mask list" where
  "rtr_mask = [M_STATE, M_AV, M_PATH_MTU, M_DEST_QPN, M_RQ_PSN, M_MAX_DEST_RD_ATOMIC, M_MIN_RNR_TIMER]"

definition rts_attr :: ibv_qp_attr where
  "rts_attr = zero_qp_attr\<lparr>attr_state := QPS_RTS, attr_timeout := 14, attr_retry_cnt := 7,
     attr_rnr_retry := 7, attr_sq_psn := 0, attr_max_rd_atomic := 16\<rparr>"

definition rts_mask :: "qp_mask list" where
  "rts_mask = [M_STATE, M_TIMEOUT, M_RETRY_CNT, M_RNR_RETRY, M_SQ_PSN, M_MAX_QP_RD_ATOMIC]"

text \<open>From here on an operation dereferences pointers that \<open>init\<close> has set: \<open>None\<close> is a null
dereference.\<close>

definition rdma_connect :: "'n verbs \<Rightarrow> QpInfo \<Rightarrow> RdmaContext \<Rightarrow> 'n host \<Rightarrow> (bool \<times> 'n host) option" where
  "rdma_connect V remote c h =
     (case qp_ptr c of None \<Rightarrow> None
      | Some qp \<Rightarrow>
          (case ibv_modify_qp V qp (rtr_attr remote c) rtr_mask h of
             (ret, h) \<Rightarrow> if ret \<noteq> 0 then Some (False, h)
              else (case ibv_modify_qp V qp rts_attr rts_mask h of
                (ret, h) \<Rightarrow> if ret \<noteq> 0 then Some (False, h) else Some (True, h))))"

subsection \<open>Posting work requests\<close>

definition post_recv :: "'n verbs \<Rightarrow> RdmaContext \<Rightarrow> 'n host \<Rightarrow> (bool \<times> 'n host) option" where
  "post_recv V c h =
     (case (recv_mr c, qp_ptr c) of
        (Some mr, Some qp) \<Rightarrow>
          let sge = \<lparr>sge_addr = recv_buf c, sge_length = of_nat RDMA_MSG_SIZE, sge_lkey = mr_lkey mr\<rparr>;
              wr = \<lparr>recv_wr_id = 0, recv_sge = sge\<rparr>;
              (ret, h) = ibv_post_recv V qp wr h
          in Some (ret = 0, h)
      | _ \<Rightarrow> None)"

definition post_send :: "'n verbs \<Rightarrow> string \<Rightarrow> RdmaContext \<Rightarrow> 'n host \<Rightarrow> (bool \<times> 'n host) option" where
  "post_send V data c h =
     (let len = (if length data < RDMA_MSG_SIZE then length data else RDMA_MSG_SIZE);
          h = h\<lparr>host_mem := store (host_mem h) (send_buf c) (take len data)\<rparr>
      in case (send_mr c, qp_ptr c) of
        (Some mr, Some qp) \<Rightarrow>
          let sge = \<lparr>sge_addr = send_buf c, sge_length = of_nat len, sge_lkey = mr_lkey mr\<rparr>;
              wr = \<lparr>wr_id = 1, wr_sge = sge, wr_op = WR_SEND, wr_signaled = True,
                    wr_remote_addr = 0, wr_rkey = 0, wr_compare_add = 0\<rparr>;
              (ret, h) = ibv_post_send V qp wr h
          in Some (ret = 0, h)
      | _ \<Rightarrow> None)"

definition post_rdma_read :: "'n verbs \<Rightarrow> u64 \<Rightarrow> u32 \<Rightarrow> u64 \<Rightarrow> u32 \<Rightarrow> u32 \<Rightarrow> RdmaContext \<Rightarrow> 'n host
    \<Rightarrow> (bool \<times> 'n host) option" where
  "post_rdma_read V remote_addr remote_rkey local_dst len local_lkey c h =
     (case qp_ptr c of None \<Rightarrow> None
      | Some qp \<Rightarrow>
          let sge = \<lparr>sge_addr = local_dst, sge_length = len, sge_lkey = local_lkey\<rparr>;
              wr = \<lparr>wr_id = 2, wr_sge = sge, wr_op = WR_RDMA_READ, wr_signaled = True,
                    wr_remote_addr = remote_addr, wr_rkey = remote_rkey, wr_compare_add = 0\<rparr>;
              (ret, h) = ibv_post_send V qp wr h
          in Some (ret = 0, h))"

definition post_rdma_write :: "'n verbs \<Rightarrow> u64 \<Rightarrow> u32 \<Rightarrow> u64 \<Rightarrow> u32 \<Rightarrow> u32 \<Rightarrow> RdmaContext \<Rightarrow> 'n host
    \<Rightarrow> (bool \<times> 'n host) option" where
  "post_rdma_write V remote_addr remote_rkey local_src len local_lkey c h =
     (case qp_ptr c of None \<Rightarrow> None
      | Some qp \<Rightarrow>
          let sge = \<lparr>sge_addr = local_src, sge_length = len, sge_lkey = local_lkey\<rparr>;
              wr = \<lparr>wr_id = 4, wr_sge = sge, wr_op = WR_RDMA_WRITE, wr_signaled = True,
                    wr_remote_addr = remote_addr, wr_rkey = remote_rkey, wr_compare_add = 0\<rparr>;
              (ret, h) = ibv_post_send V qp wr h
          in Some (ret = 0, h))"

definition post_fetch_and_add :: "'n verbs \<Rightarrow> u64 \<Rightarrow> u32 \<Rightarrow> u64 \<Rightarrow> u64 \<Rightarrow> u32 \<Rightarrow> RdmaContext \<Rightarrow> 'n host
    \<Rightarrow> (bool \<times> 'n host) option" where
  "post_fetch_and_add V remote_addr remote_rkey local_dst add_val local_lkey c h =
     (case qp_ptr c of None \<Rightarrow> None
      | Some qp \<Rightarrow>
          let sge = \<lparr>sge_addr = local_dst, sge_length = 8, sge_lkey = local_lkey\<rparr>;
              wr = \<lparr>wr_id = 3, wr_sge = sge, wr_op = WR_FETCH_AND_ADD, wr_signaled = True,
                    wr_remote_addr = remote_addr, wr_rkey = remote_rkey, wr_compare_add = add_val\<rparr>;
              (ret, h) = ibv_post_send V qp wr h
          in Some (ret = 0, h))"

subsection \<open>Polling, registration, received data\<close>

partial_function (option) poll_loop :: "'n verbs \<Rightarrow> nat \<Rightarrow> 'n host \<Rightarrow> (int \<times> ibv_wc \<times> 'n host) option" where
  "poll_loop V cq h =
     (case ibv_poll_cq V cq h of (ret, wc, h') \<Rightarrow> if ret = 0 then poll_loop V cq h' else Some (ret, wc, h'))"

definition poll_completion :: "'n verbs \<Rightarrow> RdmaContext \<Rightarrow> 'n host \<Rightarrow> (bool \<times> RdmaContext \<times> 'n host) option" where
  "poll_completion V c h =
     (case cq_ptr c of None \<Rightarrow> None
      | Some cq \<Rightarrow>
          (case poll_loop V cq h of None \<Rightarrow> None
           | Some (ret, wc, h) \<Rightarrow>
               if ret < 0 then Some (False, c, h)
               else if wc_stat wc \<noteq> WC_SUCCESS then Some (False, c, h)
               else let c = (if wc_op wc = WC_RECV then c\<lparr>recv_len := wc_byte_len wc\<rparr> else c)
                    in Some (True, c, h)))"

definition rdma_reg_mr :: "'n verbs \<Rightarrow> u64 \<Rightarrow> nat \<Rightarrow> access_flag list \<Rightarrow> RdmaContext \<Rightarrow> 'n host
    \<Rightarrow> (ibv_mr option \<times> 'n host) option" where
  "rdma_reg_mr V buf len access_flags c h =
     (case pd_ptr c of None \<Rightarrow> None | Some p \<Rightarrow> Some (ibv_reg_mr V p buf len access_flags h))"

definition recv_data :: "RdmaContext \<Rightarrow> 'n host \<Rightarrow> string" where
  "recv_data c h = load (host_mem h) (recv_buf c) (unat (recv_len c))"

text \<open>\<open>RdmaStore::register_mr\<close>, for an array at address \<open>base\<close>.\<close>

definition register_mr :: "'n verbs \<Rightarrow> nat \<Rightarrow> u64 \<Rightarrow> 'n host \<Rightarrow> ibv_mr option \<times> 'n host" where
  "register_mr V pd base h =
     ibv_reg_mr V pd base (RDMA_NUM_SLOTS * slot_size)
       [LOCAL_WRITE, REMOTE_READ, REMOTE_WRITE, REMOTE_ATOMIC] h"

end
