(* ===== verification/RdmaLaws.thy ===== *)
theory RdmaLaws
  imports RdmaContext
begin

section \<open>What the queue pair code relies on\<close>

text \<open>
  The documented behaviour of libibverbs the context relies on, as predicates on a \<open>verbs\<close> record,
  and the lemmas on the operations of \<open>src/net/rdma_context.cpp\<close> that follow. \<open>live\<close> is the set of
  verbs resources that exist: an allocation adds a resource whose handle no live resource
  mentions, a release removes it provided no other live resource still refers to it (a protection
  domain with a queue pair on it is busy). \<open>qst\<close> is the state of each queue pair. \<open>remote\<close> is the
  peer's memory as the NIC reaches it. The properties themselves are in \<open>RdmaProps\<close>.
\<close>

subsection \<open>Resource accounting\<close>

datatype handle = HCtx nat | HPd nat | HCq nat | HQp ibv_qp | HMr ibv_mr

datatype resource =
    DevList
  | DevCtx nat
  | Pd nat nat
  | Cq nat nat
  | Qp nat nat ibv_qp
  | Mr nat ibv_mr

fun mentions :: "resource \<Rightarrow> handle set" where
  "mentions DevList = {}"
| "mentions (DevCtx x) = {HCtx x}"
| "mentions (Pd x p) = {HCtx x, HPd p}"
| "mentions (Cq x q) = {HCtx x, HCq q}"
| "mentions (Qp p q qp) = {HPd p, HCq q, HQp qp}"
| "mentions (Mr p m) = {HPd p, HMr m}"

definition acquires :: "('w \<Rightarrow> resource set) \<Rightarrow> ('w \<Rightarrow> 'a option \<times> 'w) \<Rightarrow> ('a \<Rightarrow> resource) \<Rightarrow> ('a \<Rightarrow> handle) \<Rightarrow> bool" where
  "acquires live f mk hnd \<longleftrightarrow>
     (\<forall>h. case f h of
        (None, h') \<Rightarrow> live h' = live h
      | (Some x, h') \<Rightarrow> live h' = insert (mk x) (live h) \<and> (\<forall>r\<in>live h. hnd x \<notin> mentions r))"

definition releases :: "('w \<Rightarrow> resource set) \<Rightarrow> ('w \<Rightarrow> 'w) \<Rightarrow> handle \<Rightarrow> bool" where
  "releases live g hnd \<longleftrightarrow>
     (\<forall>h r. (\<forall>r'\<in>live h. hnd \<in> mentions r' \<longrightarrow> r' = r) \<longrightarrow> live (g h) = {r'\<in>live h. hnd \<notin> mentions r'})"

definition verbs_accounting :: "'n verbs \<Rightarrow> ('n host \<Rightarrow> resource set) \<Rightarrow> bool" where
  "verbs_accounting V live \<longleftrightarrow>
     (\<forall>h. case ibv_get_device_list V h of (None, h') \<Rightarrow> live h' = live h | (Some l, h') \<Rightarrow> live h' = insert DevList (live h))
     \<and> (\<forall>h. live (ibv_free_device_list V h) = live h - {DevList})
     \<and> (\<forall>d. acquires live (ibv_open_device V d) DevCtx HCtx)
     \<and> (\<forall>x. acquires live (ibv_alloc_pd V x) (Pd x) HPd)
     \<and> (\<forall>x n. acquires live (ibv_create_cq V x n) (Cq x) HCq)
     \<and> (\<forall>p at. acquires live (ibv_create_qp V p at) (Qp p (send_cq at)) HQp)
     \<and> (\<forall>p a n fl. acquires live (ibv_reg_mr V p a n fl) (Mr p) HMr)
     \<and> (\<forall>x. releases live (ibv_close_device V x) (HCtx x))
     \<and> (\<forall>p. releases live (ibv_dealloc_pd V p) (HPd p))
     \<and> (\<forall>q. releases live (ibv_destroy_cq V q) (HCq q))
     \<and> (\<forall>q. releases live (ibv_destroy_qp V q) (HQp q))
     \<and> (\<forall>m. releases live (ibv_dereg_mr V m) (HMr m))
     \<and> (\<forall>q at mask h. live (snd (ibv_modify_qp V q at mask h)) = live h)"

text \<open>The resources a context owns and the handles it holds.\<close>

fun owns_res :: "RdmaContext \<Rightarrow> resource \<Rightarrow> bool" where
  "owns_res c DevList = False"
| "owns_res c (DevCtx x) = (ctx_ptr c = Some x)"
| "owns_res c (Pd x p) = (ctx_ptr c = Some x \<and> pd_ptr c = Some p)"
| "owns_res c (Cq x q) = (ctx_ptr c = Some x \<and> cq_ptr c = Some q)"
| "owns_res c (Qp p q qp) = (pd_ptr c = Some p \<and> cq_ptr c = Some q \<and> qp_ptr c = Some qp)"
| "owns_res c (Mr p m) = (pd_ptr c = Some p \<and> (send_mr c = Some m \<or> recv_mr c = Some m))"

fun has_handle :: "RdmaContext \<Rightarrow> handle \<Rightarrow> bool" where
  "has_handle c (HCtx x) = (ctx_ptr c = Some x)"
| "has_handle c (HPd p) = (pd_ptr c = Some p)"
| "has_handle c (HCq q) = (cq_ptr c = Some q)"
| "has_handle c (HQp qp) = (qp_ptr c = Some qp)"
| "has_handle c (HMr m) = (send_mr c = Some m \<or> recv_mr c = Some m)"

definition owned :: "RdmaContext \<Rightarrow> resource set" where
  "owned c = {r. owns_res c r}"

lemma all_resource:
  "(\<forall>r. P r) \<longleftrightarrow> P DevList \<and> (\<forall>x. P (DevCtx x)) \<and> (\<forall>x p. P (Pd x p)) \<and> (\<forall>x q. P (Cq x q))
     \<and> (\<forall>p q qp. P (Qp p q qp)) \<and> (\<forall>p m. P (Mr p m))"
  by (metis resource.exhaust)

lemma all_handle:
  "(\<forall>r. P r) \<longleftrightarrow> (\<forall>x. P (HCtx x)) \<and> (\<forall>x. P (HPd x)) \<and> (\<forall>x. P (HCq x)) \<and> (\<forall>x. P (HQp x)) \<and> (\<forall>x. P (HMr x))"
  by (metis handle.exhaust)

definition nested :: "RdmaContext \<Rightarrow> bool" where
  "nested c \<longleftrightarrow> (pd_ptr c \<noteq> None \<longrightarrow> ctx_ptr c \<noteq> None) \<and> (cq_ptr c \<noteq> None \<longrightarrow> pd_ptr c \<noteq> None)
     \<and> (qp_ptr c \<noteq> None \<longrightarrow> cq_ptr c \<noteq> None) \<and> (send_mr c \<noteq> None \<longrightarrow> pd_ptr c \<noteq> None)
     \<and> (recv_mr c \<noteq> None \<longrightarrow> pd_ptr c \<noteq> None) \<and> (send_mr c \<noteq> None \<longrightarrow> send_mr c \<noteq> recv_mr c)"

text \<open>\<open>owns c base R\<close>: the live resources \<open>R\<close> are those of \<open>c\<close> and a rest that mentions none of
its handles.\<close>

definition owns :: "RdmaContext \<Rightarrow> resource set \<Rightarrow> resource set \<Rightarrow> bool" where
  "owns c base R \<longleftrightarrow> R = base \<union> owned c \<and> (\<forall>r\<in>base. \<forall>x\<in>mentions r. \<not> has_handle c x)"

lemma releasesD:
  "releases live g hnd \<Longrightarrow> (\<forall>r'\<in>live h. hnd \<in> mentions r' \<longrightarrow> r' = r) \<Longrightarrow>
     live (g h) = {r'\<in>live h. hnd \<notin> mentions r'}"
  unfolding releases_def by blast

text \<open>Each step of \<open>destroy\<close> releases what it drops, as long as nothing of the context still uses
it: this is where the order of the steps matters.\<close>

definition step_ok :: "('n host \<Rightarrow> resource set) \<Rightarrow> resource set \<Rightarrow> RdmaContext \<times> 'n host \<Rightarrow> bool" where
  "step_ok live base ch \<longleftrightarrow> nested (fst ch) \<and> owns (fst ch) base (live (snd ch))"

lemma drop_step:
  assumes "releases live g hnd" and own: "owns c base (live h)" and has: "has_handle c hnd"
    and only: "\<forall>r'. owns_res c r' \<and> hnd \<in> mentions r' \<longrightarrow> r' = r"
    and res: "\<forall>r. owns_res c' r \<longleftrightarrow> owns_res c r \<and> hnd \<notin> mentions r"
    and sub: "\<forall>x. has_handle c' x \<longrightarrow> has_handle c x"
  shows "owns c' base (live (g h))"
proof -
  have live: "live h = base \<union> owned c" and far: "\<forall>r\<in>base. \<forall>x\<in>mentions r. \<not> has_handle c x"
    using own by (simp_all add: owns_def)
  have "\<forall>r'\<in>live h. hnd \<in> mentions r' \<longrightarrow> r' = r"
    using live far has only by (auto simp: owned_def)
  then have "live (g h) = {r'\<in>live h. hnd \<notin> mentions r'}" by (rule releasesD [OF assms(1)])
  also have "\<dots> = base \<union> owned c'" using live far has res by (auto simp: owned_def)
  finally show ?thesis using far sub by (auto simp: owns_def)
qed

lemma drop_send_mr_ok:
  assumes "verbs_accounting V live" and "step_ok live base (c, h)"
  shows "step_ok live base (drop_send_mr V (c, h))"
proof (cases "send_mr c")
  case (Some m)
  have nest: "nested c" and own: "owns c base (live h)" using assms(2) by (simp_all add: step_ok_def)
  have rel: "releases live (ibv_dereg_mr V m) (HMr m)" using assms(1) by (simp add: verbs_accounting_def)
  have "owns (c\<lparr>send_mr := None\<rparr>) base (live (ibv_dereg_mr V m h))"
    by (rule drop_step [OF rel own, where r = "Mr (the (pd_ptr c)) m"])
      (use Some nest assms(2-) in \<open>auto simp: all_resource all_handle nested_def\<close>)
  moreover have "nested (c\<lparr>send_mr := None\<rparr>)" using nest assms(2-) by (auto simp: nested_def)
  ultimately show ?thesis using Some by (simp add: drop_send_mr_def step_ok_def)
qed (use assms in \<open>simp add: drop_send_mr_def\<close>)

lemma drop_recv_mr_ok:
  assumes "verbs_accounting V live" and "step_ok live base (c, h)"
  shows "step_ok live base (drop_recv_mr V (c, h))"
proof (cases "recv_mr c")
  case (Some m)
  have nest: "nested c" and own: "owns c base (live h)" using assms(2) by (simp_all add: step_ok_def)
  have rel: "releases live (ibv_dereg_mr V m) (HMr m)" using assms(1) by (simp add: verbs_accounting_def)
  have "owns (c\<lparr>recv_mr := None\<rparr>) base (live (ibv_dereg_mr V m h))"
    by (rule drop_step [OF rel own, where r = "Mr (the (pd_ptr c)) m"])
      (use Some nest assms(2-) in \<open>auto simp: all_resource all_handle nested_def\<close>)
  moreover have "nested (c\<lparr>recv_mr := None\<rparr>)" using nest assms(2-) by (auto simp: nested_def)
  ultimately show ?thesis using Some by (simp add: drop_recv_mr_def step_ok_def)
qed (use assms in \<open>simp add: drop_recv_mr_def\<close>)

lemma drop_qp_ok:
  assumes "verbs_accounting V live" and "step_ok live base (c, h)"
  shows "step_ok live base (drop_qp V (c, h))"
proof (cases "qp_ptr c")
  case (Some q)
  have nest: "nested c" and own: "owns c base (live h)" using assms(2) by (simp_all add: step_ok_def)
  have rel: "releases live (ibv_destroy_qp V q) (HQp q)" using assms(1) by (simp add: verbs_accounting_def)
  have "owns (c\<lparr>qp_ptr := None\<rparr>) base (live (ibv_destroy_qp V q h))"
    by (rule drop_step [OF rel own, where r = "Qp (the (pd_ptr c)) (the (cq_ptr c)) q"])
      (use Some nest assms(2-) in \<open>auto simp: all_resource all_handle nested_def\<close>)
  moreover have "nested (c\<lparr>qp_ptr := None\<rparr>)" using nest assms(2-) by (auto simp: nested_def)
  ultimately show ?thesis using Some by (simp add: drop_qp_def step_ok_def)
qed (use assms in \<open>simp add: drop_qp_def\<close>)

lemma drop_cq_ok:
  assumes "verbs_accounting V live" and "step_ok live base (c, h)"
    and "qp_ptr c = None"
  shows "step_ok live base (drop_cq V (c, h))"
proof (cases "cq_ptr c")
  case (Some q)
  have nest: "nested c" and own: "owns c base (live h)" using assms(2) by (simp_all add: step_ok_def)
  have rel: "releases live (ibv_destroy_cq V q) (HCq q)" using assms(1) by (simp add: verbs_accounting_def)
  have "owns (c\<lparr>cq_ptr := None\<rparr>) base (live (ibv_destroy_cq V q h))"
    by (rule drop_step [OF rel own, where r = "Cq (the (ctx_ptr c)) q"])
      (use Some nest assms(2-) in \<open>auto simp: all_resource all_handle nested_def\<close>)
  moreover have "nested (c\<lparr>cq_ptr := None\<rparr>)" using nest assms(2-) by (auto simp: nested_def)
  ultimately show ?thesis using Some by (simp add: drop_cq_def step_ok_def)
qed (use assms in \<open>simp add: drop_cq_def\<close>)

lemma drop_pd_ok:
  assumes "verbs_accounting V live" and "step_ok live base (c, h)"
    and "qp_ptr c = None" "send_mr c = None" "recv_mr c = None" "cq_ptr c = None"
  shows "step_ok live base (drop_pd V (c, h))"
proof (cases "pd_ptr c")
  case (Some p)
  have nest: "nested c" and own: "owns c base (live h)" using assms(2) by (simp_all add: step_ok_def)
  have rel: "releases live (ibv_dealloc_pd V p) (HPd p)" using assms(1) by (simp add: verbs_accounting_def)
  have "owns (c\<lparr>pd_ptr := None\<rparr>) base (live (ibv_dealloc_pd V p h))"
    by (rule drop_step [OF rel own, where r = "Pd (the (ctx_ptr c)) p"])
      (use Some nest assms(2-) in \<open>auto simp: all_resource all_handle nested_def\<close>)
  moreover have "nested (c\<lparr>pd_ptr := None\<rparr>)" using nest assms(2-) by (auto simp: nested_def)
  ultimately show ?thesis using Some by (simp add: drop_pd_def step_ok_def)
qed (use assms in \<open>simp add: drop_pd_def\<close>)

lemma drop_ctx_ok:
  assumes "verbs_accounting V live" and "step_ok live base (c, h)"
    and "qp_ptr c = None" "send_mr c = None" "recv_mr c = None" "cq_ptr c = None" "pd_ptr c = None"
  shows "step_ok live base (drop_ctx V (c, h))"
proof (cases "ctx_ptr c")
  case (Some x)
  have nest: "nested c" and own: "owns c base (live h)" using assms(2) by (simp_all add: step_ok_def)
  have rel: "releases live (ibv_close_device V x) (HCtx x)" using assms(1) by (simp add: verbs_accounting_def)
  have "owns (c\<lparr>ctx_ptr := None\<rparr>) base (live (ibv_close_device V x h))"
    by (rule drop_step [OF rel own, where r = "DevCtx x"])
      (use Some nest assms(2-) in \<open>auto simp: all_resource all_handle nested_def\<close>)
  moreover have "nested (c\<lparr>ctx_ptr := None\<rparr>)" using nest assms(2-) by (auto simp: nested_def)
  ultimately show ?thesis using Some by (simp add: drop_ctx_def step_ok_def)
qed (use assms in \<open>simp add: drop_ctx_def\<close>)

text \<open>What each step leaves null.\<close>

lemma drop_ptrs:
  "send_mr (fst (drop_send_mr V ch)) = None"
  "recv_mr (fst (drop_recv_mr V ch)) = None" "send_mr (fst (drop_recv_mr V ch)) = send_mr (fst ch)"
  "qp_ptr (fst (drop_qp V ch)) = None" "send_mr (fst (drop_qp V ch)) = send_mr (fst ch)"
  "recv_mr (fst (drop_qp V ch)) = recv_mr (fst ch)"
  "cq_ptr (fst (drop_cq V ch)) = None" "qp_ptr (fst (drop_cq V ch)) = qp_ptr (fst ch)"
  "send_mr (fst (drop_cq V ch)) = send_mr (fst ch)" "recv_mr (fst (drop_cq V ch)) = recv_mr (fst ch)"
  "pd_ptr (fst (drop_pd V ch)) = None" "cq_ptr (fst (drop_pd V ch)) = cq_ptr (fst ch)"
  "qp_ptr (fst (drop_pd V ch)) = qp_ptr (fst ch)"
  "send_mr (fst (drop_pd V ch)) = send_mr (fst ch)" "recv_mr (fst (drop_pd V ch)) = recv_mr (fst ch)"
  "ctx_ptr (fst (drop_ctx V ch)) = None" "pd_ptr (fst (drop_ctx V ch)) = pd_ptr (fst ch)"
  "cq_ptr (fst (drop_ctx V ch)) = cq_ptr (fst ch)" "qp_ptr (fst (drop_ctx V ch)) = qp_ptr (fst ch)"
  "send_mr (fst (drop_ctx V ch)) = send_mr (fst ch)" "recv_mr (fst (drop_ctx V ch)) = recv_mr (fst ch)"
  by (auto simp: drop_send_mr_def drop_recv_mr_def drop_qp_def drop_cq_def drop_pd_def drop_ctx_def
      split: prod.splits option.splits)

definition all_null :: "RdmaContext \<Rightarrow> bool" where
  "all_null c \<longleftrightarrow> ctx_ptr c = None \<and> pd_ptr c = None \<and> cq_ptr c = None \<and> qp_ptr c = None
     \<and> send_mr c = None \<and> recv_mr c = None"

lemma rdma_destroy_null: "all_null (fst (rdma_destroy V c h))"
  by (simp add: rdma_destroy_def all_null_def drop_ptrs)

lemma all_null_owned: "all_null c \<Longrightarrow> owned c = {}"
  by (auto simp: all_null_def owned_def elim!: owns_res.elims)

lemma rdma_destroy_releases:
  assumes acc: "verbs_accounting V live" and "nested c" and "owns c base (live h)"
  shows "live (snd (rdma_destroy V c h)) = base"
proof -
  let ?s1 = "drop_send_mr V (c, h)"
  let ?s2 = "drop_recv_mr V ?s1"
  let ?s3 = "drop_qp V ?s2"
  let ?s4 = "drop_cq V ?s3"
  let ?s5 = "drop_pd V ?s4"
  have "step_ok live base (c, h)" using assms by (simp add: step_ok_def)
  then have "step_ok live base ?s1" by (rule drop_send_mr_ok [OF acc])
  then have "step_ok live base ?s2" by (metis drop_recv_mr_ok [OF acc] surj_pair)
  then have "step_ok live base ?s3" by (metis drop_qp_ok [OF acc] surj_pair)
  then have "step_ok live base ?s4"
    using drop_cq_ok [OF acc, of base "fst ?s3" "snd ?s3"] by (simp add: drop_ptrs)
  then have "step_ok live base ?s5"
    using drop_pd_ok [OF acc, of base "fst ?s4" "snd ?s4"] by (simp add: drop_ptrs)
  then have "step_ok live base (drop_ctx V ?s5)"
    using drop_ctx_ok [OF acc, of base "fst ?s5" "snd ?s5"] by (simp add: drop_ptrs)
  then show ?thesis
    using all_null_owned [OF rdma_destroy_null [of V c h]]
    by (simp add: rdma_destroy_def step_ok_def owns_def)
qed

subsection \<open>Initialisation\<close>

text \<open>What \<open>init\<close> promises of its result: a failed one leaves nothing behind.\<close>

definition init_post :: "('n host \<Rightarrow> resource set) \<Rightarrow> resource set \<Rightarrow> bool \<times> RdmaContext \<times> 'n host \<Rightarrow> bool" where
  "init_post live base = (\<lambda>(ok, c, h).
     if ok then step_ok live base (c, h) \<and> ctx_ptr c \<noteq> None \<and> pd_ptr c \<noteq> None \<and> cq_ptr c \<noteq> None
       \<and> qp_ptr c \<noteq> None \<and> send_mr c \<noteq> None \<and> recv_mr c \<noteq> None
     else all_null c \<and> live h = base)"

lemma fail_destroy_post:
  assumes "verbs_accounting V live" and "step_ok live base (c, h)"
  shows "init_post live base (fail_destroy V c h)"
  using rdma_destroy_releases [OF assms(1), of c base h] rdma_destroy_null [of V c h] assms(2)
  by (simp add: fail_destroy_def init_post_def step_ok_def prod.case_eq_if)

text \<open>One allocation of \<open>init\<close>: it either fails and changes nothing, or the context grows by it.\<close>

lemma alloc_step:
  assumes acq: "acquires live f mk hnd" and ok: "step_ok live base (c, h)"
    and none: "\<And>h'. step_ok live base (c, h') \<Longrightarrow> Q (kn h')"
    and some: "\<And>y h'. step_ok live base (upd y, h') \<Longrightarrow> Q (ks y h')"
    and res: "\<And>y. \<forall>r. owns_res (upd y) r \<longleftrightarrow> owns_res c r \<or> r = mk y"
    and has: "\<And>y. \<forall>x. has_handle (upd y) x \<longleftrightarrow> has_handle c x \<or> x = hnd y"
    and nest: "\<And>y. nested c \<Longrightarrow> \<forall>r. owns_res c r \<longrightarrow> hnd y \<notin> mentions r \<Longrightarrow> nested (upd y)"
  shows "Q (case f h of (None, h) \<Rightarrow> kn h | (Some y, h) \<Rightarrow> ks y h)"
proof (cases "f h")
  case (Pair yo h')
  have live: "live h = base \<union> owned c" and far: "\<forall>r\<in>base. \<forall>x\<in>mentions r. \<not> has_handle c x"
    and "nested c"
    using ok by (simp_all add: step_ok_def owns_def)
  show ?thesis
  proof (cases yo)
    case None
    then have "live h' = live h" using acq [unfolded acquires_def, rule_format, of h] Pair by simp
    then have "step_ok live base (c, h')" using ok by (simp add: step_ok_def)
    with Pair None none show ?thesis by simp
  next
    case (Some y)
    have "live h' = insert (mk y) (live h) \<and> (\<forall>r\<in>live h. hnd y \<notin> mentions r)"
      using acq [unfolded acquires_def, rule_format, of h] Pair Some by simp
    then have *: "live h' = insert (mk y) (live h)" "\<forall>r\<in>live h. hnd y \<notin> mentions r" by simp_all
    then have "live h' = base \<union> owned (upd y)" using live res [of y] by (auto simp: owned_def)
    moreover have "\<forall>r\<in>base. \<forall>x\<in>mentions r. \<not> has_handle (upd y) x"
      using far has [of y] * live by auto
    moreover have "nested (upd y)" using nest [OF \<open>nested c\<close>, of y] * live by (auto simp: owned_def)
    ultimately have "step_ok live base (upd y, h')" by (simp add: step_ok_def owns_def)
    with Pair Some some show ?thesis by simp
  qed
qed

lemma set_null_same:
  "pd_ptr c = None \<Longrightarrow> c\<lparr>pd_ptr := None\<rparr> = c" "cq_ptr c = None \<Longrightarrow> c\<lparr>cq_ptr := None\<rparr> = c"
  "qp_ptr c = None \<Longrightarrow> c\<lparr>qp_ptr := None\<rparr> = c" "send_mr c = None \<Longrightarrow> c\<lparr>send_mr := None\<rparr> = c"
  "recv_mr c = None \<Longrightarrow> c\<lparr>recv_mr := None\<rparr> = c" "ctx_ptr c = None \<Longrightarrow> c\<lparr>ctx_ptr := None\<rparr> = c"
  for c :: RdmaContext
  by simp_all

lemma init_opened_post:
  assumes acc: "verbs_accounting V live" and ok: "step_ok live base (c, h)" and x: "ctx_ptr c = Some x"
    and rest: "pd_ptr c = None" "cq_ptr c = None" "qp_ptr c = None" "send_mr c = None" "recv_mr c = None"
  shows "init_post live base (init_opened V x c h)"
proof -
  have acqs: "acquires live (ibv_alloc_pd V x) (Pd x) HPd" "\<And>n. acquires live (ibv_create_cq V x n) (Cq x) HCq"
    "\<And>p at. acquires live (ibv_create_qp V p at) (Qp p (send_cq at)) HQp"
    "\<And>p a n fl. acquires live (ibv_reg_mr V p a n fl) (Mr p) HMr"
    and modify: "\<And>q at mask h. live (snd (ibv_modify_qp V q at mask h)) = live h"
    using acc by (simp_all add: verbs_accounting_def)
  note side = all_resource all_handle nested_def x rest init_qp_attr_def
  note facts = fail_destroy_post [OF acc] set_null_same rest
  have modify_stage: "init_post live base
      (case ibv_modify_qp V qp at mask h of (ret, h) \<Rightarrow> if ret \<noteq> 0 then fail_destroy V c5 h else (True, c5, h))"
    if "step_ok live base (c5, h)" and "ctx_ptr c5 \<noteq> None" "pd_ptr c5 \<noteq> None" "cq_ptr c5 \<noteq> None"
      "qp_ptr c5 \<noteq> None" "send_mr c5 \<noteq> None" "recv_mr c5 \<noteq> None" for qp at mask h c5
  proof (cases "ibv_modify_qp V qp at mask h")
    case (Pair ret h')
    then have "step_ok live base (c5, h')" using that(1) modify [of qp at mask h] by (simp add: step_ok_def)
    then show ?thesis using that(2-) by (simp add: Pair facts) (simp add: init_post_def)
  qed
  show ?thesis
    unfolding init_opened_def Let_def
  proof (rule alloc_step [OF acqs(1) ok, where upd = "\<lambda>p. c\<lparr>pd_ptr := Some p\<rparr>"], goal_cases)
    case (2 p h1)
    show ?case
    proof (rule alloc_step [OF acqs(2) 2, where upd = "\<lambda>q. c\<lparr>pd_ptr := Some p, cq_ptr := Some q\<rparr>"], goal_cases)
      case (2 q h2)
      show ?case
      proof (rule alloc_step [OF acqs(3) 2, where upd = "\<lambda>qp. c\<lparr>pd_ptr := Some p, cq_ptr := Some q, qp_ptr := Some qp\<rparr>"],
          goal_cases)
        case (2 qp h3)
        show ?case
        proof (rule alloc_step [OF acqs(4) 2, where upd = "\<lambda>sm. c\<lparr>pd_ptr := Some p, cq_ptr := Some q,
              qp_ptr := Some qp, send_mr := Some sm\<rparr>"], goal_cases)
          case (2 sm h4)
          show ?case
          proof (rule alloc_step [OF acqs(4) 2, where upd = "\<lambda>rm. c\<lparr>pd_ptr := Some p, cq_ptr := Some q,
                qp_ptr := Some qp, send_mr := Some sm, recv_mr := Some rm\<rparr>"], goal_cases)
            case (2 rm h5)
            then show ?case by (rule modify_stage) (simp_all add: x)
          qed (auto simp: facts side)
        qed (auto simp: facts side)
      qed (auto simp: facts side)
    qed (auto simp: facts side)
  qed (auto simp: facts side)
qed

lemma rdma_init_post:
  assumes acc: "verbs_accounting V live" and null: "all_null c" and dl: "DevList \<notin> live h"
    and some: "fst (ibv_get_device_list V h) \<noteq> Some []"
  shows "init_post live (live h) (rdma_init V device_name c h)"
proof (cases "ibv_get_device_list V h")
  case (Pair l h1)
  have same: "init_post live (live h) (False, c', h')" if "live h' = live h" "all_null c'" for c' h'
    using that by (simp add: init_post_def)
  show ?thesis
  proof (cases l)
    case None
    have "live h1 = live h"
      using acc [unfolded verbs_accounting_def, THEN conjunct1, rule_format, of h] Pair None by simp
    with Pair None null show ?thesis by (simp add: rdma_init_def same)
  next
    case (Some devs)
    let ?h = "ibv_free_device_list V h1"
    have "live h1 = insert DevList (live h)"
      using acc [unfolded verbs_accounting_def, THEN conjunct1, rule_format, of h] Pair Some by simp
    moreover have "live ?h = live h1 - {DevList}" using acc by (simp add: verbs_accounting_def)
    ultimately have live: "live ?h = live h" using dl by simp
    have ne: "devs \<noteq> []" using some Pair Some by simp
    show ?thesis
    proof (cases "pick_device V device_name devs")
      case None
      then show ?thesis using Pair Some ne live null by (simp add: rdma_init_def same)
    next
      case (Some d)
      have ok: "step_ok live (live h) (c, ?h)"
        using null live all_null_owned [OF null]
        by (auto simp: step_ok_def owns_def nested_def all_null_def elim!: has_handle.elims)
      have acq: "acquires live (ibv_open_device V d) DevCtx HCtx" using acc by (simp add: verbs_accounting_def)
      have "init_post live (live h) (case ibv_open_device V d ?h of (None, h) \<Rightarrow> (False, c\<lparr>ctx_ptr := None\<rparr>, h)
              | (Some x, h) \<Rightarrow> init_opened V x (c\<lparr>ctx_ptr := Some x\<rparr>) h)"
      proof (rule alloc_step [OF acq ok, where upd = "\<lambda>x. c\<lparr>ctx_ptr := Some x\<rparr>"], goal_cases)
        case (1 h')
        then have "live h' = live h" using all_null_owned [OF null] by (simp add: step_ok_def owns_def)
        with null show ?case by (simp add: same all_null_def)
      next
        case (2 x h')
        with null show ?case by (intro init_opened_post [OF acc 2]) (simp_all add: all_null_def)
      qed (use null in \<open>auto simp: all_resource all_handle nested_def all_null_def\<close>)
      then show ?thesis using Pair Some ne \<open>l = Some devs\<close> by (simp add: rdma_init_def)
    qed
  qed
qed

lemma default_null: "all_null (RdmaContext_default sbuf rbuf)"
  by (simp add: RdmaContext_default_def all_null_def)

lemma rdma_destroy_null_id: "all_null c \<Longrightarrow> rdma_destroy V c h = (c, h)"
  by (simp add: rdma_destroy_def all_null_def drop_send_mr_def drop_recv_mr_def drop_qp_def drop_cq_def
      drop_pd_def drop_ctx_def)

subsection \<open>Queue pair states\<close>

text \<open>The transitions of a reliable-connected queue pair and the attributes each requires (the
table of \<open>ibv_modify_qp\<close>, the states this code uses).\<close>

fun required_mask :: "qp_state \<Rightarrow> qp_state \<Rightarrow> qp_mask set option" where
  "required_mask QPS_RESET QPS_INIT = Some {M_STATE, M_PKEY_INDEX, M_PORT, M_ACCESS_FLAGS}"
| "required_mask QPS_INIT QPS_INIT = Some {M_STATE}"
| "required_mask QPS_INIT QPS_RTR = Some {M_STATE, M_AV, M_PATH_MTU, M_DEST_QPN, M_RQ_PSN,
     M_MAX_DEST_RD_ATOMIC, M_MIN_RNR_TIMER}"
| "required_mask QPS_RTR QPS_RTS = Some {M_STATE, M_SQ_PSN, M_TIMEOUT, M_RETRY_CNT, M_RNR_RETRY,
     M_MAX_QP_RD_ATOMIC}"
| "required_mask QPS_RTS QPS_RTS = Some {M_STATE}"
| "required_mask s QPS_RESET = Some {M_STATE}"
| "required_mask s s' = None"

text \<open>A device that performs exactly the documented transitions.\<close>

definition verbs_qp_table :: "'n verbs \<Rightarrow> ('n host \<Rightarrow> ibv_qp \<Rightarrow> qp_state) \<Rightarrow> bool" where
  "verbs_qp_table V qst \<longleftrightarrow>
     (\<forall>qp at msk h. case ibv_modify_qp V qp at msk h of (ret, h') \<Rightarrow>
        (if (\<exists>M. required_mask (qst h qp) (attr_state at) = Some M \<and> M \<subseteq> set msk)
         then ret = 0 \<and> qst h' = (qst h)(qp := attr_state at)
         else ret \<noteq> 0 \<and> qst h' = qst h))
     \<and> (\<forall>p at h qp h'. ibv_create_qp V p at h = (Some qp, h') \<longrightarrow> qst h' qp = QPS_RESET)
     \<and> (\<forall>p a n fl h. qst (snd (ibv_reg_mr V p a n fl h)) = qst h)"

lemma modify_qp_table:
  assumes "verbs_qp_table V qst" and "ibv_modify_qp V qp at msk h = (ret, h')"
  shows "if (\<exists>M. required_mask (qst h qp) (attr_state at) = Some M \<and> M \<subseteq> set msk)
         then ret = 0 \<and> qst h' = (qst h)(qp := attr_state at) else ret \<noteq> 0 \<and> qst h' = qst h"
  using assms(1) [unfolded verbs_qp_table_def, THEN conjunct1, rule_format, of h qp at msk] assms(2)
  by simp

lemma rdma_init_state:
  assumes tab: "verbs_qp_table V qst" and ok: "rdma_init V device_name c h = (True, c', h')"
  shows "\<exists>qp. qp_ptr c' = Some qp \<and> qst h' qp = QPS_INIT"
proof -
  have created: "qst h' qp = QPS_RESET" if "ibv_create_qp V p at h = (Some qp, h')" for p at h qp h'
    using tab that by (simp add: verbs_qp_table_def)
  have reg: "qst h' = qst h" if "ibv_reg_mr V p a n fl h = (r, h')" for p a n fl h r h'
    using tab that unfolding verbs_qp_table_def by (metis snd_conv)
  have init: "ret = 0 \<Longrightarrow> qst h' qp = QPS_INIT"
    if "ibv_modify_qp V qp (init_attr c) init_mask h = (ret, h')" for qp c h ret h'
    using modify_qp_table [OF tab that] by (auto simp: init_attr_def split: if_splits)
  show ?thesis
    using ok
    by (auto simp: rdma_init_def init_opened_def fail_destroy_def Let_def
        split: prod.splits option.splits if_splits dest: init)
qed

subsection \<open>Polling\<close>

text \<open>The result of the first \<open>n + 1\<close> calls of \<open>ibv_poll_cq\<close>, as long as they find the queue empty.\<close>

fun nth_poll :: "'n verbs \<Rightarrow> nat \<Rightarrow> nat \<Rightarrow> 'n host \<Rightarrow> int \<times> ibv_wc \<times> 'n host" where
  "nth_poll V cq 0 h = ibv_poll_cq V cq h"
| "nth_poll V cq (Suc n) h =
     (case ibv_poll_cq V cq h of (ret, wc, h') \<Rightarrow> if ret = 0 then nth_poll V cq n h' else (ret, wc, h'))"

lemma poll_loop_Some: "fst (nth_poll V cq n h) \<noteq> 0 \<Longrightarrow> poll_loop V cq h = Some (nth_poll V cq n h)"
proof (induction n arbitrary: h)
  case 0
  then show ?case by (subst poll_loop.simps) (auto split: prod.split)
next
  case (Suc n)
  then show ?case by (subst poll_loop.simps) (auto split: prod.splits)
qed

lemma poll_loop_nth:
  assumes "poll_loop V cq h = Some r"
  shows "\<exists>n. nth_poll V cq n h = r \<and> fst r \<noteq> 0"
proof (rule poll_loop.raw_induct [where P = "\<lambda>V cq h r. \<exists>n. nth_poll V cq n h = r \<and> fst r \<noteq> 0", OF _ assms],
    goal_cases)
  case (1 rec V cq h r)
  obtain ret wc h' where p: "ibv_poll_cq V cq h = (ret, wc, h')" by (cases "ibv_poll_cq V cq h")
  show ?case
  proof (cases "ret = 0")
    case True
    then have "rec V cq h' = Some r" using 1(2) p by simp
    from 1(1) [OF this] obtain n where "nth_poll V cq n h' = r \<and> fst r \<noteq> 0" by blast
    then show ?thesis by (intro exI [of _ "Suc n"]) (simp add: p True)
  next
    case False
    then have "r = (ret, wc, h')" using 1(2) p by simp
    then show ?thesis using False by (intro exI [of _ 0]) (simp add: p)
  qed
qed

subsection \<open>The one-sided data path\<close>

text \<open>What a completed request has done: a read has put the peer's bytes into the local buffer, a
write the local bytes into the peer's memory, a fetch-and-add has added to the peer's counter and
stored its old value locally.\<close>

definition wr_effect :: "ibv_send_wr \<Rightarrow> mem \<times> mem \<Rightarrow> mem \<times> mem" where
  "wr_effect wr = (\<lambda>(local, remote).
     let la = sge_addr (wr_sge wr); n = unat (sge_length (wr_sge wr)); ra = wr_remote_addr wr in
     case wr_op wr of
       WR_SEND \<Rightarrow> (local, remote)
     | WR_RDMA_READ \<Rightarrow> (store local la (load remote ra n), remote)
     | WR_RDMA_WRITE \<Rightarrow> (local, store remote ra (load local la n))
     | WR_FETCH_AND_ADD \<Rightarrow> (store local la (load remote ra 8), add_u64 remote ra (wr_compare_add wr)))"

text \<open>A request within the exported region \<open>[base, base + rlen)\<close> under its keys.\<close>

definition wr_valid :: "u32 \<Rightarrow> u32 set \<Rightarrow> u64 \<Rightarrow> nat \<Rightarrow> ibv_send_wr \<Rightarrow> bool" where
  "wr_valid rk lks base rlen wr \<longleftrightarrow>
     wr_signaled wr \<and> wr_rkey wr = rk \<and> sge_lkey (wr_sge wr) \<in> lks \<and> wr_op wr \<noteq> WR_SEND
     \<and> unat (wr_remote_addr wr - base) + unat (sge_length (wr_sge wr)) \<le> rlen
     \<and> (wr_op wr = WR_FETCH_AND_ADD \<longrightarrow> sge_length (wr_sge wr) = 8 \<and> 8 dvd unat (wr_remote_addr wr))"

text \<open>The process's own stores reach neither the peer nor the queue pair. Posted on an idle queue pair, a valid request is either refused, which changes nothing, or it
completes after finitely many polls; a successful completion means the effect has happened and
the queue pair is idle again, a failed one leaves it open whether the peer's memory changed.\<close>

definition completes :: "('n host \<Rightarrow> mem) \<Rightarrow> ('n host \<Rightarrow> bool) \<Rightarrow> ibv_send_wr \<Rightarrow> 'n host
    \<Rightarrow> int \<times> ibv_wc \<times> 'n host \<Rightarrow> bool" where
  "completes remote idle wr h = (\<lambda>(ret, wc, h').
     ret \<noteq> 0 \<and> (let (m, r) = wr_effect wr (host_mem h, remote h) in
       if 0 < ret \<and> wc_stat wc = WC_SUCCESS
       then host_mem h' = m \<and> remote h' = r \<and> idle h' \<and> wc_op wc \<noteq> WC_RECV
       else remote h' = r \<or> remote h' = remote h))"

definition verbs_data_path :: "'n verbs \<Rightarrow> ibv_qp \<Rightarrow> nat \<Rightarrow> u32 \<Rightarrow> u32 set \<Rightarrow> u64 \<Rightarrow> nat
    \<Rightarrow> ('n host \<Rightarrow> mem) \<Rightarrow> ('n host \<Rightarrow> bool) \<Rightarrow> bool" where
  "verbs_data_path V qp cq rk lks base rlen remote idle \<longleftrightarrow>
     (\<forall>h m. remote (h\<lparr>host_mem := m\<rparr>) = remote h \<and> idle (h\<lparr>host_mem := m\<rparr>) = idle h)
     \<and> (\<forall>h wr. idle h \<and> wr_valid rk lks base rlen wr \<longrightarrow>
        (case ibv_post_send V qp wr h of (ret, h1) \<Rightarrow>
           if ret \<noteq> 0 then host_mem h1 = host_mem h \<and> remote h1 = remote h
           else \<exists>n. completes remote idle wr h (nth_poll V cq n h1)))"

text \<open>A link on which no request fails.\<close>

definition verbs_never_fails :: "'n verbs \<Rightarrow> ibv_qp \<Rightarrow> nat \<Rightarrow> u32 \<Rightarrow> u32 set \<Rightarrow> u64 \<Rightarrow> nat
    \<Rightarrow> ('n host \<Rightarrow> bool) \<Rightarrow> bool" where
  "verbs_never_fails V qp cq rk lks base rlen idle \<longleftrightarrow>
     (\<forall>h wr. idle h \<and> wr_valid rk lks base rlen wr \<longrightarrow>
        (case ibv_post_send V qp wr h of (ret, h1) \<Rightarrow>
           ret = 0 \<and> (\<forall>n. case nth_poll V cq n h1 of (ret, wc, h') \<Rightarrow>
              ret \<noteq> 0 \<longrightarrow> 0 < ret \<and> wc_stat wc = WC_SUCCESS)))"

text \<open>
  The one path on which \<open>init\<close> leaks: when the device list is allocated but empty, it returns
  false without \<open>ibv_free_device_list\<close>, so the list stays allocated.
\<close>
lemma rdma_init_leaks_empty_device_list:
  assumes "verbs_accounting V live" and "fst (ibv_get_device_list V h) = Some []"
    and "rdma_init V device_name c h = (ok, c', h')"
  shows "\<not> ok \<and> c' = c \<and> live h' = insert DevList (live h)"
proof -
  obtain h1 where list: "ibv_get_device_list V h = (Some [], h1)"
    using assms(2) by (cases "ibv_get_device_list V h") simp
  have "live h1 = insert DevList (live h)"
    using assms(1) [unfolded verbs_accounting_def, THEN conjunct1, rule_format, of h] list by simp
  then show ?thesis using assms(3) list by (auto simp: rdma_init_def)
qed

end
