(* ===== verification/OneSided.thy ===== *)
theory OneSided
  imports RdmaLaws "HOL-Library.Monad_Syntax"
begin

section \<open>The one-sided client (\<open>one_sided_get\<close>, \<open>one_sided_set\<close>)\<close>

text \<open>
  Models the remote table operations of \<open>src/client/rdma_client.cpp\<close>: \<open>fnv1a\<close>, \<open>slot_key_equals\<close>,
  \<open>prepare_slot\<close>, \<open>one_sided_get\<close> and \<open>one_sided_set\<close>. They probe the server's exported array with
  RDMA reads into the local buffer at address \<open>local_slot\<close>, and write whole slots back. A result is
  \<open>None\<close> when a pointer of the context is null or a poll never ends; an error string is \<open>Inl\<close>. The
  lemmas connect each loop with the linear-probing search of \<open>OpenAddressing\<close> on the array that
  lies in the peer's memory, \<open>table_at (remote h) base\<close>.
\<close>

subsection \<open>Hash, key comparison, slot image\<close>

fun fnv1a_loop :: "u32 \<Rightarrow> string \<Rightarrow> u32" where
  "fnv1a_loop hash [] = hash"
| "fnv1a_loop hash (c # key) = fnv1a_loop ((hash XOR of_char c) * 16777619) key"

definition fnv1a :: "string \<Rightarrow> nat" where
  "fnv1a key = unat (fnv1a_loop 2166136261 key) AND (RDMA_NUM_SLOTS - 1)"

text \<open>The loop that measures the stored key, over the array's bytes.\<close>

fun slot_len_loop :: "string \<Rightarrow> nat" where
  "slot_len_loop [] = 0"
| "slot_len_loop (c # skey) = (if c \<noteq> NUL then Suc (slot_len_loop skey) else 0)"

definition slot_key_equals :: "string \<Rightarrow> string \<Rightarrow> bool" where
  "slot_key_equals skey key \<longleftrightarrow>
     slot_len_loop (take RDMA_KEY_MAX skey) = length key \<and> take (length key) skey = key"

text \<open>\<open>prepare_slot\<close> writes into the buffer at address \<open>slot\<close>.\<close>

definition prepare_slot :: "mem \<Rightarrow> u64 \<Rightarrow> string \<Rightarrow> string \<Rightarrow> u64 \<Rightarrow> string + mem" where
  "prepare_slot m slot key value count =
     (if length key \<ge> RDMA_KEY_MAX then Inl ''key too long''
      else if length value \<ge> RDMA_VALUE_MAX then Inl ''value too long''
      else
        let m = store m slot (replicate slot_size NUL);
            m = store m slot [CHR 0x01];
            m = store m (slot + 8) (u64_bytes count);
            m = store m (slot + 16) key;
            m = store m (slot + 128) value
        in Inr m)"

subsection \<open>GET\<close>

function get_probe :: "'n verbs \<Rightarrow> QpInfo \<Rightarrow> u64 \<Rightarrow> u32 \<Rightarrow> string \<Rightarrow> bool \<Rightarrow> u64 \<Rightarrow> u32 \<Rightarrow> nat
    \<Rightarrow> RdmaContext \<Rightarrow> 'n host \<Rightarrow> (bool \<times> RdmaContext \<times> 'n host) option" where
  "get_probe V server_info local_slot slot_lkey key simulate_metadata atomic_result atomic_lkey i c h =
     (if i < RDMA_NUM_SLOTS then
        let idx = (fnv1a key + i) AND (RDMA_NUM_SLOTS - 1);
            offset = of_nat idx * of_nat slot_size;
            addr = qi_addr server_info + offset
        in do {
          (posted, h) \<leftarrow> post_rdma_read V addr (qi_rkey server_info) local_slot (of_nat slot_size) slot_lkey c h;
          if \<not> posted then Some (False, c, h)
          else do {
            (ok, c, h) \<leftarrow> poll_completion V c h;
            if \<not> ok then Some (False, c, h)
            else
              let slot = slot_at (host_mem h) local_slot in
              if occupied slot = 0 then Some (False, c, h)
              else if occupied slot = 2 then
                get_probe V server_info local_slot slot_lkey key simulate_metadata atomic_result atomic_lkey (i + 1) c h
              else if slot_key_equals (slot_key slot) key then
                (if simulate_metadata then do {
                   (posted, h) \<leftarrow> post_fetch_and_add V (addr + of_nat access_count_offset) (qi_rkey server_info)
                                  atomic_result 1 atomic_lkey c h;
                   if \<not> posted then Some (False, c, h)
                   else do {
                     (ok, c, h) \<leftarrow> poll_completion V c h;
                     if \<not> ok then Some (False, c, h) else Some (True, c, h)
                   }
                 }
                 else Some (True, c, h))
              else get_probe V server_info local_slot slot_lkey key simulate_metadata atomic_result atomic_lkey (i + 1) c h
          }
        }
      else Some (False, c, h))"
  by pat_completeness auto
termination
  by (relation "measure (\<lambda>(V, si, ls, sl, k, sm, ar, al, i, c, h). RDMA_NUM_SLOTS - i)") auto

definition one_sided_get :: "'n verbs \<Rightarrow> RdmaContext \<Rightarrow> QpInfo \<Rightarrow> u64 \<Rightarrow> u32 \<Rightarrow> string \<Rightarrow> bool \<Rightarrow> u64 \<Rightarrow> u32
    \<Rightarrow> 'n host \<Rightarrow> (bool \<times> RdmaContext \<times> 'n host) option" where
  "one_sided_get V c server_info local_slot slot_lkey key simulate_metadata atomic_result atomic_lkey h =
     get_probe V server_info local_slot slot_lkey key simulate_metadata atomic_result atomic_lkey 0 c h"

subsection \<open>SET\<close>

definition write_back :: "'n verbs \<Rightarrow> QpInfo \<Rightarrow> u64 \<Rightarrow> u32 \<Rightarrow> string \<Rightarrow> string \<Rightarrow> u64 \<Rightarrow> u64
    \<Rightarrow> RdmaContext \<Rightarrow> 'n host \<Rightarrow> ((string + unit) \<times> RdmaContext \<times> 'n host) option" where
  "write_back V server_info local_slot slot_lkey key value count target_addr c h =
     (case prepare_slot (host_mem h) local_slot key value count of
        Inl error \<Rightarrow> Some (Inl error, c, h)
      | Inr m \<Rightarrow>
          let h = h\<lparr>host_mem := m\<rparr> in
          do {
            (posted, h) \<leftarrow> post_rdma_write V target_addr (qi_rkey server_info) local_slot (of_nat slot_size) slot_lkey c h;
            if \<not> posted then Some (Inl ''RDMA WRITE failed'', c, h)
            else do {
              (ok, c, h) \<leftarrow> poll_completion V c h;
              if \<not> ok then Some (Inl ''RDMA WRITE completion failed'', c, h) else Some (Inr (), c, h)
            }
          })"

function set_probe :: "'n verbs \<Rightarrow> QpInfo \<Rightarrow> u64 \<Rightarrow> u32 \<Rightarrow> string \<Rightarrow> string \<Rightarrow> nat \<Rightarrow> nat \<Rightarrow> bool \<Rightarrow> u64
    \<Rightarrow> RdmaContext \<Rightarrow> 'n host \<Rightarrow> ((string + unit) \<times> RdmaContext \<times> 'n host) option" where
  "set_probe V server_info local_slot slot_lkey key value start i saw_tombstone first_tombstone_addr c h =
     (if i < RDMA_NUM_SLOTS then
        let idx = (start + i) AND (RDMA_NUM_SLOTS - 1);
            offset = of_nat idx * of_nat slot_size;
            addr = qi_addr server_info + offset
        in do {
          (posted, h) \<leftarrow> post_rdma_read V addr (qi_rkey server_info) local_slot (of_nat slot_size) slot_lkey c h;
          if \<not> posted then Some (Inl ''RDMA READ failed while probing'', c, h)
          else do {
            (ok, c, h) \<leftarrow> poll_completion V c h;
            if \<not> ok then Some (Inl ''RDMA READ completion failed while probing'', c, h)
            else
              let slot = slot_at (host_mem h) local_slot in
              if occupied slot = 1 \<and> slot_key_equals (slot_key slot) key then
                write_back V server_info local_slot slot_lkey key value (access_count slot) addr c h
              else if occupied slot = 2 \<and> \<not> saw_tombstone then
                set_probe V server_info local_slot slot_lkey key value start (i + 1) True addr c h
              else if occupied slot = 0 then
                write_back V server_info local_slot slot_lkey key value 0
                  (if saw_tombstone then first_tombstone_addr else addr) c h
              else set_probe V server_info local_slot slot_lkey key value start (i + 1) saw_tombstone first_tombstone_addr c h
          }
        }
      else if saw_tombstone then
        write_back V server_info local_slot slot_lkey key value 0 first_tombstone_addr c h
      else Some (Inl ''remote table full'', c, h))"
  by pat_completeness auto
termination
  by (relation "measure (\<lambda>(V, si, ls, sl, k, v, s, i, st, fa, c, h). RDMA_NUM_SLOTS - i)") auto

definition one_sided_set :: "'n verbs \<Rightarrow> RdmaContext \<Rightarrow> QpInfo \<Rightarrow> u64 \<Rightarrow> u32 \<Rightarrow> string \<Rightarrow> string
    \<Rightarrow> 'n host \<Rightarrow> ((string + unit) \<times> RdmaContext \<times> 'n host) option" where
  "one_sided_set V c server_info local_slot slot_lkey key value h =
     (if length key \<ge> RDMA_KEY_MAX then Some (Inl ''key too long'', c, h)
      else if length value \<ge> RDMA_VALUE_MAX then Some (Inl ''value too long'', c, h)
      else set_probe V server_info local_slot slot_lkey key value (fnv1a key) 0 False 0 c h)"

declare get_probe.simps [simp del] set_probe.simps [simp del]

subsection \<open>The helpers agree with the server's\<close>

lemma fnv1a_loop_eq: "fnv1a_loop hash key = fnv_loop hash key"
  by (induction key arbitrary: hash) simp_all

lemma fnv1a_slot_index: "fnv1a key = slot_index key"
  by (simp add: fnv1a_def slot_index_def fnv1a_loop_eq)

lemma slot_len_loop_c_str: "slot_len_loop bs = length (c_str bs)"
  by (induction bs) (simp_all add: c_str_def)

lemma take_c_str: "take (length (c_str bs)) bs = c_str bs"
  unfolding c_str_def by (rule takeWhile_eq_take [symmetric])

lemma slot_key_equals_iff:
  "length skey = RDMA_KEY_MAX \<Longrightarrow> slot_key_equals skey key \<longleftrightarrow> c_str skey = key"
proof -
  assume "length skey = RDMA_KEY_MAX"
  then have "slot_key_equals skey key \<longleftrightarrow> length (c_str skey) = length key \<and> take (length key) skey = key"
    by (simp add: slot_key_equals_def slot_len_loop_c_str)
  also have "\<dots> \<longleftrightarrow> c_str skey = key" by (metis take_c_str)
  finally show ?thesis .
qed

lemma slot_key_equals_ok: "slot_ok s \<Longrightarrow> slot_key_equals (slot_key s) key \<longleftrightarrow> slot_key_of s = key"
  by (simp add: slot_key_equals_iff slot_ok_def slot_key_of_def)

text \<open>The slot image a SET writes.\<close>

definition prepared :: "string \<Rightarrow> string \<Rightarrow> u64 \<Rightarrow> RdmaSlot" where
  "prepared key value count = \<lparr>occupied = 1, slot_pad = replicate 7 NUL, access_count = count,
     slot_key = key @ replicate (RDMA_KEY_MAX - length key) NUL,
     slot_value = value @ replicate (RDMA_VALUE_MAX - length value) NUL\<rparr>"

lemma prepare_slot_load:
  assumes "fits key value"
  obtains m' where "prepare_slot m slot key value count = Inr m'"
    and "load m' slot slot_size = encode_slot (prepared key value count)"
proof -
  let ?m0 = "store m slot (replicate 1024 NUL)"
  let ?m1 = "store ?m0 slot [CHR 0x01]"
  let ?m2 = "store ?m1 (slot + 8) (u64_bytes count)"
  let ?m3 = "store ?m2 (slot + 16) key"
  let ?m4 = "store ?m3 (slot + 128) value"
  have k: "length key < 112" and v: "length value < 896" using assms by (simp_all add: fits_def rdma_sizes)
  have s: "slot_size = 1024" by (rule slot_size_def)
  have in_slot: "load (store m (a + of_nat k) bs) a 1024
      = take k (load m a 1024) @ bs @ drop (k + length bs) (load m a 1024)"
    if "k + length bs \<le> 1024" for m a k bs
    by (rule load_store_inside) (use that in simp_all)
  have l0: "load ?m0 slot 1024 = replicate 1024 NUL" by (rule load_store_same) simp_all
  have l1: "load ?m1 slot 1024 = CHR 0x01 # replicate 1023 NUL"
    using in_slot [of 0 "[CHR 0x01]" ?m0 slot] by (simp add: l0)
  have l2: "load ?m2 slot 1024 = CHR 0x01 # replicate 7 NUL @ u64_bytes count @ replicate 1008 NUL"
    using in_slot [of 8 "u64_bytes count" ?m1 slot] by (simp add: l1)
  have drop_plus: "drop (n + k) xs = drop k (drop n xs)" for n k and xs :: string
    by (simp add: add.commute)
  have pad: "replicate (1008 - length key) NUL = replicate (112 - length key) NUL @ replicate 896 NUL"
    using k by (simp flip: replicate_add)
  have "drop 16 (load ?m2 slot 1024) = replicate 1008 NUL" by (simp add: l2)
  then have "drop (16 + length key) (load ?m2 slot 1024) = replicate (1008 - length key) NUL"
    by (simp only: drop_plus drop_replicate)
  then have l3: "load ?m3 slot 1024 = (CHR 0x01 # replicate 7 NUL @ u64_bytes count @ key
     @ replicate (112 - length key) NUL) @ replicate 896 NUL"
    using k in_slot [of 16 key ?m2 slot] by (simp add: l2 pad)
  have len: "length (CHR 0x01 # replicate 7 NUL @ u64_bytes count @ key @ replicate (112 - length key) NUL) = 128"
    using k by simp
  have "drop 128 (load ?m3 slot 1024) = replicate 896 NUL"
    unfolding l3 using len by (simp only: drop_append) simp
  then have "drop (128 + length value) (load ?m3 slot 1024) = replicate (896 - length value) NUL"
    by (simp only: drop_plus drop_replicate)
  moreover have "take 128 (load ?m3 slot 1024) = CHR 0x01 # replicate 7 NUL @ u64_bytes count @ key
     @ replicate (112 - length key) NUL"
    unfolding l3 using len by (simp only: take_append) simp
  ultimately have l4: "load ?m4 slot 1024 = CHR 0x01 # replicate 7 NUL @ u64_bytes count @ key
     @ replicate (112 - length key) NUL @ value @ replicate (896 - length value) NUL"
    using v in_slot [of 128 "value" ?m3 slot] by simp
  show ?thesis
    by (rule that [of ?m4])
      (use assms l4 in \<open>simp_all add: s prepare_slot_def fits_def encode_slot_def prepared_def rdma_sizes char_of_def bit_Suc_0_iff\<close>)
qed

lemma prepared_facts:
  assumes "fits key value" and "key_ok key" and "key_ok value"
  shows "slot_ok (prepared key value count)" "slot_status_of (prepared key value count) = Valid"
    "slot_key_of (prepared key value count) = key" "slot_value_of (prepared key value count) = value"
    "slot_lens (prepared key value count)"
  using assms
  by (auto simp: prepared_def slot_ok_def slot_lens_def fits_def slot_status_of_def slot_key_of_def
      slot_value_of_def key_ok_def)

subsection \<open>One request and its completion\<close>

text \<open>A connected session: the context's queue pair and completion queue, the exported region
announced in the handshake, and a device that behaves as documented on them.\<close>

definition one_sided_session :: "'n verbs \<Rightarrow> RdmaContext \<Rightarrow> QpInfo \<Rightarrow> u32 set \<Rightarrow> ('n host \<Rightarrow> mem)
    \<Rightarrow> ('n host \<Rightarrow> bool) \<Rightarrow> bool" where
  "one_sided_session V c info lks remote idle \<longleftrightarrow>
     (\<exists>qp cq. qp_ptr c = Some qp \<and> cq_ptr c = Some cq
        \<and> verbs_data_path V qp cq (qi_rkey info) lks (qi_addr info) (RDMA_NUM_SLOTS * slot_size) remote idle)"

definition session_never_fails :: "'n verbs \<Rightarrow> RdmaContext \<Rightarrow> QpInfo \<Rightarrow> u32 set \<Rightarrow> ('n host \<Rightarrow> bool) \<Rightarrow> bool" where
  "session_never_fails V c info lks idle \<longleftrightarrow>
     (\<forall>qp cq. qp_ptr c = Some qp \<longrightarrow> cq_ptr c = Some cq \<longrightarrow>
        verbs_never_fails V qp cq (qi_rkey info) lks (qi_addr info) (RDMA_NUM_SLOTS * slot_size) idle)"

definition exported :: "QpInfo \<Rightarrow> mem \<Rightarrow> RdmaStore" where
  "exported info m = table_at m (qi_addr info)"

text \<open>The outcome of posting a request and polling for it.\<close>

definition sync_outcome :: "'n verbs \<Rightarrow> RdmaContext \<Rightarrow> ('n host \<Rightarrow> mem) \<Rightarrow> ('n host \<Rightarrow> bool) \<Rightarrow> bool
    \<Rightarrow> ibv_send_wr \<Rightarrow> 'n host \<Rightarrow> (bool \<times> 'n host) option \<Rightarrow> bool" where
  "sync_outcome V c remote idle good wr h res \<longleftrightarrow>
     (\<exists>posted h1. res = Some (posted, h1) \<and> (good \<longrightarrow> posted) \<and> (\<not> posted \<longrightarrow> remote h1 = remote h)
       \<and> (posted \<longrightarrow> (\<exists>ok h2. poll_completion V c h1 = Some (ok, c, h2) \<and> (good \<longrightarrow> ok)
            \<and> (let (m, r) = wr_effect wr (host_mem h, remote h) in
               if ok then host_mem h2 = m \<and> remote h2 = r \<and> idle h2
               else remote h2 = r \<or> remote h2 = remote h))))"

lemma post_sync:
  assumes ses: "one_sided_session V c info lks remote idle" and idle: "idle h"
    and valid: "wr_valid (qi_rkey info) lks (qi_addr info) (RDMA_NUM_SLOTS * slot_size) wr"
    and qp: "qp_ptr c = Some qp"
  shows "sync_outcome V c remote idle (session_never_fails V c info lks idle) wr h
           (case ibv_post_send V qp wr h of (ret, h) \<Rightarrow> Some (ret = 0, h))"
proof -
  obtain cq where cq: "cq_ptr c = Some cq"
    and path: "verbs_data_path V qp cq (qi_rkey info) lks (qi_addr info) (RDMA_NUM_SLOTS * slot_size) remote idle"
    using ses qp by (auto simp: one_sided_session_def)
  obtain ret h1 where post: "ibv_post_send V qp wr h = (ret, h1)" by (cases "ibv_post_send V qp wr h")
  have law: "if ret \<noteq> 0 then host_mem h1 = host_mem h \<and> remote h1 = remote h
           else \<exists>n. completes remote idle wr h (nth_poll V cq n h1)"
    using path [unfolded verbs_data_path_def, THEN conjunct2, rule_format, of h wr] idle valid post by simp
  have good: "ret = 0 \<and> (\<forall>n. case nth_poll V cq n h1 of (ret, wc, h') \<Rightarrow>
              ret \<noteq> 0 \<longrightarrow> 0 < ret \<and> wc_stat wc = WC_SUCCESS)"
    if "session_never_fails V c info lks idle"
    using that [unfolded session_never_fails_def verbs_never_fails_def, rule_format, OF qp cq, of h wr]
      idle valid post by simp
  show ?thesis
  proof (cases "ret = 0")
    case False
    then show ?thesis using law good post by (auto simp: sync_outcome_def)
  next
    case True
    then obtain n where fin: "completes remote idle wr h (nth_poll V cq n h1)" using law by auto
    obtain r2 wc h2 where poll: "nth_poll V cq n h1 = (r2, wc, h2)" by (cases "nth_poll V cq n h1")
    have loop: "poll_loop V cq h1 = Some (r2, wc, h2)"
      using poll_loop_Some [of V cq n h1] fin by (simp add: poll completes_def)
    have "session_never_fails V c info lks idle \<Longrightarrow> 0 < r2 \<and> wc_stat wc = WC_SUCCESS"
      using good fin poll by (auto simp: completes_def split: prod.splits)
    moreover have "poll_completion V c h1 = Some (0 < r2 \<and> wc_stat wc = WC_SUCCESS, c, h2)"
      using fin by (auto simp: poll_completion_def cq loop completes_def poll Let_def split: prod.splits)
    ultimately show ?thesis
      using True fin by (auto simp: sync_outcome_def post completes_def poll Let_def split: prod.splits)
  qed
qed

lemma sync_cases:
  assumes "sync_outcome V c remote idle good wr h res"
  obtains (refused) h1 where "res = Some (False, h1)" "remote h1 = remote h" "\<not> good"
  | (failed) h1 h2 where "res = Some (True, h1)" "poll_completion V c h1 = Some (False, c, h2)"
      "remote h2 = snd (wr_effect wr (host_mem h, remote h)) \<or> remote h2 = remote h" "\<not> good"
  | (completed) h1 h2 where "res = Some (True, h1)" "poll_completion V c h1 = Some (True, c, h2)"
      "host_mem h2 = fst (wr_effect wr (host_mem h, remote h))"
      "remote h2 = snd (wr_effect wr (host_mem h, remote h))" "idle h2"
proof -
  obtain posted h1 where first: "res = Some (posted, h1)" and good: "good \<longrightarrow> posted"
    and refuse: "\<not> posted \<longrightarrow> remote h1 = remote h"
    and yes: "posted \<longrightarrow> (\<exists>ok h2. poll_completion V c h1 = Some (ok, c, h2) \<and> (good \<longrightarrow> ok)
            \<and> (let (m, r) = wr_effect wr (host_mem h, remote h) in
               if ok then host_mem h2 = m \<and> remote h2 = r \<and> idle h2
               else remote h2 = r \<or> remote h2 = remote h))"
    using assms unfolding sync_outcome_def by blast
  show ?thesis
  proof (cases posted)
    case False
    show ?thesis by (rule refused [of h1]) (use first good refuse False in simp_all)
  next
    case True
    with yes obtain ok h2 where poll: "poll_completion V c h1 = Some (ok, c, h2)" "good \<longrightarrow> ok"
      and res: "if ok then host_mem h2 = fst (wr_effect wr (host_mem h, remote h))
              \<and> remote h2 = snd (wr_effect wr (host_mem h, remote h)) \<and> idle h2
            else remote h2 = snd (wr_effect wr (host_mem h, remote h)) \<or> remote h2 = remote h"
      by (auto simp: Let_def prod.case_eq_if)
    show ?thesis
    proof (cases ok)
      case True
      show ?thesis by (rule completed [of h1 h2]) (use True \<open>posted\<close> poll res first in simp_all)
    next
      case False
      show ?thesis by (rule failed [of h1 h2]) (use False \<open>posted\<close> poll res first in simp_all)
    qed
  qed
qed

subsection \<open>Reading, writing and counting one slot\<close>

lemma slot_addr_region:
  "p < RDMA_NUM_SLOTS \<Longrightarrow> k + n \<le> slot_size \<Longrightarrow>
     unat (slot_addr base p + of_nat k - base) + n \<le> RDMA_NUM_SLOTS * slot_size"
proof -
  assume p: "p < RDMA_NUM_SLOTS" and k: "k + n \<le> slot_size"
  have le: "p * slot_size + k + n \<le> RDMA_NUM_SLOTS * slot_size"
  proof -
    have "Suc p * slot_size \<le> RDMA_NUM_SLOTS * slot_size" using p by (intro mult_le_mono1) simp
    then show ?thesis using k by simp
  qed
  have "slot_addr base p + of_nat k - base = of_nat (p * slot_size + k)" by (simp add: slot_addr_def)
  moreover have "unat (of_nat (p * slot_size + k) :: u64) = p * slot_size + k"
    using le by (intro unat_of_nat64) (simp add: rdma_sizes slot_size_def)
  ultimately show ?thesis using le by (simp only:)
qed

lemma unat_slot_size: "unat (of_nat slot_size :: u32) = slot_size"
  by (simp add: slot_size_def)

lemma session_qp:
  assumes "one_sided_session V c info lks remote idle"
  obtains qp where "qp_ptr c = Some qp"
  using assms by (auto simp: one_sided_session_def)

lemma read_slot_sync:
  fixes local :: u64
  assumes ses: "one_sided_session V c info lks remote idle" and idle: "idle h"
    and p: "p < RDMA_NUM_SLOTS" and lk: "lk \<in> lks"
  defines "res \<equiv> post_rdma_read V (slot_addr (qi_addr info) p) (qi_rkey info) local (of_nat slot_size) lk c h"
  obtains (refused) h1 where "res = Some (False, h1)" "remote h1 = remote h" "\<not> session_never_fails V c info lks idle"
  | (failed) h1 h2 where "res = Some (True, h1)" "poll_completion V c h1 = Some (False, c, h2)"
      "remote h2 = remote h" "\<not> session_never_fails V c info lks idle"
  | (arrived) h1 h2 where "res = Some (True, h1)" "poll_completion V c h1 = Some (True, c, h2)"
      "remote h2 = remote h" "idle h2"
      "slot_at (host_mem h2) local = slot_at (remote h) (slot_addr (qi_addr info) p)"
proof -
  obtain qp where qp: "qp_ptr c = Some qp" using ses by (rule session_qp)
  let ?wr = "\<lparr>wr_id = 2, wr_sge = \<lparr>sge_addr = local, sge_length = of_nat slot_size, sge_lkey = lk\<rparr>,
     wr_op = WR_RDMA_READ, wr_signaled = True, wr_remote_addr = slot_addr (qi_addr info) p,
     wr_rkey = qi_rkey info, wr_compare_add = 0\<rparr>"
  have post: "res = (case ibv_post_send V qp ?wr h of (ret, h) \<Rightarrow> Some (ret = 0, h))"
    by (simp add: res_def post_rdma_read_def qp)
  have "wr_valid (qi_rkey info) lks (qi_addr info) (RDMA_NUM_SLOTS * slot_size) ?wr"
    using slot_addr_region [OF p, of 0 slot_size "qi_addr info"] lk by (simp add: wr_valid_def unat_slot_size)
  note out = post_sync [OF ses idle this qp, folded post]
  have eff: "wr_effect ?wr (m, r) = (store m local (load r (slot_addr (qi_addr info) p) slot_size), r)" for m r
    by (simp add: wr_effect_def unat_slot_size)
  have reload: "slot_at (store m local (load r a slot_size)) local = slot_at r a" for m r a
    by (simp add: slot_at_def load_store_same slot_size_def)
  from out show ?thesis
    by (cases rule: sync_cases) (auto simp: eff reload intro: refused failed arrived)
qed

lemma write_slot_sync:
  fixes local :: u64
  assumes ses: "one_sided_session V c info lks remote idle" and idle: "idle h"
    and p: "p < RDMA_NUM_SLOTS" and lk: "lk \<in> lks"
  defines "res \<equiv> post_rdma_write V (slot_addr (qi_addr info) p) (qi_rkey info) local (of_nat slot_size) lk c h"
  defines "new \<equiv> store (remote h) (slot_addr (qi_addr info) p) (load (host_mem h) local slot_size)"
  obtains (refused) h1 where "res = Some (False, h1)" "remote h1 = remote h" "\<not> session_never_fails V c info lks idle"
  | (failed) h1 h2 where "res = Some (True, h1)" "poll_completion V c h1 = Some (False, c, h2)"
      "remote h2 = new \<or> remote h2 = remote h" "\<not> session_never_fails V c info lks idle"
  | (written) h1 h2 where "res = Some (True, h1)" "poll_completion V c h1 = Some (True, c, h2)"
      "remote h2 = new" "idle h2"
proof -
  obtain qp where qp: "qp_ptr c = Some qp" using ses by (rule session_qp)
  let ?wr = "\<lparr>wr_id = 4, wr_sge = \<lparr>sge_addr = local, sge_length = of_nat slot_size, sge_lkey = lk\<rparr>,
     wr_op = WR_RDMA_WRITE, wr_signaled = True, wr_remote_addr = slot_addr (qi_addr info) p,
     wr_rkey = qi_rkey info, wr_compare_add = 0\<rparr>"
  have post: "res = (case ibv_post_send V qp ?wr h of (ret, h) \<Rightarrow> Some (ret = 0, h))"
    by (simp add: res_def post_rdma_write_def qp)
  have "wr_valid (qi_rkey info) lks (qi_addr info) (RDMA_NUM_SLOTS * slot_size) ?wr"
    using slot_addr_region [OF p, of 0 slot_size "qi_addr info"] lk by (simp add: wr_valid_def unat_slot_size)
  note out = post_sync [OF ses idle this qp, folded post]
  have eff: "wr_effect ?wr (host_mem h, remote h) = (host_mem h, new)"
    by (simp add: wr_effect_def unat_slot_size new_def)
  from out show ?thesis
    by (cases rule: sync_cases) (auto simp: eff intro: refused failed written)
qed

lemma dvd_slot_addr:
  assumes "8 dvd unat base"
  shows "8 dvd unat (slot_addr base p + of_nat access_count_offset)"
proof -
  have "slot_addr base p + of_nat access_count_offset = of_nat (unat base + p * slot_size + access_count_offset)"
    by (simp add: slot_addr_def)
  then have "unat (slot_addr base p + of_nat access_count_offset)
     = (unat base + p * slot_size + access_count_offset) mod 2 ^ 64"
    by (simp only: unat_of_nat) simp
  also have "8 dvd \<dots>"
    using assms by (subst dvd_mod_iff) (simp_all add: slot_size_def access_count_offset_def)
  finally show ?thesis .
qed

lemma count_slot_sync:
  fixes local :: u64
  assumes ses: "one_sided_session V c info lks remote idle" and idle: "idle h"
    and p: "p < RDMA_NUM_SLOTS" and lk: "lk \<in> lks" and al: "8 dvd unat (qi_addr info)"
  defines "a \<equiv> slot_addr (qi_addr info) p + of_nat access_count_offset"
  defines "res \<equiv> post_fetch_and_add V a (qi_rkey info) local 1 lk c h"
  obtains (refused) h1 where "res = Some (False, h1)" "remote h1 = remote h" "\<not> session_never_fails V c info lks idle"
  | (failed) h1 h2 where "res = Some (True, h1)" "poll_completion V c h1 = Some (False, c, h2)"
      "remote h2 = add_u64 (remote h) a 1 \<or> remote h2 = remote h" "\<not> session_never_fails V c info lks idle"
  | (counted) h1 h2 where "res = Some (True, h1)" "poll_completion V c h1 = Some (True, c, h2)"
      "remote h2 = add_u64 (remote h) a 1" "idle h2"
      "host_mem h2 = store (host_mem h) local (load (remote h) a 8)"
proof -
  obtain qp where qp: "qp_ptr c = Some qp" using ses by (rule session_qp)
  let ?wr = "\<lparr>wr_id = 3, wr_sge = \<lparr>sge_addr = local, sge_length = 8, sge_lkey = lk\<rparr>,
     wr_op = WR_FETCH_AND_ADD, wr_signaled = True, wr_remote_addr = a,
     wr_rkey = qi_rkey info, wr_compare_add = 1\<rparr>"
  have post: "res = (case ibv_post_send V qp ?wr h of (ret, h) \<Rightarrow> Some (ret = 0, h))"
    by (simp add: res_def post_fetch_and_add_def qp)
  have "unat (slot_addr (qi_addr info) p + of_nat access_count_offset - qi_addr info) + 8 \<le> RDMA_NUM_SLOTS * slot_size"
    by (rule slot_addr_region [OF p]) (simp add: access_count_offset_def slot_size_def)
  then have "wr_valid (qi_rkey info) lks (qi_addr info) (RDMA_NUM_SLOTS * slot_size) ?wr"
    using dvd_slot_addr [OF al, of p] lk by (simp add: wr_valid_def a_def)
  note out = post_sync [OF ses idle this qp, folded post]
  have eff: "wr_effect ?wr (host_mem h, remote h)
     = (store (host_mem h) local (load (remote h) a 8), add_u64 (remote h) a 1)"
    by (simp add: wr_effect_def)
  from out show ?thesis
    by (cases rule: sync_cases) (auto simp: eff intro: refused failed counted)
qed

subsection \<open>GET is the search on the exported table\<close>

lemma exported_nth [simp]:
  "p < RDMA_NUM_SLOTS \<Longrightarrow> slots (exported info m) ! p = slot_at m (slot_addr (qi_addr info) p)"
  by (simp add: exported_def)

lemma client_probe_addr:
  "qi_addr info + of_nat ((fnv1a key + i) AND (RDMA_NUM_SLOTS - 1)) * of_nat slot_size
   = slot_addr (qi_addr info) (tab.pos key i)"
  by (simp only: fnv1a_slot_index probe_index slot_addr_def)

lemma access_count_at: "access_count (slot_at m a) = bytes_u64 (load m (a + of_nat access_count_offset) 8)"
proof -
  have "load m (a + of_nat access_count_offset) 8 = take 8 (drop 8 (load m a slot_size))"
    by (rule nth_equalityI) (simp_all add: slot_size_def access_count_offset_def ac_simps)
  then show ?thesis by (simp add: slot_at_def decode_slot_def access_count_offset_def)
qed

text \<open>What a GET may return when the search from probe \<open>i\<close> on the table in the peer's memory says
\<open>found\<close>: without a failure it succeeds exactly when the key is there, and then the local buffer
holds that slot; only a counting GET changes the peer's memory, by one count in that slot, and it
leaves the count before in the atomic buffer.\<close>

definition get_post :: "QpInfo \<Rightarrow> ('n host \<Rightarrow> mem) \<Rightarrow> u64 \<Rightarrow> u64 \<Rightarrow> bool \<Rightarrow> nat option \<Rightarrow> 'n host \<Rightarrow> bool \<Rightarrow> 'n host \<Rightarrow> bool" where
  "get_post info remote local atomic counting found h ok h' =
     (case found of
        None \<Rightarrow> \<not> ok \<and> remote h' = remote h
      | Some p \<Rightarrow>
          let counted = add_u64 (remote h) (slot_addr (qi_addr info) p + of_nat access_count_offset) 1 in
          if ok then slot_at (host_mem h') local = slot_at (remote h) (slot_addr (qi_addr info) p)
             \<and> remote h' = (if counting then counted else remote h)
             \<and> (counting \<longrightarrow> bytes_u64 (load (host_mem h') atomic 8)
                  = access_count (slot_at (remote h) (slot_addr (qi_addr info) p)))
          else remote h' = remote h \<or> counting \<and> remote h' = counted)"

lemma get_post_cong:
  "remote h2 = remote h \<Longrightarrow>
     get_post info remote local atomic counting found h2 ok h' = get_post info remote local atomic counting found h ok h'"
  by (cases found) (simp_all add: get_post_def Let_def)

lemma get_probe_result:
  assumes ses: "one_sided_session V c info lks remote idle" and idle: "idle h"
    and inv: "store_inv (exported info (remote h))"
    and lk: "slot_lkey \<in> lks" "atomic_lkey \<in> lks" and al: "8 dvd unat (qi_addr info)"
    and far: "misses local slot_size atomic_result 8"
  shows "\<exists>ok h'. get_probe V info local slot_lkey key counting atomic_result atomic_lkey i c h = Some (ok, c, h')
     \<and> get_post info remote local atomic_result counting (tab.lookup_from (slots (exported info (remote h))) key i) h ok h'
     \<and> (session_never_fails V c info lks idle \<longrightarrow>
          ok = (tab.lookup_from (slots (exported info (remote h))) key i \<noteq> None) \<and> idle h')"
  using idle inv
proof (induction "RDMA_NUM_SLOTS - i" arbitrary: i h)
  case 0
  then show ?case by (subst get_probe.simps) (auto simp: get_post_def)
next
  case (Suc n)
  let ?p = "tab.pos key i" and ?t = "slots (exported info (remote h))"
  let ?s = "slot_at (remote h) (slot_addr (qi_addr info) ?p)"
  from Suc have i: "i < RDMA_NUM_SLOTS" by simp
  have p: "?p < RDMA_NUM_SLOTS" by simp
  have ok: "slot_ok ?s" using store_inv_slot [OF Suc.prems(2) p] p by simp
  note hit = slot_key_equals_ok [OF ok, of key]
  have step: "tab.lookup_from ?t key i =
     (if occupied ?s = 0 then None
      else if slot_key_of ?s = key \<and> occupied ?s \<noteq> 2 then Some ?p
      else tab.lookup_from ?t key (Suc i))"
    using p by (simp add: tab.lookup_from_step i tab.holds_def slot_status_cases conj_commute)
  note unfold = get_probe.simps [of V info local slot_lkey key counting atomic_result atomic_lkey i,
      unfolded Let_def client_probe_addr]
  from ses Suc.prems(1) p lk(1) show ?case
  proof (cases rule: read_slot_sync [where local = local])
    case (refused h1)
    then show ?thesis
      by (intro exI [of _ False] exI [of _ h1], subst unfold)
        (simp add: i get_post_def Let_def split: option.split)
  next
    case (failed h1 h2)
    then show ?thesis
      by (intro exI [of _ False] exI [of _ h2], subst unfold)
        (simp add: i get_post_def Let_def split: option.split)
  next
    case (arrived h1 h2)
    have ih: "\<exists>ok h'. get_probe V info local slot_lkey key counting atomic_result atomic_lkey (i + 1) c h2 = Some (ok, c, h')
       \<and> get_post info remote local atomic_result counting (tab.lookup_from ?t key (Suc i)) h ok h'
       \<and> (session_never_fails V c info lks idle \<longrightarrow> ok = (tab.lookup_from ?t key (Suc i) \<noteq> None) \<and> idle h')"
      using Suc.hyps(1) [of "Suc i" h2] Suc.hyps(2) arrived Suc.prems
      by (simp add: get_post_cong [of remote h2 h])
    show ?thesis
    proof (cases "occupied ?s \<noteq> 0 \<and> occupied ?s \<noteq> 2 \<and> slot_key_of ?s = key")
      case miss: False
      show ?thesis
      proof (cases "occupied ?s = 0")
        case True
        with arrived show ?thesis
          by (intro exI [of _ False] exI [of _ h2], subst unfold) (simp add: i step get_post_def)
      next
        case False
        with miss have "get_probe V info local slot_lkey key counting atomic_result atomic_lkey i c h
           = get_probe V info local slot_lkey key counting atomic_result atomic_lkey (i + 1) c h2"
          by (subst unfold) (auto simp: i hit arrived)
        moreover have "tab.lookup_from ?t key i = tab.lookup_from ?t key (Suc i)"
          using miss False by (auto simp: step)
        ultimately show ?thesis using ih by simp
      qed
    next
      case True
      show ?thesis
      proof (cases counting)
        case False
        with arrived True show ?thesis
          by (intro exI [of _ True] exI [of _ h2], subst unfold) (simp add: i hit step get_post_def)
      next
        case True
        note found = \<open>occupied ?s \<noteq> 0 \<and> occupied ?s \<noteq> 2 \<and> slot_key_of ?s = key\<close>
        from ses arrived(4) p lk(2) al show ?thesis
        proof (cases rule: count_slot_sync [where local = atomic_result])
          case (refused h3)
          with True found arrived show ?thesis
            by (intro exI [of _ False] exI [of _ h3], subst unfold) (simp add: i hit step get_post_def Let_def)
        next
          case (failed h3 h4)
          with True found arrived show ?thesis
            by (intro exI [of _ False] exI [of _ h4], subst unfold)
                (simp add: i hit step get_post_def Let_def disj_commute)
        next
          case (counted h3 h4)
          have "slot_at (host_mem h4) local = slot_at (host_mem h2) local"
            by (simp add: counted(5) slot_at_def load_store_other far)
          moreover have "bytes_u64 (load (host_mem h4) atomic_result 8) = access_count ?s"
            by (simp add: counted(5) arrived(3) access_count_at load_store_same)
          ultimately show ?thesis
            using True found arrived counted
            by (intro exI [of _ True] exI [of _ h4], subst unfold) (simp add: i hit step get_post_def Let_def)
        qed
      qed
    qed
  qed
qed

lemma relabel_store:
  assumes "store_inv st" and "p < RDMA_NUM_SLOTS" and "slot_ok s"
    and "slot_status_of s = slot_status_of (slots st ! p)" and "slot_key_of s = slot_key_of (slots st ! p)"
    and "slot_value_of s = slot_value_of (slots st ! p)" and st': "slots st' = (slots st)[p := s]"
  shows "store_inv st'" and "rdma_map st' = rdma_map st"
proof -
  have len: "p < length (slots st)" using assms(1,2) by (simp add: store_inv_length)
  show "store_inv st'"
    using assms(1,3) tab.relabel_inv [OF len assms(4,5)] set_update_subset_insert [of "slots st" p s]
    by (auto simp: store_inv_def st')
  have "slot_value_of ((slots st)[p := s] ! q) = slot_value_of (slots st ! q)" for q
    using len assms(6) by (cases "q = p") simp_all
  then show "rdma_map st' = rdma_map st"
    by (intro ext) (simp add: rdma_map_def st' tab.contents_def tab.relabel_lookup [OF len assms(4,5)])
qed

text \<open>The fetch-and-add as an update of the table.\<close>

definition bump_count :: "nat \<Rightarrow> RdmaStore \<Rightarrow> RdmaStore" where
  "bump_count p st = st\<lparr>slots := (slots st)[p := (slots st ! p)\<lparr>access_count := access_count (slots st ! p) + 1\<rparr>]\<rparr>"

lemma bump_count_labels:
  "slot_status_of (slots (bump_count p st) ! q) = slot_status_of (slots st ! q)"
  "slot_key_of (slots (bump_count p st) ! q) = slot_key_of (slots st ! q)"
proof -
  have "slot_status_of (xs[p := (xs ! p)\<lparr>access_count := n\<rparr>] ! q) = slot_status_of (xs ! q)
      \<and> slot_key_of (xs[p := (xs ! p)\<lparr>access_count := n\<rparr>] ! q) = slot_key_of (xs ! q)" for xs :: "RdmaSlot list" and n
    by (cases "p < length xs"; cases "p = q") (simp_all add: slot_status_of_def slot_key_of_def not_less list_update_beyond)
  then show "slot_status_of (slots (bump_count p st) ! q) = slot_status_of (slots st ! q)"
    "slot_key_of (slots (bump_count p st) ! q) = slot_key_of (slots st ! q)"
    by (simp_all add: bump_count_def)
qed

lemma bump_count_inv:
  assumes "store_inv st" and "p < RDMA_NUM_SLOTS"
  shows "store_inv (bump_count p st)" and "rdma_map (bump_count p st) = rdma_map st"
proof -
  let ?s = "(slots st ! p)\<lparr>access_count := access_count (slots st ! p) + 1\<rparr>"
  have "slot_ok ?s" using store_inv_slot [OF assms] by (simp add: slot_ok_def)
  note facts = relabel_store [OF assms this]
  show "store_inv (bump_count p st)" "rdma_map (bump_count p st) = rdma_map st"
    by (rule facts; simp add: bump_count_def slot_status_of_def slot_key_of_def slot_value_of_def)+
qed

lemma exported_bumped:
  assumes "p < RDMA_NUM_SLOTS"
  shows "exported info (add_u64 r (slot_addr (qi_addr info) p + of_nat access_count_offset) 1)
     = bump_count p (exported info r)"
proof -
  have "slots (exported info (add_u64 r (slot_addr (qi_addr info) p + of_nat access_count_offset) 1))
     = slots (bump_count p (exported info r))"
    unfolding bump_count_def exported_nth [OF assms] by (simp add: exported_def table_at_add_count [OF assms])
  then show ?thesis by simp
qed

subsection \<open>SET is the search for a place\<close>

fun place_target :: "place \<Rightarrow> nat option" where
  "place_target (Overwrite p) = Some p"
| "place_target (Insert p) = Some p"
| "place_target (NoEmpty tp) = tp"

definition kept_count :: "RdmaSlot list \<Rightarrow> place \<Rightarrow> u64" where
  "kept_count t pl = (case pl of Overwrite p \<Rightarrow> access_count (t ! p) | _ \<Rightarrow> 0)"

text \<open>What a SET may return when the place search on the peer's table \<open>t\<close> says \<open>pl\<close>.\<close>

definition set_post :: "string \<Rightarrow> string \<Rightarrow> RdmaSlot list \<Rightarrow> place \<Rightarrow> RdmaSlot list \<Rightarrow> string + unit \<Rightarrow> bool" where
  "set_post key value t pl t' r =
     (case place_target pl of
        None \<Rightarrow> r \<noteq> Inr () \<and> t' = t
      | Some p \<Rightarrow> t' = t[p := prepared key value (kept_count t pl)] \<or> r \<noteq> Inr () \<and> t' = t)"

lemma write_back_result:
  assumes ses: "one_sided_session V c info lks remote idle" and idle: "idle h"
    and p: "p < RDMA_NUM_SLOTS" and lk: "slot_lkey \<in> lks" and fit: "fits key value"
  shows "\<exists>r h'. write_back V info local slot_lkey key value count (slot_addr (qi_addr info) p) c h = Some (r, c, h')
     \<and> (let t = slots (exported info (remote h)); t' = slots (exported info (remote h')) in
         t' = t[p := prepared key value count] \<or> r \<noteq> Inr () \<and> t' = t)
     \<and> (session_never_fails V c info lks idle \<longrightarrow> r = Inr () \<and> idle h')"
proof -
  obtain m where m: "prepare_slot (host_mem h) local key value count = Inr m"
    and img: "load m local slot_size = encode_slot (prepared key value count)"
    using prepare_slot_load [OF fit] .
  let ?h = "h\<lparr>host_mem := m\<rparr>"
  have frame: "remote ?h = remote h" "idle ?h"
    using ses idle by (auto simp: one_sided_session_def verbs_data_path_def)
  have lens: "slot_lens (prepared key value count)" using fit by (simp add: prepared_def slot_lens_def fits_def)
  have new: "slots (exported info (store (remote h) (slot_addr (qi_addr info) p) (encode_slot (prepared key value count))))
     = (slots (exported info (remote h)))[p := prepared key value count]"
    unfolding exported_def by (simp add: table_at_store_slot [OF p lens])
  from ses frame(2) p lk show ?thesis
  proof (cases rule: write_slot_sync [where local = local])
    case (refused h1)
    then show ?thesis
      by (intro exI [of _ "Inl ''RDMA WRITE failed''"] exI [of _ h1]) (simp add: write_back_def m frame)
  next
    case (failed h1 h2)
    then show ?thesis
      by (intro exI [of _ "Inl ''RDMA WRITE completion failed''"] exI [of _ h2])
        (auto simp: write_back_def m frame img new)
  next
    case (written h1 h2)
    then show ?thesis
      by (intro exI [of _ "Inr ()"] exI [of _ h2]) (simp add: write_back_def m frame img new)
  qed
qed

definition tomb_addr :: "QpInfo \<Rightarrow> nat option \<Rightarrow> u64" where
  "tomb_addr info tp = (case tp of None \<Rightarrow> 0 | Some p \<Rightarrow> slot_addr (qi_addr info) p)"

lemma set_probe_result:
  assumes ses: "one_sided_session V c info lks remote idle" and idle: "idle h"
    and inv: "store_inv (exported info (remote h))" and lk: "slot_lkey \<in> lks" and fit: "fits key value"
    and le: "i \<le> RDMA_NUM_SLOTS"
  defines "t \<equiv> slots (exported info (remote h))"
  defines "tp \<equiv> tab.tomb_upto t key i"
  shows "\<exists>r h'. set_probe V info local slot_lkey key value (fnv1a key) i (tp \<noteq> None) (tomb_addr info tp) c h = Some (r, c, h')
     \<and> set_post key value t (tab.place_from t key i) (slots (exported info (remote h'))) r
     \<and> (session_never_fails V c info lks idle \<longrightarrow>
          r = (if place_target (tab.place_from t key i) = None then Inl ''remote table full'' else Inr ()) \<and> idle h')"
  using idle inv le unfolding t_def tp_def
proof (induction "RDMA_NUM_SLOTS - i" arbitrary: i h)
  case 0
  let ?t = "slots (exported info (remote h))"
  from 0 have i: "i = RDMA_NUM_SLOTS" by simp
  show ?case
  proof (cases "tab.tomb_upto ?t key RDMA_NUM_SLOTS")
    case None
    then show ?thesis
      by (subst set_probe.simps) (simp add: i 0(2) tab.place_from_end set_post_def)
  next
    case (Some p)
    then have p: "p < RDMA_NUM_SLOTS" by (rule tomb_upto_less)
    show ?thesis
      using write_back_result [OF ses 0(2) p lk fit, of local 0] Some
      by (subst set_probe.simps)
        (auto simp: i tab.place_from_end set_post_def tomb_addr_def kept_count_def Let_def)
  qed
next
  case (Suc n)
  let ?p = "tab.pos key i" and ?t = "slots (exported info (remote h))"
  let ?s = "slot_at (remote h) (slot_addr (qi_addr info) ?p)" and ?tp = "tab.tomb_upto ?t key i"
  from Suc have i: "i < RDMA_NUM_SLOTS" by simp
  have p: "?p < RDMA_NUM_SLOTS" by simp
  have ok: "slot_ok ?s" using store_inv_slot [OF Suc.prems(2) p] p by simp
  note hit = slot_key_equals_ok [OF ok, of key]
  have hold: "tab.holds ?t ?p key \<longleftrightarrow> occupied ?s = 1 \<and> slot_key_of ?s = key"
    using p by (simp add: tab.holds_def slot_status_cases(3) [OF ok])
  have step: "tab.place_from ?t key i =
     (if occupied ?s = 1 \<and> slot_key_of ?s = key then Overwrite ?p
      else if occupied ?s = 0 then Insert (case ?tp of None \<Rightarrow> ?p | Some p \<Rightarrow> p)
      else tab.place_from ?t key (Suc i))"
    using p by (simp add: tab.place_from_step i hold slot_status_cases)
  have tp': "tab.tomb_upto ?t key (Suc i) = (if ?tp = None \<and> occupied ?s = 2 then Some ?p else ?tp)"
    using p by (auto simp: slot_status_cases split: option.split)
  note unfold = set_probe.simps [of V info local slot_lkey key "value" "fnv1a key" i, unfolded Let_def client_probe_addr]
  from ses Suc.prems(1) p lk show ?case
  proof (cases rule: read_slot_sync [where local = local])
    case (refused h1)
    then show ?thesis
      by (intro exI [of _ "Inl ''RDMA READ failed while probing''"] exI [of _ h1], subst unfold)
        (simp add: i set_post_def split: option.split)
  next
    case (failed h1 h2)
    then show ?thesis
      by (intro exI [of _ "Inl ''RDMA READ completion failed while probing''"] exI [of _ h2], subst unfold)
        (simp add: i set_post_def split: option.split)
  next
    case (arrived h1 h2)
    have ih: "\<exists>r h'. set_probe V info local slot_lkey key value (fnv1a key) (i + 1)
           (tab.tomb_upto ?t key (Suc i) \<noteq> None) (tomb_addr info (tab.tomb_upto ?t key (Suc i))) c h2 = Some (r, c, h')
       \<and> set_post key value ?t (tab.place_from ?t key (Suc i)) (slots (exported info (remote h'))) r
       \<and> (session_never_fails V c info lks idle \<longrightarrow>
            r = (if place_target (tab.place_from ?t key (Suc i)) = None then Inl ''remote table full'' else Inr ()) \<and> idle h')"
      using Suc.hyps(1) [of "Suc i" h2] Suc.hyps(2) arrived Suc.prems i
      by (simp del: tab.tomb_upto_Suc)
    consider (over) "occupied ?s = 1 \<and> slot_key_of ?s = key"
      | (ins) "\<not> (occupied ?s = 1 \<and> slot_key_of ?s = key)" "occupied ?s = 0"
      | (next_probe) "\<not> (occupied ?s = 1 \<and> slot_key_of ?s = key)" "occupied ?s \<noteq> 0" by blast
    then show ?thesis
    proof cases
      case over
      with write_back_result [OF ses arrived(4) p lk fit, of local "access_count ?s"] show ?thesis
        by (subst unfold) (auto simp: i arrived hit step set_post_def kept_count_def Let_def)
    next
      case ins
      let ?q = "case ?tp of None \<Rightarrow> ?p | Some p \<Rightarrow> p"
      have q: "?q < RDMA_NUM_SLOTS" using p tomb_upto_less by (auto split: option.split)
      have addr: "(if ?tp \<noteq> None then tomb_addr info ?tp else slot_addr (qi_addr info) ?p) = slot_addr (qi_addr info) ?q"
        by (simp add: tomb_addr_def split: option.split)
      from ins write_back_result [OF ses arrived(4) q lk fit, of local 0] show ?thesis
        by (subst unfold) (auto simp: i arrived hit step set_post_def kept_count_def Let_def addr tomb_addr_def)
    next
      case next_probe
      then have "set_probe V info local slot_lkey key value (fnv1a key) i (?tp \<noteq> None) (tomb_addr info ?tp) c h
         = set_probe V info local slot_lkey key value (fnv1a key) (i + 1)
             (tab.tomb_upto ?t key (Suc i) \<noteq> None) (tomb_addr info (tab.tomb_upto ?t key (Suc i))) c h2"
        by (subst unfold) (auto simp: i arrived hit tp' tomb_addr_def simp del: tab.tomb_upto_Suc)
      moreover have "tab.place_from ?t key i = tab.place_from ?t key (Suc i)" using next_probe by (auto simp: step)
      ultimately show ?thesis using ih by simp
    qed
  qed
qed

end
