(* ===== verification/SimVerbs.thy ===== *)
theory SimVerbs
  imports RdmaLaws
begin

section \<open>A simulated NIC\<close>

text \<open>
  A concrete \<open>verbs\<close> record: a list of live resources, queue pair states, the peer's memory and at
  most one outstanding request, which the second poll after posting performs. It shows that the
  predicates of \<open>RdmaLaws\<close> can be met, and it is what the properties' examples run on. It models no
  code of the repository.
\<close>

record sim =
  sim_live :: "resource list"
  sim_qst :: "ibv_qp \<Rightarrow> qp_state"
  sim_remote :: mem
  sim_pending :: "ibv_send_wr option"
  sim_polled :: bool

fun number :: "resource \<Rightarrow> nat" where
  "number DevList = 0"
| "number (DevCtx x) = x"
| "number (Pd x p) = x + p"
| "number (Cq x q) = x + q"
| "number (Qp p q qp) = p + q + qp_handle qp"
| "number (Mr p m) = p + mr_handle m"

fun handle_number :: "handle \<Rightarrow> nat" where
  "handle_number (HCtx x) = x"
| "handle_number (HPd x) = x"
| "handle_number (HCq x) = x"
| "handle_number (HQp qp) = qp_handle qp"
| "handle_number (HMr m) = mr_handle m"

text \<open>Resources with a component of their own kind under a handle.\<close>

fun mentions_b :: "handle \<Rightarrow> resource \<Rightarrow> bool" where
  "mentions_b h DevList = False"
| "mentions_b h (DevCtx x) = (h = HCtx x)"
| "mentions_b h (Pd x p) = (h = HCtx x \<or> h = HPd p)"
| "mentions_b h (Cq x q) = (h = HCtx x \<or> h = HCq q)"
| "mentions_b h (Qp p q qp) = (h = HPd p \<or> h = HCq q \<or> h = HQp qp)"
| "mentions_b h (Mr p m) = (h = HPd p \<or> h = HMr m)"

lemma mentions_b_iff: "mentions_b h r \<longleftrightarrow> h \<in> mentions r"
  by (cases r) auto

lemma mentions_number: "h \<in> mentions r \<Longrightarrow> handle_number h \<le> number r"
  by (cases r) auto

definition fresh :: "resource list \<Rightarrow> nat" where
  "fresh rs = Suc (sum_list (map number rs))"

lemma fresh_new: "r \<in> set rs \<Longrightarrow> handle_number h = fresh rs \<Longrightarrow> h \<notin> mentions r"
  using mentions_number [of h r] member_le_sum_list [of "number r" "map number rs"]
  by (auto simp: fresh_def)

definition sim_add :: "resource \<Rightarrow> sim host \<Rightarrow> sim host" where
  "sim_add r h = h\<lparr>nic := (nic h)\<lparr>sim_live := r # sim_live (nic h)\<rparr>\<rparr>"

definition sim_drop :: "handle \<Rightarrow> sim host \<Rightarrow> sim host" where
  "sim_drop hnd h = h\<lparr>nic := (nic h)\<lparr>sim_live := [r \<leftarrow> sim_live (nic h). \<not> mentions_b hnd r]\<rparr>\<rparr>"

definition sim_new :: "(nat \<Rightarrow> 'a) \<Rightarrow> ('a \<Rightarrow> resource) \<Rightarrow> sim host \<Rightarrow> 'a option \<times> sim host" where
  "sim_new mk res h = (let x = mk (fresh (sim_live (nic h))) in (Some x, sim_add (res x) h))"

definition sim_modify :: "ibv_qp \<Rightarrow> ibv_qp_attr \<Rightarrow> qp_mask list \<Rightarrow> sim host \<Rightarrow> int \<times> sim host" where
  "sim_modify qp at msk h =
     (if (case required_mask (sim_qst (nic h) qp) (attr_state at) of None \<Rightarrow> False | Some M \<Rightarrow> M \<subseteq> set msk)
      then (0, h\<lparr>nic := (nic h)\<lparr>sim_qst := (sim_qst (nic h))(qp := attr_state at)\<rparr>\<rparr>)
      else (22, h))"

definition sim_idle :: "sim host \<Rightarrow> bool" where
  "sim_idle h \<longleftrightarrow> sim_pending (nic h) = None \<and> \<not> sim_polled (nic h)"

definition sim_post :: "ibv_qp \<Rightarrow> ibv_send_wr \<Rightarrow> sim host \<Rightarrow> int \<times> sim host" where
  "sim_post qp wr h = (0, h\<lparr>nic := (nic h)\<lparr>sim_pending := Some wr\<rparr>\<rparr>)"

definition sim_wc :: "wr_opcode \<Rightarrow> ibv_wc" where
  "sim_wc op = \<lparr>wc_stat = WC_SUCCESS,
     wc_op = (case op of WR_SEND \<Rightarrow> WC_SEND | WR_RDMA_READ \<Rightarrow> WC_RDMA_READ | WR_RDMA_WRITE \<Rightarrow> WC_RDMA_WRITE
                | WR_FETCH_AND_ADD \<Rightarrow> WC_FETCH_ADD), wc_byte_len = 0\<rparr>"

definition sim_poll :: "nat \<Rightarrow> sim host \<Rightarrow> int \<times> ibv_wc \<times> sim host" where
  "sim_poll cq h =
     (case sim_pending (nic h) of
        None \<Rightarrow> (0, sim_wc WR_SEND, h)
      | Some wr \<Rightarrow>
          if \<not> sim_polled (nic h) then (0, sim_wc WR_SEND, h\<lparr>nic := (nic h)\<lparr>sim_polled := True\<rparr>\<rparr>)
          else (case wr_effect wr (host_mem h, sim_remote (nic h)) of (m, r) \<Rightarrow>
            (1, sim_wc (wr_op wr),
             h\<lparr>host_mem := m, nic := (nic h)\<lparr>sim_remote := r, sim_pending := None, sim_polled := False\<rparr>\<rparr>)))"

definition sim_verbs :: "sim verbs" where
  "sim_verbs = \<lparr>
     ibv_get_device_list = (\<lambda>h. (Some [0], sim_add DevList h)),
     ibv_free_device_list = (\<lambda>h. h\<lparr>nic := (nic h)\<lparr>sim_live := [r \<leftarrow> sim_live (nic h). r \<noteq> DevList]\<rparr>\<rparr>),
     ibv_get_device_name = (\<lambda>d. ''mlx5_0''),
     ibv_open_device = (\<lambda>d. sim_new (\<lambda>n. n) DevCtx),
     ibv_close_device = (\<lambda>x. sim_drop (HCtx x)),
     ibv_alloc_pd = (\<lambda>x. sim_new (\<lambda>n. n) (Pd x)),
     ibv_dealloc_pd = (\<lambda>p. sim_drop (HPd p)),
     ibv_create_cq = (\<lambda>x n. sim_new (\<lambda>n. n) (Cq x)),
     ibv_destroy_cq = (\<lambda>q. sim_drop (HCq q)),
     ibv_create_qp = (\<lambda>p at h. case sim_new (\<lambda>n. \<lparr>qp_handle = n, qp_number = of_nat n\<rparr>) (Qp p (send_cq at)) h of
        (qo, h) \<Rightarrow> (qo, h\<lparr>nic := (nic h)\<lparr>sim_qst := (sim_qst (nic h))(the qo := QPS_RESET)\<rparr>\<rparr>)),
     ibv_destroy_qp = (\<lambda>q. sim_drop (HQp q)),
     ibv_reg_mr = (\<lambda>p a n fl. sim_new (\<lambda>i. \<lparr>mr_handle = i, mr_addr = a, mr_lkey = of_nat i, mr_rkey = of_nat i\<rparr>) (Mr p)),
     ibv_dereg_mr = (\<lambda>m. sim_drop (HMr m)),
     ibv_modify_qp = sim_modify,
     ibv_query_port_lid = (\<lambda>x p h. 0),
     ibv_query_gid = (\<lambda>x p i h. replicate 16 NUL),
     ibv_post_recv = (\<lambda>qp wr h. (0, h)),
     ibv_post_send = sim_post,
     ibv_poll_cq = sim_poll\<rparr>"

definition sim_resources :: "sim host \<Rightarrow> resource set" where
  "sim_resources h = set (sim_live (nic h))"

lemma sim_acquires:
  "(\<And>n. handle_number (hnd (mk n)) = n) \<Longrightarrow> acquires sim_resources (sim_new mk res) res hnd"
  by (auto simp: acquires_def sim_new_def sim_add_def sim_resources_def Let_def dest: fresh_new)

lemma sim_releases: "releases sim_resources (sim_drop hnd) hnd"
  by (auto simp: releases_def sim_drop_def sim_resources_def mentions_b_iff)

lemma sim_accounting: "verbs_accounting sim_verbs sim_resources"
proof -
  have qp: "acquires sim_resources
      (\<lambda>h. case sim_new (\<lambda>n. \<lparr>qp_handle = n, qp_number = of_nat n\<rparr>) (Qp p (send_cq at)) h of
        (qo, h) \<Rightarrow> (qo, h\<lparr>nic := (nic h)\<lparr>sim_qst := (sim_qst (nic h))(the qo := QPS_RESET)\<rparr>\<rparr>))
      (Qp p (send_cq at)) HQp" for p at
    using fresh_new [of _ _ "HQp \<lparr>qp_handle = fresh _, qp_number = of_nat (fresh _)\<rparr>"]
    by (auto simp: acquires_def sim_new_def sim_add_def sim_resources_def Let_def)
  show ?thesis
    unfolding verbs_accounting_def
    by (simp add: sim_verbs_def sim_releases sim_acquires qp)
      (auto simp: sim_resources_def sim_add_def sim_modify_def)
qed

lemma sim_qp_table: "verbs_qp_table sim_verbs (\<lambda>h. sim_qst (nic h))"
  by (auto simp: verbs_qp_table_def sim_verbs_def sim_modify_def sim_new_def sim_add_def Let_def
      split: option.splits)

lemma sim_calls [simp]:
  "ibv_post_send sim_verbs = sim_post" "ibv_poll_cq sim_verbs = sim_poll"
  by (simp_all add: sim_verbs_def)

lemma sim_data_path:
  "verbs_data_path sim_verbs qp cq rk lks base rlen (\<lambda>h. sim_remote (nic h)) sim_idle"
proof -
  have two: "completes (\<lambda>h. sim_remote (nic h)) sim_idle wr h
        (nth_poll sim_verbs cq 1 (snd (sim_post qp wr h)))" if "sim_idle h" "wr_op wr \<noteq> WR_SEND" for h wr
    using that
    by (auto simp: completes_def sim_post_def sim_poll_def sim_idle_def sim_wc_def
        split: prod.split wr_opcode.splits)
  have "\<exists>n. completes (\<lambda>h. sim_remote (nic h)) sim_idle wr h
        (nth_poll sim_verbs cq n (h\<lparr>nic := nic h\<lparr>sim_pending := Some wr\<rparr>\<rparr>))"
    if "sim_idle h" "wr_op wr \<noteq> WR_SEND" for h wr
    using two [OF that] unfolding sim_post_def snd_conv by (rule exI)
  then show ?thesis
    unfolding verbs_data_path_def by (auto simp: sim_idle_def wr_valid_def sim_post_def)
qed

lemma sim_never_fails: "verbs_never_fails sim_verbs qp cq rk lks base rlen sim_idle"
proof -
  have polls: "case nth_poll sim_verbs cq n h of (ret, wc, h') \<Rightarrow> ret \<noteq> 0 \<longrightarrow> 0 < ret \<and> wc_stat wc = WC_SUCCESS"
    for n h
    by (induction n arbitrary: h) (auto simp: sim_poll_def sim_wc_def split: option.split prod.splits)
  then show ?thesis by (simp add: verbs_never_fails_def sim_post_def)
qed

end
