(* ===== verification/RdmaProps.thy ===== *)
theory RdmaProps
  imports SimVerbs
begin

section \<open>Properties of the queue pair context\<close>

text \<open>
  What \<open>init\<close>, \<open>destroy\<close>, \<open>connect\<close>, \<open>post_send\<close> and \<open>poll_completion\<close> of
  \<open>src/net/rdma_context.cpp\<close> guarantee on a device that behaves as \<open>RdmaLaws\<close> states, each with a
  run on the simulated device.
\<close>

definition sim_host0 :: "sim host" where
  "sim_host0 = \<lparr>host_mem = (\<lambda>_. NUL), nic = \<lparr>sim_live = [], sim_qst = (\<lambda>_. QPS_RESET),
     sim_remote = (\<lambda>_. NUL), sim_pending = None, sim_polled = False\<rparr>\<rparr>"

text \<open>
  C12: What \<open>init\<close> acquires and what it gives back, on every path. After a successful \<open>init\<close> of a
  fresh context the context owns exactly what was acquired, and \<open>destroy\<close> returns all of it, no
  release meeting a busy parent. After a failed one (at any of its calls) all pointers are null and
  everything it acquired is released, with the one exception the code has: when the device list is
  allocated and empty, the list itself stays allocated. A second \<open>destroy\<close> does nothing.
\<close>
theorem rdma_init_all_or_nothing:
  assumes "verbs_accounting V live" and "all_null c" and "DevList \<notin> live h"
    and "rdma_init V device_name c h = (ok, c', h')"
  shows "(if ok then qp_ptr c' \<noteq> None \<and> send_mr c' \<noteq> None \<and> recv_mr c' \<noteq> None
            \<and> owned c' \<subseteq> live h' \<and> live (snd (rdma_destroy V c' h')) = live h
          else all_null c'
            \<and> live h' = (if fst (ibv_get_device_list V h) = Some [] then insert DevList (live h) else live h))
       \<and> rdma_destroy V (fst (rdma_destroy V c' h')) (snd (rdma_destroy V c' h')) = rdma_destroy V c' h'"
proof (cases "fst (ibv_get_device_list V h) = Some []")
  case True
  note leak = rdma_init_leaks_empty_device_list [OF assms(1) True assms(4)]
  then show ?thesis
    using True assms(2) by (simp add: rdma_destroy_null_id rdma_destroy_null)
next
  case False
  have post: "init_post live (live h) (ok, c', h')"
    using rdma_init_post [OF assms(1-3) False, of device_name] by (simp add: assms(4))
  have twice: "rdma_destroy V (fst (rdma_destroy V c' h')) (snd (rdma_destroy V c' h')) = rdma_destroy V c' h'"
    by (simp add: rdma_destroy_null_id rdma_destroy_null)
  show ?thesis
  proof (cases ok)
    case True
    then have st: "step_ok live (live h) (c', h')"
      and set: "qp_ptr c' \<noteq> None" "send_mr c' \<noteq> None" "recv_mr c' \<noteq> None"
      using post by (simp_all add: init_post_def)
    have "live (snd (rdma_destroy V c' h')) = live h"
      by (rule rdma_destroy_releases [OF assms(1)]) (use st in \<open>simp_all add: step_ok_def\<close>)
    moreover have "owned c' \<subseteq> live h'" using st by (auto simp: step_ok_def owns_def)
    ultimately show ?thesis using True twice set by simp
  next
    case fail: False
    then show ?thesis using post twice False by (simp add: init_post_def)
  qed
qed

definition sim_no_device :: "sim verbs" where
  "sim_no_device = sim_verbs\<lparr>ibv_get_device_list := (\<lambda>h. (Some [], sim_add DevList h))\<rparr>"

lemma sim_no_device_accounting: "verbs_accounting sim_no_device sim_resources"
  using sim_accounting by (simp add: verbs_accounting_def sim_no_device_def sim_add_def sim_resources_def)

lemma sim_init:
  obtains c' h' where "rdma_init sim_verbs None (RdmaContext_default 4096 8192) sim_host0 = (True, c', h')"
  by (simp add: rdma_init_def init_opened_def sim_verbs_def sim_host0_def sim_add_def sim_new_def
      sim_modify_def init_attr_def init_mask_def zero_qp_attr_def fresh_def Let_def RdmaContext_default_def)

theorem rdma_init_all_or_nothing_witness:
  "(case rdma_init sim_verbs None (RdmaContext_default 4096 8192) sim_host0 of (ok, c', h') \<Rightarrow>
     ok \<and> owned c' \<subseteq> sim_resources h' \<and> sim_resources (snd (rdma_destroy sim_verbs c' h')) = {})
   \<and> (case rdma_init sim_no_device None (RdmaContext_default 4096 8192) sim_host0 of (ok, c', h') \<Rightarrow>
     \<not> ok \<and> sim_resources h' = {DevList})"
proof -
  obtain c' h' where init: "rdma_init sim_verbs None (RdmaContext_default 4096 8192) sim_host0 = (True, c', h')"
    by (rule sim_init)
  have none: "sim_resources sim_host0 = {}" by (simp add: sim_resources_def sim_host0_def)
  then have dl: "DevList \<notin> sim_resources sim_host0" by simp
  obtain ok d' g' where no: "rdma_init sim_no_device None (RdmaContext_default 4096 8192) sim_host0 = (ok, d', g')"
    by (cases "rdma_init sim_no_device None (RdmaContext_default 4096 8192) sim_host0")
  have list: "fst (ibv_get_device_list sim_no_device sim_host0) = Some []" by (simp add: sim_no_device_def)
  then have "\<not> ok" using no by (cases ok) (auto simp: rdma_init_def sim_no_device_def)
  then show ?thesis
    using rdma_init_all_or_nothing [OF sim_accounting default_null dl init]
      rdma_init_all_or_nothing [OF sim_no_device_accounting default_null dl no] none
    by (simp add: init no list)
qed

text \<open>
  The queue pair handshake. On a device that performs exactly the documented transitions, a
  successful \<open>init\<close> leaves the queue pair in INIT, and \<open>connect\<close> succeeds exactly from INIT: it then
  ends in RTS, having supplied every attribute the two transitions require, and otherwise leaves
  the state alone (so connecting twice is refused).
\<close>
theorem rdma_connect_from_init_only:
  assumes "verbs_qp_table V qst" and "rdma_init V device_name c0 h0 = (True, c, h)"
  shows "\<exists>qp h1 h2. qp_ptr c = Some qp \<and> qst h qp = QPS_INIT
       \<and> rdma_connect V remote c h = Some (True, h1) \<and> qst h1 qp = QPS_RTS
       \<and> rdma_connect V remote' c h1 = Some (False, h2) \<and> qst h2 qp = QPS_RTS"
proof -
  obtain qp where qp: "qp_ptr c = Some qp" and init: "qst h qp = QPS_INIT"
    using rdma_init_state [OF assms] by blast
  obtain r1 g1 where m1: "ibv_modify_qp V qp (rtr_attr remote c) rtr_mask h = (r1, g1)" by fastforce
  then have s1: "r1 = 0 \<and> qst g1 qp = QPS_RTR"
    using modify_qp_table [OF assms(1) m1] init by (simp add: rtr_attr_def rtr_mask_def)
  obtain r2 g2 where m2: "ibv_modify_qp V qp rts_attr rts_mask g1 = (r2, g2)" by fastforce
  then have s2: "r2 = 0 \<and> qst g2 qp = QPS_RTS"
    using modify_qp_table [OF assms(1) m2] s1 by (simp add: rts_attr_def rts_mask_def)
  obtain r3 g3 where m3: "ibv_modify_qp V qp (rtr_attr remote' c) rtr_mask g2 = (r3, g3)" by fastforce
  then have s3: "r3 \<noteq> 0 \<and> qst g3 = qst g2"
    using modify_qp_table [OF assms(1) m3] s2 by (simp add: rtr_attr_def rtr_mask_def)
  have "rdma_connect V remote c h = Some (True, g2)" using m1 m2 s1 s2 by (simp add: rdma_connect_def qp)
  moreover have "rdma_connect V remote' c g2 = Some (False, g3)" using m3 s3 by (simp add: rdma_connect_def qp)
  ultimately show ?thesis using qp init s2 s3 by metis
qed

definition zero_info :: QpInfo where
  "zero_info = \<lparr>qi_qp_num = 0, qi_lid = 0, qi_gid = replicate 16 NUL, qi_rkey = 0, qi_addr = 0, qi_num_slots = 0\<rparr>"

theorem rdma_connect_from_init_only_witness:
  "case rdma_init sim_verbs None (RdmaContext_default 4096 8192) sim_host0 of (ok, c, h) \<Rightarrow>
     (\<exists>h1. rdma_connect sim_verbs zero_info c h = Some (True, h1))"
proof -
  obtain c h where init: "rdma_init sim_verbs None (RdmaContext_default 4096 8192) sim_host0 = (True, c, h)"
    by (rule sim_init)
  show ?thesis
    using rdma_connect_from_init_only [OF sim_qp_table init, of zero_info zero_info] by (auto simp: init)
qed

text \<open>
  The busy loop of \<open>poll_completion\<close> returns exactly when some poll finds a completion or an
  error, and its result is that of the first such poll: true for a completion with status success,
  whose length becomes the receive length when it is a receive; nothing else of the context changes.
\<close>
theorem poll_completion_returns_iff:
  assumes "cq_ptr c = Some cq"
  shows "poll_completion V c h = Some (ok, c', h') \<longleftrightarrow>
     (\<exists>n ret wc. nth_poll V cq n h = (ret, wc, h') \<and> ret \<noteq> 0
        \<and> ok = (0 < ret \<and> wc_stat wc = WC_SUCCESS)
        \<and> c' = (if ok \<and> wc_op wc = WC_RECV then c\<lparr>recv_len := wc_byte_len wc\<rparr> else c))"
proof
  assume "poll_completion V c h = Some (ok, c', h')"
  then obtain ret wc h1 where loop: "poll_loop V cq h = Some (ret, wc, h1)"
    and poll: "poll_completion V c h = Some (ok, c', h')"
    using assms by (auto simp: poll_completion_def split: option.splits)
  from poll have res: "(if ret < 0 then Some (False, c, h1)
               else if wc_stat wc \<noteq> WC_SUCCESS then Some (False, c, h1)
               else Some (True, if wc_op wc = WC_RECV then c\<lparr>recv_len := wc_byte_len wc\<rparr> else c, h1))
       = Some (ok, c', h')"
    by (simp only: poll_completion_def assms loop option.case prod.case Let_def)
  obtain n where "nth_poll V cq n h = (ret, wc, h1)" "ret \<noteq> 0"
    using poll_loop_nth [OF loop] by auto
  with res show "\<exists>n ret wc. nth_poll V cq n h = (ret, wc, h') \<and> ret \<noteq> 0
        \<and> ok = (0 < ret \<and> wc_stat wc = WC_SUCCESS)
        \<and> c' = (if ok \<and> wc_op wc = WC_RECV then c\<lparr>recv_len := wc_byte_len wc\<rparr> else c)"
    by (intro exI [of _ n] exI [of _ ret] exI [of _ wc]) (auto split: if_splits)
next
  assume "\<exists>n ret wc. nth_poll V cq n h = (ret, wc, h') \<and> ret \<noteq> 0
        \<and> ok = (0 < ret \<and> wc_stat wc = WC_SUCCESS)
        \<and> c' = (if ok \<and> wc_op wc = WC_RECV then c\<lparr>recv_len := wc_byte_len wc\<rparr> else c)"
  then obtain n ret wc where n: "nth_poll V cq n h = (ret, wc, h')" "ret \<noteq> 0"
    and res: "ok = (0 < ret \<and> wc_stat wc = WC_SUCCESS)"
      "c' = (if ok \<and> wc_op wc = WC_RECV then c\<lparr>recv_len := wc_byte_len wc\<rparr> else c)" by blast
  have "poll_loop V cq h = Some (ret, wc, h')" using poll_loop_Some [of V cq n h] n by simp
  with n(2) res assms show "poll_completion V c h = Some (ok, c', h')"
    by (auto simp: poll_completion_def Let_def)
qed

definition sim_ctx :: RdmaContext where
  "sim_ctx = (RdmaContext_default 4096 8192)\<lparr>cq_ptr := Some 0, qp_ptr := Some \<lparr>qp_handle = 0, qp_number = 0\<rparr>,
     pd_ptr := Some 0, ctx_ptr := Some 0,
     send_mr := Some \<lparr>mr_handle = 1, mr_addr = 4096, mr_lkey = 1, mr_rkey = 1\<rparr>\<rparr>"

definition read_wr :: ibv_send_wr where
  "read_wr = \<lparr>wr_id = 2, wr_sge = \<lparr>sge_addr = 64, sge_length = 8, sge_lkey = 1\<rparr>, wr_op = WR_RDMA_READ,
     wr_signaled = True, wr_remote_addr = 0, wr_rkey = 1, wr_compare_add = 0\<rparr>"

theorem poll_completion_returns_iff_witness:
  "\<exists>h'. poll_completion sim_verbs sim_ctx (snd (sim_post \<lparr>qp_handle = 0, qp_number = 0\<rparr> read_wr sim_host0))
     = Some (True, sim_ctx, h')"
proof -
  let ?h = "snd (sim_post \<lparr>qp_handle = 0, qp_number = 0\<rparr> read_wr sim_host0)"
  have cq: "cq_ptr sim_ctx = Some 0" by (simp add: sim_ctx_def)
  obtain wc h' where "nth_poll sim_verbs 0 1 ?h = (1, wc, h')" "wc = sim_wc WR_RDMA_READ"
    by (simp add: sim_poll_def sim_post_def sim_host0_def read_wr_def wr_effect_def)
  then have "\<exists>n ret wc. nth_poll sim_verbs 0 n ?h = (ret, wc, h') \<and> ret \<noteq> 0
        \<and> True = (0 < ret \<and> wc_stat wc = WC_SUCCESS)
        \<and> sim_ctx = (if True \<and> wc_op wc = WC_RECV then sim_ctx\<lparr>recv_len := wc_byte_len wc\<rparr> else sim_ctx)"
    by (intro exI [of _ 1] exI [of _ 1] exI [of _ wc]) (simp add: sim_wc_def)
  with poll_completion_returns_iff [OF cq] show ?thesis by blast
qed

text \<open>
  \<open>post_send\<close> never reads past its argument nor writes past the send buffer: the request it
  posts covers, at the send buffer's address, exactly the first 4096 bytes of the message (so a
  longer message is cut), and every byte outside that range keeps its value.
\<close>
theorem post_send_truncates:
  assumes "send_mr c = Some mr" and "qp_ptr c = Some qp"
  shows "\<exists>h1 wr. post_send V data c h = Some (fst (ibv_post_send V qp wr h1) = 0, snd (ibv_post_send V qp wr h1))
       \<and> nic h1 = nic h \<and> wr_op wr = WR_SEND \<and> wr_signaled wr \<and> sge_lkey (wr_sge wr) = mr_lkey mr
       \<and> load (host_mem h1) (sge_addr (wr_sge wr)) (unat (sge_length (wr_sge wr))) = take RDMA_MSG_SIZE data
       \<and> (\<forall>a. unat (a - send_buf c) \<ge> RDMA_MSG_SIZE \<longrightarrow> host_mem h1 a = host_mem h a)"
proof -
  let ?len = "if length data < RDMA_MSG_SIZE then length data else RDMA_MSG_SIZE"
  let ?h1 = "h\<lparr>host_mem := store (host_mem h) (send_buf c) (take ?len data)\<rparr>"
  let ?wr = "\<lparr>wr_id = 1, wr_sge = \<lparr>sge_addr = send_buf c, sge_length = of_nat ?len, sge_lkey = mr_lkey mr\<rparr>,
     wr_op = WR_SEND, wr_signaled = True, wr_remote_addr = 0, wr_rkey = 0, wr_compare_add = 0\<rparr>"
  have le: "?len \<le> 4096" by (simp add: RDMA_MSG_SIZE_def)
  then have n: "unat (of_nat ?len :: u32) = ?len" by (simp add: unat_of_nat)
  have cut: "take ?len data = take RDMA_MSG_SIZE data" by simp
  have len: "length (take RDMA_MSG_SIZE data) = ?len" by (simp add: min_def)
  have read: "load (store (host_mem h) (send_buf c) (take RDMA_MSG_SIZE data)) (send_buf c) ?len = take RDMA_MSG_SIZE data"
    by (rule load_store_same) (use le len in simp_all)
  have "store (host_mem h) (send_buf c) (take RDMA_MSG_SIZE data) a = host_mem h a"
    if "unat (a - send_buf c) \<ge> RDMA_MSG_SIZE" for a
    using that by (simp add: store_def Let_def)
  then show ?thesis
    by (intro exI [of _ ?h1] exI [of _ ?wr] conjI)
      (use n read in \<open>simp_all add: post_send_def Let_def assms cut prod.case_eq_if\<close>)
qed

theorem post_send_truncates_witness:
  "\<exists>h1 wr. post_send sim_verbs (replicate 5000 CHR ''x'') sim_ctx sim_host0 = Some (True, snd (sim_post \<lparr>qp_handle = 0, qp_number = 0\<rparr> wr h1))
     \<and> load (host_mem h1) (sge_addr (wr_sge wr)) (unat (sge_length (wr_sge wr))) = replicate 4096 CHR ''x''"
proof -
  have mr: "send_mr sim_ctx = Some \<lparr>mr_handle = 1, mr_addr = 4096, mr_lkey = 1, mr_rkey = 1\<rparr>"
    and qp: "qp_ptr sim_ctx = Some \<lparr>qp_handle = 0, qp_number = 0\<rparr>" by (simp_all add: sim_ctx_def)
  have cut: "take RDMA_MSG_SIZE (replicate 5000 CHR ''x'') = replicate 4096 CHR ''x''"
    by (simp add: RDMA_MSG_SIZE_def)
  have ok: "fst (sim_post qp wr h1) = 0" for qp wr h1 by (simp add: sim_post_def)
  show ?thesis
    using post_send_truncates [OF mr qp, of sim_verbs "replicate 5000 CHR ''x''" sim_host0]
    unfolding cut sim_calls ok simp_thms by blast
qed

end
