(* ===== verification/OneSidedProps.thy ===== *)
theory OneSidedProps
  imports OneSided RdmaProps
begin

section \<open>The one-sided client against the server's table\<close>

text \<open>
  The properties of \<open>one_sided_get\<close> and \<open>one_sided_set\<close> (\<open>src/client/rdma_client.cpp\<close>): what they do
  to the table \<open>RdmaStore\<close> keeps in the exported memory, on a link that may fail and on one that
  does not, each with a run on the simulated device.
\<close>

subsection \<open>The operations against the server's table\<close>

lemma store_eqI: "slots s = slots t \<Longrightarrow> s = t"
  for s t :: RdmaStore
  by simp

lemma place_prepared:
  assumes st: "store_inv st" and ok: "key_ok key" "key_ok value" and fit: "fits key value"
    and target: "place_target (tab.place_of (slots st) key) = Some p"
    and st': "slots st' = (slots st)[p := prepared key value count]"
  shows "store_inv st'" "rdma_map st' = (rdma_map st)(key \<mapsto> value)"
proof -
  note new = prepared_facts [OF fit ok, of count]
  have inv: "tab.table_inv (slots st)" using st by (simp add: store_inv_def)
  have st'_eq: "st' = st\<lparr>slots := (slots st)[p := prepared key value count]\<rparr>" using st' by simp
  have both: "tab.table_inv ((slots st)[p := prepared key value count])
     \<and> tab.contents slot_value_of ((slots st)[p := prepared key value count])
       = (tab.contents slot_value_of (slots st))(key \<mapsto> slot_value_of (prepared key value count))"
  proof (cases "tab.place_of (slots st) key")
    case (Overwrite q)
    with target have "tab.place_of (slots st) key = Overwrite p" by simp
    then have "tab.lookup (slots st) key = Some p" by (simp only: tab.place_Overwrite)
    then show ?thesis using tab.overwrite_inv [OF inv _ new(2,3)] tab.contents_overwrite [OF inv _ new(2,3)] by blast
  next
    case (Insert q)
    with target have "tab.place_of (slots st) key = Insert p" by simp
    then obtain m where m: "m < RDMA_NUM_SLOTS" "p = tab.pos key m" "tab.chain (slots st) key m"
      "slot_status_of (slots st ! p) \<noteq> Valid" and none: "tab.lookup (slots st) key = None"
      by (rule tab.place_Insert)
    show ?thesis using tab.insert_inv [OF inv none m new(2,3)] tab.contents_insert [OF inv none m new(2,3)] by blast
  next
    case (NoEmpty tp)
    with target have "tab.place_of (slots st) key = NoEmpty (Some p)" by simp
    then obtain m where m: "m < RDMA_NUM_SLOTS" "p = tab.pos key m" "tab.chain (slots st) key m"
      "slot_status_of (slots st ! p) \<noteq> Valid" and none: "tab.lookup (slots st) key = None"
      by (rule tab.place_NoEmpty_Tomb)
    show ?thesis using tab.insert_inv [OF inv none m new(2,3)] tab.contents_insert [OF inv none m new(2,3)] by blast
  qed
  show "store_inv st'" using store_inv_update [OF st new(1)] both by (simp add: st'_eq)
  show "rdma_map st' = (rdma_map st)(key \<mapsto> value)" using both by (simp add: rdma_map_def st' new(4))
qed

text \<open>When the client finds a place: the key is stored or some slot is not valid.\<close>

lemma place_target_None:
  assumes "store_inv st"
  shows "place_target (tab.place_of (slots st) key) = None \<longleftrightarrow>
           rdma_map st key = None \<and> (\<forall>p<RDMA_NUM_SLOTS. occupied (slots st ! p) = 1)"
proof -
  have valid: "occupied (slots st ! p) = 1 \<longleftrightarrow> slot_status_of (slots st ! p) = Valid" if "p < RDMA_NUM_SLOTS" for p
    using slot_status_cases(3) [OF store_inv_slot [OF assms that]] by simp
  have all: "(\<forall>p<RDMA_NUM_SLOTS. occupied (slots st ! p) = 1) \<longleftrightarrow>
     (\<forall>p<RDMA_NUM_SLOTS. slot_status_of (slots st ! p) = Valid)" using valid by blast
  show ?thesis
  proof (cases "tab.place_of (slots st) key")
    case (Overwrite p)
    then have "tab.lookup (slots st) key = Some p" by (simp add: tab.place_Overwrite)
    with Overwrite show ?thesis by (simp add: rdma_map_def tab.contents_def)
  next
    case (Insert p)
    then obtain m where "m < RDMA_NUM_SLOTS" "p = tab.pos key m" "slot_status_of (slots st ! p) \<noteq> Valid"
      by (rule tab.place_Insert)
    then have "p < RDMA_NUM_SLOTS \<and> slot_status_of (slots st ! p) \<noteq> Valid" by simp
    with Insert all show ?thesis by auto
  next
    case (NoEmpty tp)
    note full = tab.place_NoEmpty [OF NoEmpty]
    have tp: "tp = tab.tomb_upto (slots st) key RDMA_NUM_SLOTS" using full by simp
    have "tp = None \<longleftrightarrow> (\<forall>p<RDMA_NUM_SLOTS. slot_status_of (slots st ! p) = Valid)"
    proof
      assume "tp = None"
      then have no: "\<forall>j<RDMA_NUM_SLOTS. slot_status_of (slots st ! tab.pos key j) \<noteq> Tomb"
        using tp by (auto simp: tab.tomb_upto_def find_None_iff)
      show "\<forall>p<RDMA_NUM_SLOTS. slot_status_of (slots st ! p) = Valid"
      proof (intro allI impI)
        fix p assume "p < RDMA_NUM_SLOTS"
        then obtain j where "j < RDMA_NUM_SLOTS" "tab.pos key j = p" by (rule tab.pos_surj)
        with no full show "slot_status_of (slots st ! p) = Valid"
          by (cases "slot_status_of (slots st ! p)") auto
      qed
    next
      assume valid: "\<forall>p<RDMA_NUM_SLOTS. slot_status_of (slots st ! p) = Valid"
      then have "slot_status_of (slots st ! tab.pos key j) \<noteq> Tomb" for j using tab.pos_less [of key j] by auto
      then show "tp = None" using tp by (simp add: tab.tomb_upto_def find_None_iff)
    qed
    with NoEmpty full all show ?thesis by (simp add: rdma_map_def tab.contents_def)
  qed
qed

lemma one_sided_set_core:
  assumes "one_sided_session V c info lks remote idle" and "idle h"
    and "store_inv (exported info (remote h))" and "key_ok key" and "key_ok value" and "slot_lkey \<in> lks"
  shows "\<exists>r h'. one_sided_set V c info local slot_lkey key value h = Some (r, c, h')
     \<and> store_inv (exported info (remote h'))
     \<and> (rdma_map (exported info (remote h')) = (rdma_map (exported info (remote h)))(key \<mapsto> value)
        \<or> r \<noteq> Inr () \<and> rdma_map (exported info (remote h')) = rdma_map (exported info (remote h)))
     \<and> (session_never_fails V c info lks idle \<longrightarrow> r =
          (if length key \<ge> RDMA_KEY_MAX then Inl ''key too long''
           else if length value \<ge> RDMA_VALUE_MAX then Inl ''value too long''
           else if rdma_get key (exported info (remote h)) = None
              \<and> (\<forall>p<RDMA_NUM_SLOTS. occupied (slots (exported info (remote h)) ! p) = 1) then Inl ''remote table full''
           else Inr ()) \<and> idle h'
          \<and> (r \<noteq> Inr () \<longrightarrow> rdma_map (exported info (remote h')) = rdma_map (exported info (remote h))))"
proof (cases "fits key value")
  case False
  then have "one_sided_set V c info local slot_lkey key value h
     = Some (Inl (if length key \<ge> RDMA_KEY_MAX then ''key too long'' else ''value too long''), c, h)"
    by (auto simp: one_sided_set_def fits_def)
  with assms(2,3) False show ?thesis by (auto simp: fits_def)
next
  case True
  let ?st = "exported info (remote h)" and ?pl = "tab.place_of (slots (exported info (remote h))) key"
  have "one_sided_set V c info local slot_lkey key value h
     = set_probe V info local slot_lkey key value (fnv1a key) 0 False 0 c h"
    using True by (simp add: one_sided_set_def fits_def)
  with set_probe_result [OF assms(1-3,6) True, where i = 0 and local = local] obtain r h'
    where run: "one_sided_set V c info local slot_lkey key value h = Some (r, c, h')"
      and post: "set_post key value (slots ?st) ?pl (slots (exported info (remote h'))) r"
      and good: "session_never_fails V c info lks idle \<longrightarrow> r = (if place_target ?pl = None then Inl ''remote table full'' else Inr ()) \<and> idle h'"
    by (auto simp: tomb_addr_def tab.place_of_def)
  have room: "place_target ?pl = None \<longleftrightarrow> rdma_get key ?st = None \<and> (\<forall>p<RDMA_NUM_SLOTS. occupied (slots ?st ! p) = 1)"
    using place_target_None [OF assms(3), of key] by (auto simp: rdma_get_map assms(3,4))
  have "store_inv (exported info (remote h'))
     \<and> (rdma_map (exported info (remote h')) = (rdma_map ?st)(key \<mapsto> value)
        \<or> r \<noteq> Inr () \<and> rdma_map (exported info (remote h')) = rdma_map ?st)"
  proof (cases "place_target ?pl")
    case None
    with post have "r \<noteq> Inr ()" "exported info (remote h') = ?st"
      by (simp_all add: set_post_def store_eqI)
    with assms(3) show ?thesis by simp
  next
    case (Some p)
    with post consider (new) "slots (exported info (remote h')) = (slots ?st)[p := prepared key value (kept_count (slots ?st) ?pl)]"
      | (old) "r \<noteq> Inr ()" "exported info (remote h') = ?st"
      by (auto simp: set_post_def store_eqI)
    then show ?thesis
    proof cases
      case new
      from place_prepared [OF assms(3-5) True Some new] show ?thesis by simp
    next
      case old
      with assms(3) show ?thesis by simp
    qed
  qed
  moreover have "session_never_fails V c info lks idle \<Longrightarrow> r \<noteq> Inr () \<Longrightarrow> rdma_map (exported info (remote h')) = rdma_map ?st"
    using good post by (auto simp: set_post_def rdma_map_def split: if_splits)
  ultimately show ?thesis using run good room True by (auto simp: fits_def)
qed

lemma one_sided_set_succeeds:
  assumes "one_sided_session V c info lks remote idle" and "idle h"
    and "store_inv (exported info (remote h))" and "key_ok key" and "key_ok value" and "slot_lkey \<in> lks"
  shows "\<exists>r h'. one_sided_set V c info local slot_lkey key value h = Some (r, c, h')
     \<and> store_inv (exported info (remote h'))
     \<and> (rdma_map (exported info (remote h')) = (rdma_map (exported info (remote h)))(key \<mapsto> value)
        \<or> r \<noteq> Inr () \<and> rdma_map (exported info (remote h')) = rdma_map (exported info (remote h)))
     \<and> (session_never_fails V c info lks idle \<longrightarrow>
          (r = Inr ()) = (length key < RDMA_KEY_MAX \<and> length value < RDMA_VALUE_MAX
            \<and> (rdma_get key (exported info (remote h)) \<noteq> None
               \<or> (\<exists>p<RDMA_NUM_SLOTS. occupied (slots (exported info (remote h)) ! p) \<noteq> 1))))"
proof -
  let ?st = "exported info (remote h)"
  obtain r h' where run: "one_sided_set V c info local slot_lkey key value h = Some (r, c, h')"
    and upd: "store_inv (exported info (remote h'))"
      "rdma_map (exported info (remote h')) = (rdma_map ?st)(key \<mapsto> value)
        \<or> r \<noteq> Inr () \<and> rdma_map (exported info (remote h')) = rdma_map ?st"
    and good: "session_never_fails V c info lks idle \<longrightarrow> r =
          (if length key \<ge> RDMA_KEY_MAX then Inl ''key too long''
           else if length value \<ge> RDMA_VALUE_MAX then Inl ''value too long''
           else if rdma_get key ?st = None \<and> (\<forall>p<RDMA_NUM_SLOTS. occupied (slots ?st ! p) = 1) then Inl ''remote table full''
           else Inr ())"
    using one_sided_set_core [OF assms, of local] by blast
  from good have "session_never_fails V c info lks idle \<longrightarrow> (r = Inr ()) = (length key < RDMA_KEY_MAX \<and> length value < RDMA_VALUE_MAX
        \<and> (rdma_get key ?st \<noteq> None \<or> (\<exists>p<RDMA_NUM_SLOTS. occupied (slots ?st ! p) \<noteq> 1)))"
    by (auto split: if_splits)
  with run upd show ?thesis by blast
qed

lemma one_sided_get_core:
  assumes "one_sided_session V c info lks remote idle" and "idle h"
    and "store_inv (exported info (remote h))" and "key_ok key"
    and "slot_lkey \<in> lks" and "atomic_lkey \<in> lks" and "8 dvd unat (qi_addr info)"
    and "misses local slot_size atomic_result 8"
  shows "\<exists>ok h'. one_sided_get V c info local slot_lkey key counting atomic_result atomic_lkey h = Some (ok, c, h')
     \<and> (ok \<longrightarrow> rdma_get key (exported info (remote h)) = Some (c_str (slot_value (slot_at (host_mem h') local))))
     \<and> (session_never_fails V c info lks idle \<longrightarrow> ok = (rdma_get key (exported info (remote h)) \<noteq> None) \<and> idle h')
     \<and> store_inv (exported info (remote h'))
     \<and> rdma_map (exported info (remote h')) = rdma_map (exported info (remote h))
     \<and> (\<not> counting \<longrightarrow> remote h' = remote h)"
proof -
  let ?st = "exported info (remote h)"
  obtain ok h' where run: "one_sided_get V c info local slot_lkey key counting atomic_result atomic_lkey h = Some (ok, c, h')"
    and post: "get_post info remote local atomic_result counting (tab.lookup (slots ?st) key) h ok h'"
    and good: "session_never_fails V c info lks idle \<longrightarrow> ok = (tab.lookup (slots ?st) key \<noteq> None) \<and> idle h'"
    using get_probe_result [OF assms(1-3,5-8), of key counting 0]
    unfolding one_sided_get_def tab.lookup_def by blast
  have get: "rdma_get key ?st = map_option (\<lambda>p. slot_value_of (slots ?st ! p)) (tab.lookup (slots ?st) key)"
    by (simp add: rdma_get_map assms(3,4) rdma_map_def tab.contents_def)
  show ?thesis
  proof (cases "tab.lookup (slots ?st) key")
    case None
    with post have "\<not> ok" "remote h' = remote h" by (simp_all add: get_post_def)
    with run good None get assms(3) show ?thesis by (intro exI [of _ ok] exI [of _ h']) simp
  next
    case (Some p)
    then have p: "p < RDMA_NUM_SLOTS" by (auto dest: tab.lookup_SomeD)
    note counted = bump_count_inv [OF assms(3) p, folded exported_bumped [OF p]]
    have "remote h' = remote h \<or> counting
       \<and> remote h' = add_u64 (remote h) (slot_addr (qi_addr info) p + of_nat access_count_offset) 1"
      using post Some by (auto simp: get_post_def Let_def split: if_splits)
    then have "store_inv (exported info (remote h'))" "rdma_map (exported info (remote h')) = rdma_map ?st"
      "\<not> counting \<longrightarrow> remote h' = remote h"
      using counted assms(3) by auto
    moreover have "ok \<longrightarrow> rdma_get key ?st = Some (c_str (slot_value (slot_at (host_mem h') local)))"
      using post Some p by (simp add: get get_post_def Let_def slot_value_of_def)
    ultimately show ?thesis using run good Some get by (intro exI [of _ ok] exI [of _ h']) simp
  qed
qed

subsection \<open>Properties of the one-sided client\<close>

text \<open>Example tables in the simulated peer's memory: all zero, and with \<open>a\<close> stored.\<close>

lemma zero_mem_exported: "exported info (\<lambda>_. NUL) = RdmaStore_init"
proof -
  have "load (\<lambda>_. NUL) a slot_size = replicate slot_size NUL" for a
    by (simp add: load_def map_replicate_const)
  moreover have "decode_slot (replicate slot_size NUL) = zero_slot"
  proof -
    have "bytes_u64 (replicate 8 NUL) = 0" by (simp add: bytes_u64_def eval_nat_numeral)
    then show ?thesis
      by (simp add: decode_slot_def zero_slot_def slot_size_def access_count_offset_def rdma_sizes)
  qed
  ultimately have "slots (exported info (\<lambda>_. NUL)) = slots RdmaStore_init"
    by (simp add: exported_def table_at_def slot_at_def RdmaStore_init_def map_replicate_const)
  then show ?thesis by (rule store_eqI)
qed

definition mem_with_a :: mem where
  "mem_with_a = store (\<lambda>_. NUL) (slot_addr 0 (slot_index ''a'')) (encode_slot (prepared ''a'' ''1'' 0))"

lemma mem_with_a_exported:
  "store_inv (exported zero_info mem_with_a)" "rdma_map (exported zero_info mem_with_a) ''a'' = Some ''1''"
proof -
  let ?st = "exported zero_info (\<lambda>_. NUL)"
  have fit: "fits ''a'' ''1''" by (simp add: fits_def rdma_sizes)
  note new = prepared_facts [OF fit key_ok_ab, of 0]
  have st: "store_inv ?st" and map: "rdma_map ?st = Map.empty"
    by (simp_all add: zero_mem_exported store_inv_init rdma_map_init)
  have inv: "tab.table_inv (slots ?st)" using st by (simp add: store_inv_def)
  have none: "tab.lookup (slots ?st) ''a'' = None"
    using map by (metis map_option_is_None rdma_map_def tab.contents_def)
  have home: "slot_index ''a'' = tab.pos ''a'' 0" using slot_index_less by (simp add: tab.pos_def)
  have slots': "slots (exported zero_info mem_with_a) = (slots ?st)[slot_index ''a'' := prepared ''a'' ''1'' 0]"
    unfolding exported_def mem_with_a_def
    by (simp add: zero_info_def table_at_store_slot slot_index_less new(5))
  have free: "slot_status_of (slots ?st ! slot_index ''a'') \<noteq> Valid"
    using slot_index_less by (simp add: zero_mem_exported RdmaStore_init_def slot_status_of_def zero_slot_def)
  have "tab.chain (slots ?st) ''a'' 0" by (simp add: tab.chain_def)
  note args = inv none tab.N_pos home this free new(2,3)
  have eq: "exported zero_info mem_with_a = ?st\<lparr>slots := (slots ?st)[slot_index ''a'' := prepared ''a'' ''1'' 0]\<rparr>"
    using slots' by simp
  show "store_inv (exported zero_info mem_with_a)"
    unfolding eq by (rule store_inv_update [OF st new(1) tab.insert_inv [OF args]])
  show "rdma_map (exported zero_info mem_with_a) ''a'' = Some ''1''"
    by (simp add: rdma_map_def slots' tab.contents_insert [OF args] new(4))
qed

definition sim_peer :: "mem \<Rightarrow> sim host" where
  "sim_peer m = sim_host0\<lparr>nic := (nic sim_host0)\<lparr>sim_remote := m\<rparr>\<rparr>"

lemma sim_peer [simp]: "sim_remote (nic (sim_peer m)) = m" "sim_idle (sim_peer m)"
  by (simp_all add: sim_peer_def sim_idle_def sim_host0_def)

lemma sim_session:
  "one_sided_session sim_verbs sim_ctx zero_info {1} (\<lambda>h. sim_remote (nic h)) sim_idle"
  "session_never_fails sim_verbs sim_ctx zero_info {1} sim_idle"
  by (simp_all add: one_sided_session_def session_never_fails_def sim_data_path sim_never_fails)
    (simp add: sim_ctx_def)

lemma sim_buffers: "misses 65536 slot_size 0 8"
proof -
  have "unat (65536 + of_nat i :: u64) = 65536 + i" if "i < slot_size" for i
    using unat_of_nat64 [of "65536 + i"] that by (simp add: slot_size_def)
  then show ?thesis by (simp add: misses_def)
qed

text \<open>
  C3: A one-sided GET is the server's \<open>get\<close> on the exported array, whatever the completions do. It
  always returns; true means the server's table holds the key and the local buffer now holds its
  value; on a link without failures it returns true exactly when the server's \<open>get\<close> finds the key;
  and the server's table stays well-formed with the same contents, byte for byte unless metadata
  counting was asked for.
\<close>
theorem one_sided_get_matches_server:
  assumes "one_sided_session V c info lks remote idle" and "idle h"
    and "store_inv (exported info (remote h))" and "key_ok key"
    and "slot_lkey \<in> lks" and "atomic_lkey \<in> lks" and "8 dvd unat (qi_addr info)"
    and "misses local slot_size atomic_result 8"
  shows "\<exists>ok h'. one_sided_get V c info local slot_lkey key counting atomic_result atomic_lkey h = Some (ok, c, h')
     \<and> (ok \<longrightarrow> rdma_get key (exported info (remote h)) = Some (c_str (slot_value (slot_at (host_mem h') local))))
     \<and> (session_never_fails V c info lks idle \<longrightarrow> ok = (rdma_get key (exported info (remote h)) \<noteq> None))
     \<and> store_inv (exported info (remote h'))
     \<and> rdma_map (exported info (remote h')) = rdma_map (exported info (remote h))
     \<and> (\<not> counting \<longrightarrow> remote h' = remote h)"
  using one_sided_get_core [OF assms] by blast

theorem one_sided_get_matches_server_witness:
  "\<exists>h'. one_sided_get sim_verbs sim_ctx zero_info 65536 1 ''a'' True 0 1 (sim_peer mem_with_a) = Some (True, sim_ctx, h')
     \<and> c_str (slot_value (slot_at (host_mem h') 65536)) = ''1''"
proof -
  have inv: "store_inv (exported zero_info (sim_remote (nic (sim_peer mem_with_a))))"
    by (simp add: mem_with_a_exported)
  have get: "rdma_get ''a'' (exported zero_info mem_with_a) = Some ''1''"
    by (simp add: rdma_get_map mem_with_a_exported key_ok_ab)
  have al: "8 dvd unat (qi_addr zero_info)" by (simp add: zero_info_def)
  from one_sided_get_matches_server [OF sim_session(1) sim_peer(2) inv key_ok_ab(1) _ _ al sim_buffers, of 1 1 True]
  show ?thesis using sim_session(2) get by auto
qed

text \<open>
  C4: A one-sided SET against the server's table, whatever the completions do: it always returns;
  the table stays well-formed; success means the server's table now maps the key to the value, and
  an error means it maps it either to the value or to what it had before, every other key
  untouched. On a link without failures it succeeds exactly when key and value fit and the key is
  stored or some slot is empty or a tombstone.
\<close>
theorem one_sided_set_updates_server:
  assumes "one_sided_session V c info lks remote idle" and "idle h"
    and "store_inv (exported info (remote h))" and "key_ok key" and "key_ok value" and "slot_lkey \<in> lks"
  shows "\<exists>r h'. one_sided_set V c info local slot_lkey key value h = Some (r, c, h')
     \<and> store_inv (exported info (remote h'))
     \<and> (rdma_map (exported info (remote h')) = (rdma_map (exported info (remote h)))(key \<mapsto> value)
        \<or> r \<noteq> Inr () \<and> rdma_map (exported info (remote h')) = rdma_map (exported info (remote h)))
     \<and> (session_never_fails V c info lks idle \<longrightarrow>
          (r = Inr ()) = (length key < RDMA_KEY_MAX \<and> length value < RDMA_VALUE_MAX
            \<and> (rdma_get key (exported info (remote h)) \<noteq> None
               \<or> (\<exists>p<RDMA_NUM_SLOTS. occupied (slots (exported info (remote h)) ! p) \<noteq> 1))))"
  by (rule one_sided_set_succeeds [OF assms])

theorem one_sided_set_updates_server_witness:
  "\<exists>h'. one_sided_set sim_verbs sim_ctx zero_info 65536 1 ''a'' ''1'' (sim_peer (\<lambda>_. NUL)) = Some (Inr (), sim_ctx, h')
     \<and> rdma_map (exported zero_info (sim_remote (nic h'))) = [''a'' \<mapsto> ''1'']"
proof -
  have inv: "store_inv (exported zero_info (sim_remote (nic (sim_peer (\<lambda>_. NUL)))))"
    by (simp add: zero_mem_exported store_inv_init)
  have occ: "occupied (slots RdmaStore_init ! 0) \<noteq> 1" and pos: "0 < RDMA_NUM_SLOTS"
    by (simp_all add: RdmaStore_init_def zero_slot_def RDMA_NUM_SLOTS_def)
  from one_sided_set_updates_server [OF sim_session(1) sim_peer(2) inv key_ok_ab, of 1 65536]
  obtain r h' where *: "one_sided_set sim_verbs sim_ctx zero_info 65536 1 ''a'' ''1'' (sim_peer (\<lambda>_. NUL)) = Some (r, sim_ctx, h')"
    "rdma_map (exported zero_info (sim_remote (nic h'))) = [''a'' \<mapsto> ''1''] \<or> r \<noteq> Inr ()" "r = Inr ()"
    using sim_session(2) occ pos by (auto simp: zero_mem_exported rdma_map_init RDMA_KEY_MAX_def RDMA_VALUE_MAX_def)
  then show ?thesis by blast
qed

text \<open>
  C36: Client and server SET compared on the same table, over a link without failures: whenever the
  server's \<open>set\<close> would succeed the client's succeeds too and leaves the table with the same
  contents; the client succeeds where the server refuses exactly when the key is new, no slot is
  empty and some slot is a tombstone.
\<close>
theorem client_set_extends_server_set:
  assumes "one_sided_session V c info lks remote idle" and "session_never_fails V c info lks idle"
    and "idle h" and "store_inv (exported info (remote h))" and "key_ok key" and "key_ok value"
    and "slot_lkey \<in> lks"
  shows "\<exists>r h'. one_sided_set V c info local slot_lkey key value h = Some (r, c, h')
     \<and> (let st = exported info (remote h); (server_ok, st') = rdma_set key value st in
        (if server_ok then r = Inr () \<and> rdma_map (exported info (remote h')) = rdma_map st'
         else (r = Inr ()) = (length key < RDMA_KEY_MAX \<and> length value < RDMA_VALUE_MAX \<and> rdma_get key st = None
           \<and> (\<forall>p<RDMA_NUM_SLOTS. occupied (slots st ! p) \<noteq> 0)
           \<and> (\<exists>p<RDMA_NUM_SLOTS. occupied (slots st ! p) = 2))))"
proof -
  let ?st = "exported info (remote h)"
  obtain r h' where run: "one_sided_set V c info local slot_lkey key value h = Some (r, c, h')"
    and upd: "rdma_map (exported info (remote h')) = (rdma_map ?st)(key \<mapsto> value)
        \<or> r \<noteq> Inr () \<and> rdma_map (exported info (remote h')) = rdma_map ?st"
    and ok: "(r = Inr ()) = (fits key value
            \<and> (rdma_get key ?st \<noteq> None \<or> (\<exists>p<RDMA_NUM_SLOTS. occupied (slots ?st ! p) \<noteq> 1)))"
    using one_sided_set_succeeds [OF assms(1,3-7), of local] assms(2) unfolding fits_def by blast
  have server: "fst (rdma_set key value ?st) = (fits key value
            \<and> (rdma_get key ?st \<noteq> None \<or> (\<exists>p<RDMA_NUM_SLOTS. occupied (slots ?st ! p) = 0)))"
    by (simp add: rdma_set_accepts assms(4,5) full_iff_used rdma_get_map)
  have vals: "occupied (slots ?st ! p) \<in> {0, 1, 2}" if "p < RDMA_NUM_SLOTS" for p
    using store_inv_slot [OF assms(4) that] by (simp only: slot_ok_def)
  have zero_two: "(\<exists>p<RDMA_NUM_SLOTS. occupied (slots ?st ! p) \<noteq> 1) \<longleftrightarrow>
     (\<exists>p<RDMA_NUM_SLOTS. occupied (slots ?st ! p) = 0) \<or> (\<exists>p<RDMA_NUM_SLOTS. occupied (slots ?st ! p) = 2)"
    using vals by fastforce
  show ?thesis
  proof (cases "fst (rdma_set key value ?st)")
    case True
    then have "r = Inr ()" using ok server zero_two by blast
    moreover have "rdma_map (snd (rdma_set key value ?st)) = (rdma_map ?st)(key \<mapsto> value)"
      using rdma_set_refines(2) [OF assms(4-6)] True by simp
    ultimately show ?thesis using run upd True
      by (intro exI [of _ r] exI [of _ h']) (simp add: prod.case_eq_if)
  next
    case False
    then have "(r = Inr ()) = (fits key value \<and> rdma_get key ?st = None
       \<and> (\<forall>p<RDMA_NUM_SLOTS. occupied (slots ?st ! p) \<noteq> 0) \<and> (\<exists>p<RDMA_NUM_SLOTS. occupied (slots ?st ! p) = 2))"
      using ok server zero_two by blast
    then show ?thesis using run False
      by (intro exI [of _ r] exI [of _ h']) (simp add: prod.case_eq_if fits_def)
  qed
qed

theorem client_set_extends_server_set_witness:
  "\<exists>h'. one_sided_set sim_verbs sim_ctx zero_info 65536 1 ''a'' ''1'' (sim_peer (\<lambda>_. NUL)) = Some (Inr (), sim_ctx, h')
     \<and> rdma_map (exported zero_info (sim_remote (nic h'))) = rdma_map (snd (rdma_set ''a'' ''1'' RdmaStore_init))"
proof -
  have inv: "store_inv (exported zero_info (sim_remote (nic (sim_peer (\<lambda>_. NUL)))))"
    by (simp add: zero_mem_exported store_inv_init)
  have "used RdmaStore_init < RDMA_NUM_SLOTS" "fits ''a'' ''1''" by (simp_all add: fits_def rdma_sizes)
  then have ok: "fst (rdma_set ''a'' ''1'' RdmaStore_init)"
    by (simp add: rdma_set_accepts store_inv_init key_ok_ab)
  from client_set_extends_server_set [OF sim_session sim_peer(2) inv key_ok_ab, of 1 65536]
  show ?thesis using ok by (auto simp: zero_mem_exported prod.case_eq_if)
qed

text \<open>
  The address contract between the machines: for every key and probe counter the client's
  remote address is that of the slot the server probes (same FNV-1a hash, same mask, base plus
  index times 1024 modulo \<open>2 ^ 64\<close>), and its 1024 bytes lie inside the registered region.
\<close>
theorem client_addresses_server_slots:
  "qi_addr info + of_nat ((fnv1a key + i) AND (RDMA_NUM_SLOTS - 1)) * of_nat slot_size
     = slot_addr (qi_addr info) ((slot_index key + i) mod RDMA_NUM_SLOTS)
   \<and> unat (slot_addr (qi_addr info) ((slot_index key + i) mod RDMA_NUM_SLOTS) - qi_addr info) + slot_size
       \<le> RDMA_NUM_SLOTS * slot_size"
proof -
  have p: "tab.pos key i < RDMA_NUM_SLOTS" by simp
  show ?thesis
    using slot_addr_region [OF p, of 0 slot_size "qi_addr info"]
    unfolding client_probe_addr by (simp add: tab.pos_def)
qed

end
