(* ===== verification/Decimal.thy ===== *)
theory Decimal
  imports Prelude
begin

section \<open>Decimal text of numbers\<close>

text \<open>
  \<open>std::to_string\<close> on unsigned numbers and the \<open>%08zu\<close> of \<open>snprintf\<close>, as the socket helpers, the
  preloading loop of the RDMA server and the benchmark keys use them, with the facts that the text
  has only digits and determines the number.
\<close>

definition digit_char :: "nat \<Rightarrow> char" where
  "digit_char d = char_of (48 + d)"

fun to_string :: "nat \<Rightarrow> string" where
  "to_string n = (if n < 10 then [digit_char n] else to_string (n div 10) @ [digit_char (n mod 10)])"

declare to_string.simps [simp del]

definition zero_padded :: "nat \<Rightarrow> nat \<Rightarrow> string" where
  "zero_padded width n = replicate (width - length (to_string n)) (CHR ''0'') @ to_string n"

text \<open>The number a digit string denotes.\<close>

definition digit_of :: "char \<Rightarrow> nat" where
  "digit_of c = of_char c - 48"

definition number_of :: "string \<Rightarrow> nat" where
  "number_of s = foldl (\<lambda>n c. 10 * n + digit_of c) 0 s"

definition is_digit :: "char \<Rightarrow> bool" where
  "is_digit c \<longleftrightarrow> 48 \<le> (of_char c :: nat) \<and> (of_char c :: nat) < 58"

lemma digit_char_facts [simp]:
  assumes "d < 10"
  shows "digit_of (digit_char d) = d" "is_digit (digit_char d)"
  using assms by (simp_all add: digit_char_def digit_of_def is_digit_def)

lemma to_string_nonempty [simp]: "to_string n \<noteq> []"
  by (subst to_string.simps) simp

lemma to_string_digits: "\<forall>c\<in>set (to_string n). is_digit c"
proof (induction n rule: to_string.induct)
  case (1 n)
  then show ?case by (subst to_string.simps) auto
qed

lemma number_of_to_string [simp]: "number_of (to_string n) = n"
proof (induction n rule: to_string.induct)
  case (1 n)
  then show ?case
    by (subst to_string.simps) (simp add: number_of_def)
qed

lemma to_string_inject [simp]: "to_string m = to_string n \<longleftrightarrow> m = n"
  by (metis number_of_to_string)

lemma digit_free_chars: "is_digit c \<Longrightarrow> c \<noteq> NUL \<and> c \<noteq> NL \<and> c \<noteq> CR \<and> c \<noteq> SP \<and> c \<noteq> CHR '',''"
  by (auto simp: is_digit_def)

lemma to_string_plain [simp]:
  "NUL \<notin> set (to_string n)" "NL \<notin> set (to_string n)" "SP \<notin> set (to_string n)" "CHR '','' \<notin> set (to_string n)"
  using to_string_digits [of n] digit_free_chars by blast+

lemma length_to_string_le: "n < 10 ^ k \<Longrightarrow> 0 < k \<Longrightarrow> length (to_string n) \<le> k"
proof (induction n arbitrary: k rule: to_string.induct)
  case (1 n)
  show ?case
  proof (cases "n < 10")
    case True
    then show ?thesis using 1 by (subst to_string.simps) simp
  next
    case False
    then have k: "1 < k" using 1(2,3) by (cases "k = 1") auto
    then obtain j where j: "k = Suc j" "0 < j" by (cases k) auto
    then have "n div 10 < 10 ^ j" using 1(2) by (simp add: less_mult_imp_div_less mult.commute)
    with 1(1) [OF False, of j] j False show ?thesis by (subst to_string.simps) simp
  qed
qed

lemma number_of_zeros [simp]: "number_of (replicate k (CHR ''0'') @ s) = number_of s"
proof -
  have "foldl (\<lambda>n c. 10 * n + digit_of c) 0 (replicate k (CHR ''0'')) = 0"
    by (induction k) (simp_all add: digit_of_def)
  then show ?thesis by (simp add: number_of_def)
qed

lemma number_of_zero_padded [simp]: "number_of (zero_padded w n) = n"
  by (simp add: zero_padded_def)

lemma zero_padded_digits: "\<forall>c\<in>set (zero_padded w n). is_digit c"
  using to_string_digits [of n] by (auto simp: zero_padded_def is_digit_def)

lemma length_zero_padded: "n < 10 ^ w \<Longrightarrow> 0 < w \<Longrightarrow> length (zero_padded w n) = w"
  using length_to_string_le [of n w] by (simp add: zero_padded_def)

end
