(* ===== verification/SocketUtils.thy ===== *)
theory SocketUtils
  imports Decimal
begin

section \<open>Socket helpers (\<open>net/socket_utils\<close>)\<close>

text \<open>
  Models \<open>include/net/socket_utils.hpp\<close> and \<open>src/net/socket_utils.cpp\<close>. The kernel is not part of
  the repository: the record \<open>kernel\<close> holds its calls as state transformers on a world \<open>'w\<close>, a
  failed call carries its \<open>errno\<close>, and \<open>sys_read\<close>/\<open>sys_write\<close> stand beside \<open>sys_recv\<close>/\<open>sys_send\<close> as
  in POSIX. What the code relies on is stated as predicates: \<open>kernel_table\<close> (which descriptors exist
  and how each is configured) and \<open>kernel_streams\<close> (what a transfer moves). Loops that retry
  interrupted calls are \<open>partial_function\<close>s, since nothing bounds the interruptions. An address is a
  record of numbers in host order, so \<open>htonl\<close> and \<open>htons\<close> do not appear.
\<close>

subsection \<open>The calls\<close>

datatype errno = EINTR | EAGAIN | EOTHER nat

datatype read_result = ReadBytes string | ReadEof | ReadFail errno

datatype write_result = Wrote nat | WriteFail errno

datatype accept_call = AcceptedFd int | AcceptFail errno

datatype addr_family = AF_UNSPEC | AF_INET | AF_INET6

datatype sock_type = SOCK_STREAM | SOCK_DGRAM

record sockaddr_in =
  sin_family :: addr_family
  sin_addr :: u32
  sin_port :: u16

record addrinfo =
  ai_family :: addr_family
  ai_socktype :: sock_type
  ai_protocol :: int
  ai_addr :: string

record 'w kernel =
  sys_socket :: "addr_family \<Rightarrow> sock_type \<Rightarrow> int \<Rightarrow> 'w \<Rightarrow> int \<times> 'w"
  sys_reuseaddr :: "int \<Rightarrow> int \<Rightarrow> 'w \<Rightarrow> int \<times> 'w"
  sys_bind :: "int \<Rightarrow> sockaddr_in \<Rightarrow> 'w \<Rightarrow> int \<times> 'w"
  sys_listen :: "int \<Rightarrow> int \<Rightarrow> 'w \<Rightarrow> int \<times> 'w"
  sys_connect :: "int \<Rightarrow> string \<Rightarrow> 'w \<Rightarrow> int \<times> 'w"
  sys_accept :: "int \<Rightarrow> 'w \<Rightarrow> accept_call \<times> 'w"
  sys_getfl :: "int \<Rightarrow> 'w \<Rightarrow> int \<times> 'w"
  sys_setfl :: "int \<Rightarrow> int \<Rightarrow> 'w \<Rightarrow> int \<times> 'w"
  sys_close :: "int \<Rightarrow> 'w \<Rightarrow> 'w"
  sys_getaddrinfo :: "string \<Rightarrow> string \<Rightarrow> addr_family \<Rightarrow> sock_type \<Rightarrow> 'w \<Rightarrow> (int \<times> addrinfo list) \<times> 'w"
  sys_freeaddrinfo :: "addrinfo list \<Rightarrow> 'w \<Rightarrow> 'w"
  sys_recv :: "int \<Rightarrow> nat \<Rightarrow> 'w \<Rightarrow> read_result \<times> 'w"
  sys_send :: "int \<Rightarrow> string \<Rightarrow> 'w \<Rightarrow> write_result \<times> 'w"
  sys_read :: "int \<Rightarrow> nat \<Rightarrow> 'w \<Rightarrow> read_result \<times> 'w"
  sys_write :: "int \<Rightarrow> string \<Rightarrow> 'w \<Rightarrow> write_result \<times> 'w"

text \<open>\<open>O_NONBLOCK\<close> of \<open>fcntl.h\<close> (octal 4000), and \<open>INADDR_ANY\<close>.\<close>

definition O_NONBLOCK :: int where "O_NONBLOCK = 2048"

definition INADDR_ANY :: u32 where "INADDR_ANY = 0"

subsection \<open>Set-up\<close>

definition close_socket :: "'w kernel \<Rightarrow> int \<Rightarrow> 'w \<Rightarrow> 'w" where
  "close_socket K fd w = (if fd \<ge> 0 then sys_close K fd w else w)"

definition set_reuseaddr :: "'w kernel \<Rightarrow> int \<Rightarrow> 'w \<Rightarrow> bool \<times> 'w" where
  "set_reuseaddr K fd w = (let (ret, w) = sys_reuseaddr K fd 1 w in (ret = 0, w))"

definition set_non_blocking :: "'w kernel \<Rightarrow> int \<Rightarrow> 'w \<Rightarrow> bool \<times> 'w" where
  "set_non_blocking K fd w =
     (let (flags, w) = sys_getfl K fd w in
      if flags < 0 then (False, w)
      else let (ret, w) = sys_setfl K fd (flags OR O_NONBLOCK) w in (ret = 0, w))"

definition create_server_socket :: "'w kernel \<Rightarrow> u16 \<Rightarrow> int \<Rightarrow> 'w \<Rightarrow> int \<times> 'w" where
  "create_server_socket K port backlog w =
     (let (fd, w) = sys_socket K AF_INET SOCK_STREAM 0 w in
      if fd < 0 then (-1, w) else
      let (ok, w) = set_reuseaddr K fd w in
      if \<not> ok then (-1, close_socket K fd w) else
      let sa = \<lparr>sin_family = AF_INET, sin_addr = INADDR_ANY, sin_port = port\<rparr>;
          (ret, w) = sys_bind K fd sa w in
      if ret < 0 then (-1, close_socket K fd w) else
      let (ret, w) = sys_listen K fd backlog w in
      if ret < 0 then (-1, close_socket K fd w) else
      let (ok, w) = set_non_blocking K fd w in
      if \<not> ok then (-1, close_socket K fd w) else (fd, w))"

text \<open>The loop over the candidates; \<open>client_fd\<close> is what the variable holds.\<close>

fun try_candidates :: "'w kernel \<Rightarrow> addrinfo list \<Rightarrow> int \<Rightarrow> 'w \<Rightarrow> int \<times> 'w" where
  "try_candidates K [] client_fd w = (client_fd, w)"
| "try_candidates K (current # rest) client_fd w =
     (let (fd, w) = sys_socket K (ai_family current) (ai_socktype current) (ai_protocol current) w in
      if fd < 0 then try_candidates K rest fd w else
      let (ret, w) = sys_connect K fd (ai_addr current) w in
      if ret = 0 then (fd, w) else try_candidates K rest (-1) (close_socket K fd w))"

definition create_client_socket :: "'w kernel \<Rightarrow> string \<Rightarrow> u16 \<Rightarrow> 'w \<Rightarrow> int \<times> 'w" where
  "create_client_socket K host port w =
     (let ((ret, result), w) = sys_getaddrinfo K host (to_string (unat port)) AF_UNSPEC SOCK_STREAM w in
      if ret \<noteq> 0 then (-1, w) else
      let (client_fd, w) = try_candidates K result (-1) w
      in (client_fd, sys_freeaddrinfo K result w))"

subsection \<open>Line transfer\<close>

partial_function (option) read_line_loop :: "'w kernel \<Rightarrow> int \<Rightarrow> string \<Rightarrow> 'w \<Rightarrow> (bool \<times> string \<times> 'w) option" where
  "read_line_loop K fd line w =
     (case sys_recv K fd 1 w of
        (ReadEof, w) \<Rightarrow> Some (line \<noteq> [], line, w)
      | (ReadFail e, w) \<Rightarrow> if e = EINTR then read_line_loop K fd line w else Some (False, line, w)
      | (ReadBytes bytes, w) \<Rightarrow>
          let ch = hd bytes in
          if ch = NL then Some (True, line, w)
          else read_line_loop K fd (if ch \<noteq> CR then line @ [ch] else line) w)"

definition read_line :: "'w kernel \<Rightarrow> int \<Rightarrow> 'w \<Rightarrow> (bool \<times> string \<times> 'w) option" where
  "read_line K fd w = read_line_loop K fd [] w"

partial_function (option) write_all_loop :: "'w kernel \<Rightarrow> int \<Rightarrow> string \<Rightarrow> nat \<Rightarrow> 'w \<Rightarrow> (bool \<times> 'w) option" where
  "write_all_loop K fd data total_written w =
     (if total_written < length data then
        (case sys_send K fd (drop total_written data) w of
           (WriteFail e, w) \<Rightarrow> if e = EINTR then write_all_loop K fd data total_written w else Some (False, w)
         | (Wrote n, w) \<Rightarrow> write_all_loop K fd data (total_written + n) w)
      else Some (True, w))"

definition write_all :: "'w kernel \<Rightarrow> int \<Rightarrow> string \<Rightarrow> 'w \<Rightarrow> (bool \<times> 'w) option" where
  "write_all K fd data w = write_all_loop K fd data 0 w"

end
