(* ===== verification/TcpServer.thy ===== *)
theory TcpServer
  imports TextProtocol KvStore "HOL-Library.Sublist"
begin

section \<open>The TCP server (\<open>src/server/main.cpp\<close>)\<close>

text \<open>
  \<open>handle_request\<close>, the coroutine \<open>handle_client\<close> as a state machine whose inputs are the results of
  its system calls and its wake-ups, \<open>accept_loop\<close>, and the server of all connections as a step
  relation. A connection's phase is the place where the coroutine is: at \<open>recv\<close>, at \<open>send\<close> with the
  serialized response and its offset, suspended in \<open>co_await\<close>, or closed. \<open>received\<close>, \<open>sent\<close> and
  \<open>executed\<close> are ghosts: the bytes the kernel delivered and accepted, and the lines executed with
  their serialized responses. The kernel is the nondeterminism of the relation: any chunking of the
  input, partial sends, interruptions and errors in any order.
\<close>

subsection \<open>Requests\<close>

definition handle_request :: "KeyValueStore \<Rightarrow> Request \<Rightarrow> Response \<times> KeyValueStore" where
  "handle_request store request =
     (case req_type request of
        Get \<Rightarrow>
          (case kv_get (req_key request) store of
             None \<Rightarrow> (\<lparr>resp_type = NotFound, resp_payload = []\<rparr>, store)
           | Some v \<Rightarrow> (\<lparr>resp_type = Value, resp_payload = v\<rparr>, store))
      | Set \<Rightarrow> (\<lparr>resp_type = Ok, resp_payload = []\<rparr>, snd (kv_set (req_key request) (req_value request) store))
      | Del \<Rightarrow>
          (let (removed, store) = kv_erase (req_key request) store in
           (if removed then \<lparr>resp_type = Ok, resp_payload = []\<rparr> else \<lparr>resp_type = NotFound, resp_payload = []\<rparr>, store))
      | Quit \<Rightarrow> (\<lparr>resp_type = Bye, resp_payload = []\<rparr>, store)
      | Invalid \<Rightarrow> (\<lparr>resp_type = Error, resp_payload = req_error request\<rparr>, store))"

text \<open>One round trip of the inner loop: parse, execute, serialize; whether it was \<open>QUIT\<close>.\<close>

definition serve_line :: "KeyValueStore \<Rightarrow> string \<Rightarrow> string \<times> bool \<times> KeyValueStore" where
  "serve_line store line =
     (let request = parse_request line; (response, store) = handle_request store request
      in (serialize_response response, req_type request = Quit, store))"

subsection \<open>One connection\<close>

datatype phase = AtRecv | AtSend string nat bool | AwaitRead | AwaitWrite string nat bool | Closed

record conn =
  conn_fd :: nat
  inbound :: string
  phase_of :: phase
  received :: string
  sent :: string
  executed :: "(string \<times> string) list"

datatype recv_result = RecvData string | RecvEof | RecvEintr | RecvAgain | RecvError

datatype send_result = SendBytes nat | SendEintr | SendAgain | SendError

datatype os_event = Recv recv_result | Send send_result | Readable | Writable

definition new_conn :: "nat \<Rightarrow> conn" where
  "new_conn fd = \<lparr>conn_fd = fd, inbound = [], phase_of = AtRecv, received = [], sent = [], executed = []\<rparr>"

text \<open>The loop over the complete lines: from the search for a newline to the next \<open>send\<close>, to the
\<open>co_await\<close> when no line is complete, or to the end of the session.\<close>

function process_lines :: "conn \<times> KeyValueStore \<Rightarrow> conn \<times> KeyValueStore" where
  "process_lines (c, store) =
     (case find_char NL (inbound c) of
        None \<Rightarrow> (c\<lparr>phase_of := AwaitRead\<rparr>, store)
      | Some newline \<Rightarrow>
          let line = take newline (inbound c);
              c = c\<lparr>inbound := drop (newline + 1) (inbound c)\<rparr>;
              (serialized, quit, store) = serve_line store line;
              c = c\<lparr>executed := executed c @ [(line, serialized)]\<rparr>
          in if 0 < length serialized then (c\<lparr>phase_of := AtSend serialized 0 quit\<rparr>, store)
             else if quit then (c\<lparr>phase_of := Closed\<rparr>, store)
             else process_lines (c, store))"
  by pat_completeness auto
termination
  by (relation "measure (\<lambda>(c, store). length (inbound c))") (auto dest: find_char_Some_iff [THEN iffD1])

declare process_lines.simps [simp del]

fun client_step :: "os_event \<Rightarrow> conn \<times> KeyValueStore \<Rightarrow> (conn \<times> KeyValueStore) option" where
  "client_step ev (c, store) =
     (case (phase_of c, ev) of
        (AtRecv, Recv (RecvData bytes)) \<Rightarrow>
          if bytes \<noteq> [] \<and> length bytes \<le> 4096
          then Some (c\<lparr>inbound := inbound c @ bytes, received := received c @ bytes\<rparr>, store) else None
      | (AtRecv, Recv RecvEof) \<Rightarrow> Some (c\<lparr>phase_of := Closed\<rparr>, store)
      | (AtRecv, Recv RecvEintr) \<Rightarrow> Some (c, store)
      | (AtRecv, Recv RecvAgain) \<Rightarrow> Some (process_lines (c, store))
      | (AtRecv, Recv RecvError) \<Rightarrow> Some (c\<lparr>phase_of := Closed\<rparr>, store)
      | (AtSend serialized offset quit, Send (SendBytes n)) \<Rightarrow>
          if 0 < n \<and> n \<le> length serialized - offset then
            let c = c\<lparr>sent := sent c @ take n (drop offset serialized)\<rparr>; offset = offset + n in
            if offset < length serialized then Some (c\<lparr>phase_of := AtSend serialized offset quit\<rparr>, store)
            else if quit then Some (c\<lparr>phase_of := Closed\<rparr>, store)
            else Some (process_lines (c, store))
          else None
      | (AtSend serialized offset quit, Send SendEintr) \<Rightarrow> Some (c, store)
      | (AtSend serialized offset quit, Send SendAgain) \<Rightarrow> Some (c\<lparr>phase_of := AwaitWrite serialized offset quit\<rparr>, store)
      | (AtSend serialized offset quit, Send SendError) \<Rightarrow> Some (c\<lparr>phase_of := Closed\<rparr>, store)
      | (AwaitRead, Readable) \<Rightarrow> Some (c\<lparr>phase_of := AtRecv\<rparr>, store)
      | (AwaitWrite serialized offset quit, Writable) \<Rightarrow> Some (c\<lparr>phase_of := AtSend serialized offset quit\<rparr>, store)
      | _ \<Rightarrow> None)"

subsection \<open>The accept loop and the server\<close>

datatype accept_phase = AwaitListen | AtAccept

datatype accept_result = Accepted nat bool | AcceptEintr | AcceptAgain | AcceptError

text \<open>\<open>Accepted fd nb\<close>: \<open>accept\<close> returned \<open>fd\<close>, and \<open>nb\<close> is the result of \<open>set_non_blocking\<close>.
\<open>open_fds\<close> and \<open>log\<close> are ghosts: the descriptors not yet closed, and every executed line with its
connection and response.\<close>

record server =
  kv :: KeyValueStore
  conns :: "conn list"
  accepting :: accept_phase
  open_fds :: "nat set"
  log :: "(nat \<times> string \<times> string) list"

definition server_init :: "nat \<Rightarrow> server" where
  "server_init server_fd = \<lparr>kv = empty_store, conns = [], accepting = AwaitListen, open_fds = {server_fd}, log = []\<rparr>"

fun accept_step :: "accept_result \<Rightarrow> server \<Rightarrow> server option" where
  "accept_step (Accepted fd nb) s =
     (if accepting s = AtAccept \<and> fd \<notin> open_fds s then
        (if \<not> nb then Some s
         else Some (s\<lparr>conns := conns s @ [new_conn fd], open_fds := insert fd (open_fds s)\<rparr>))
      else None)"
| "accept_step AcceptEintr s = (if accepting s = AtAccept then Some s else None)"
| "accept_step AcceptAgain s = (if accepting s = AtAccept then Some (s\<lparr>accepting := AwaitListen\<rparr>) else None)"
| "accept_step AcceptError s = (if accepting s = AtAccept then Some (s\<lparr>accepting := AwaitListen\<rparr>) else None)"

definition conn_step :: "nat \<Rightarrow> os_event \<Rightarrow> server \<Rightarrow> server option" where
  "conn_step i ev s =
     (if i < length (conns s) then
        case client_step ev (conns s ! i, kv s) of
          None \<Rightarrow> None
        | Some (c, store) \<Rightarrow>
            let done = drop (length (executed (conns s ! i))) (executed c) in
            Some (s\<lparr>kv := store, conns := (conns s)[i := c],
                    open_fds := (if phase_of c = Closed then open_fds s - {conn_fd c} else open_fds s),
                    log := log s @ map (\<lambda>(line, response). (i, line, response)) done\<rparr>)
      else None)"

inductive server_step :: "server \<Rightarrow> server \<Rightarrow> bool" where
  listen_ready: "accepting s = AwaitListen \<Longrightarrow> server_step s (s\<lparr>accepting := AtAccept\<rparr>)"
| accept: "accept_step r s = Some s' \<Longrightarrow> server_step s s'"
| client: "conn_step i ev s = Some s' \<Longrightarrow> server_step s s'"

inductive server_reachable :: "nat \<Rightarrow> server \<Rightarrow> bool" for server_fd where
  server_start: "server_reachable server_fd (server_init server_fd)"
| server_next: "server_reachable server_fd s \<Longrightarrow> server_step s s' \<Longrightarrow> server_reachable server_fd s'"

subsection \<open>One connection keeps the order of the stream\<close>

definition quit_line :: "string \<Rightarrow> bool" where
  "quit_line line \<longleftrightarrow> req_type (parse_request line) = Quit"

text \<open>The responses due for the lines executed so far, and those lines as they came in.\<close>

definition answers :: "conn \<Rightarrow> string" where
  "answers c = concat (map snd (executed c))"

definition consumed :: "conn \<Rightarrow> string" where
  "consumed c = concat (map (\<lambda>e. fst e @ [NL]) (executed c))"

text \<open>What holds of a connection whenever it is between two lines, and in each phase.\<close>

definition stream_ok :: "conn \<Rightarrow> bool" where
  "stream_ok c \<longleftrightarrow> received c = consumed c @ inbound c \<and> (\<forall>e\<in>set (executed c). NL \<notin> set (fst e))"

definition no_quit :: "(string \<times> string) list \<Rightarrow> bool" where
  "no_quit es \<longleftrightarrow> (\<forall>e\<in>set es. \<not> quit_line (fst e))"

definition send_ok :: "string \<Rightarrow> nat \<Rightarrow> bool \<Rightarrow> conn \<Rightarrow> bool" where
  [simp]: "send_ok serialized offset quit c \<longleftrightarrow>
     offset < length serialized \<and> sent c @ drop offset serialized = answers c
     \<and> no_quit (butlast (executed c)) \<and> (\<not> quit \<longrightarrow> no_quit (executed c))"

fun phase_ok :: "phase \<Rightarrow> conn \<Rightarrow> bool" where
  "phase_ok AtRecv c = (sent c = answers c \<and> no_quit (executed c))"
| "phase_ok AwaitRead c = (sent c = answers c \<and> no_quit (executed c) \<and> NL \<notin> set (inbound c))"
| "phase_ok (AtSend serialized offset quit) c = send_ok serialized offset quit c"
| "phase_ok (AwaitWrite serialized offset quit) c = send_ok serialized offset quit c"
| "phase_ok Closed c = (prefix (sent c) (answers c) \<and> no_quit (butlast (executed c)))"

definition conn_ok :: "conn \<Rightarrow> bool" where
  "conn_ok c \<longleftrightarrow> stream_ok c \<and> phase_ok (phase_of c) c"

lemma serve_line_response: "serve_line store line = (r, q, store') \<Longrightarrow> r \<noteq> [] \<and> q = quit_line line"
  by (auto simp: serve_line_def quit_line_def serialize_response_def Let_def
      split: prod.splits ResponseType.splits)

lemma process_lines_step:
  "process_lines (c, store) =
     (case find_char NL (inbound c) of
        None \<Rightarrow> (c\<lparr>phase_of := AwaitRead\<rparr>, store)
      | Some n \<Rightarrow>
          (case serve_line store (take n (inbound c)) of (r, q, store') \<Rightarrow>
             (c\<lparr>inbound := drop (n + 1) (inbound c), executed := executed c @ [(take n (inbound c), r)],
                phase_of := AtSend r 0 q\<rparr>, store')))"
  using serve_line_response [of store "take (the (find_char NL (inbound c))) (inbound c)"]
  by (subst process_lines.simps) (auto simp: Let_def split: option.splits prod.splits)

lemma butlast_subset: "no_quit es \<Longrightarrow> no_quit (butlast es)"
  by (auto simp: no_quit_def dest: in_set_butlastD)

lemma process_lines_ok:
  assumes "stream_ok c" and "sent c = answers c" and "no_quit (executed c)"
  shows "conn_ok (fst (process_lines (c, store)))"
proof (cases "find_char NL (inbound c)")
  case None
  with assms show ?thesis
    by (simp add: process_lines_step conn_ok_def stream_ok_def find_char_None answers_def consumed_def)
next
  case (Some n)
  then obtain pre post where cut: "inbound c = pre @ NL # post" "length pre = n" "NL \<notin> set pre"
    by (rule find_char_SomeE)
  obtain r q store' where line: "serve_line store pre = (r, q, store')" by (cases "serve_line store pre")
  note resp = serve_line_response [OF line]
  show ?thesis
    using assms resp
    by (auto simp: process_lines_step Some cut(2) [symmetric] cut(1,3) line conn_ok_def stream_ok_def
        answers_def consumed_def no_quit_def)
qed

text \<open>A step keeps the invariant and executes at most one line, on the store it finds.\<close>

lemma client_step_ok:
  assumes "client_step ev (c, store) = Some (c', store')" and "conn_ok c"
  shows "conn_ok c'"
proof (cases "phase_of c")
  case AtRecv
  with assms have st: "stream_ok c" "sent c = answers c" "no_quit (executed c)" by (simp_all add: conn_ok_def)
  from assms(1) AtRecv obtain r where r: "ev = Recv r" by (cases ev) auto
  show ?thesis
  proof (cases r)
    case RecvAgain
    with assms(1) AtRecv r have "c' = fst (process_lines (c, store))" by (auto split: prod.splits)
    with process_lines_ok [OF st] show ?thesis by simp
  qed (use assms(1) AtRecv r st butlast_subset in
        \<open>auto simp: conn_ok_def stream_ok_def answers_def consumed_def split: if_splits\<close>)
next
  case (AtSend serialized offset quit)
  with assms have st: "stream_ok c" "offset < length serialized" "sent c @ drop offset serialized = answers c"
      "no_quit (butlast (executed c))" "\<not> quit \<longrightarrow> no_quit (executed c)"
    by (simp_all add: conn_ok_def)
  have part: "prefix (sent c) (answers c)" using st(3) by (metis prefixI)
  from assms(1) AtSend obtain r where r: "ev = Send r" by (cases ev) auto
  show ?thesis
  proof (cases r)
    case (SendBytes n)
    then have n: "0 < n" "n \<le> length serialized - offset" using assms(1) AtSend r by (auto split: if_splits)
    let ?c = "c\<lparr>sent := sent c @ take n (drop offset serialized)\<rparr>"
    have "drop offset serialized = take n (drop offset serialized) @ drop (offset + n) serialized"
      by (metis add.commute append_take_drop_id drop_drop)
    then have step: "sent ?c @ drop (offset + n) serialized = answers ?c" "stream_ok ?c"
      using st by (simp_all add: answers_def stream_ok_def consumed_def)
    consider (more) "offset + n < length serialized" | (quit) "\<not> offset + n < length serialized" quit
      | (next_line) "\<not> offset + n < length serialized" "\<not> quit" by blast
    then show ?thesis
    proof cases
      case more
      then show ?thesis using assms(1) AtSend r SendBytes n st step
        by (auto simp: conn_ok_def stream_ok_def answers_def consumed_def Let_def)
    next
      case quit
      then show ?thesis using assms(1) AtSend r SendBytes n st step
        by (auto simp: conn_ok_def stream_ok_def answers_def consumed_def Let_def)
    next
      case next_line
      then have "c' = fst (process_lines (?c, store))"
        using assms(1) AtSend r SendBytes n by (auto simp: Let_def split: prod.splits)
      moreover have "sent ?c = answers ?c" using step next_line by simp
      moreover have "no_quit (executed ?c)" using st next_line by simp
      ultimately show ?thesis using process_lines_ok [OF step(2)] by simp
    qed
  qed (use assms(1) AtSend r st part in \<open>auto simp: conn_ok_def stream_ok_def answers_def consumed_def\<close>)
next
  case AwaitRead
  with assms show ?thesis
    by (cases ev) (auto simp: conn_ok_def stream_ok_def answers_def consumed_def)
next
  case (AwaitWrite serialized offset quit)
  with assms show ?thesis
    by (cases ev) (auto simp: conn_ok_def stream_ok_def answers_def consumed_def)
next
  case Closed
  with assms show ?thesis by (cases ev) auto
qed

lemma client_step_executes:
  assumes "client_step ev (c, store) = Some (c', store')"
  shows "executed c' = executed c \<and> store' = store
       \<or> (\<exists>line r q. executed c' = executed c @ [(line, r)] \<and> serve_line store line = (r, q, store'))"
proof -
  have process: "executed c2 = executed c1 \<and> store2 = store
       \<or> (\<exists>line r q. executed c2 = executed c1 @ [(line, r)] \<and> serve_line store line = (r, q, store2))"
    if "process_lines (c1, store) = (c2, store2)" for c1 c2 store2
    using that by (auto simp: process_lines_step split: option.splits prod.splits)
  show ?thesis
    using assms
    by (auto simp: Let_def split: phase.splits os_event.splits recv_result.splits send_result.splits if_splits
        dest: process)
qed

lemma client_step_fd [frame_facts]:
  assumes "client_step ev (c, store) = Some (c', store')"
  shows "conn_fd c' = conn_fd c \<and> phase_of c \<noteq> Closed"
proof -
  have process: "conn_fd c2 = conn_fd c1" if "process_lines (c1, store) = (c2, store2)" for c1 c2 store2
    using that by (auto simp: process_lines_step split: option.splits prod.splits)
  show ?thesis
    using assms
    by (auto simp: Let_def split: phase.splits os_event.splits recv_result.splits send_result.splits if_splits
        dest!: process)
qed

subsection \<open>The whole server\<close>

fun serve_all :: "string list \<Rightarrow> KeyValueStore \<Rightarrow> string list \<times> KeyValueStore" where
  "serve_all [] store = ([], store)"
| "serve_all (line # rest) store =
     (let (r, q, store1) = serve_line store line; (rs, store2) = serve_all rest store1 in (r # rs, store2))"

lemma serve_all_append:
  "serve_all (xs @ ys) store =
     (let (rs, s1) = serve_all xs store; (rs', s2) = serve_all ys s1 in (rs @ rs', s2))"
  by (induction xs arbitrary: store) (auto split: prod.splits)

lemma length_serve_all [simp]: "length (fst (serve_all ls store)) = length ls"
  by (induction ls arbitrary: store) (simp_all add: prod.case_eq_if)

definition log_lines :: "server \<Rightarrow> string list" where
  "log_lines s = map (\<lambda>e. fst (snd e)) (log s)"

definition log_responses :: "server \<Rightarrow> string list" where
  "log_responses s = map (\<lambda>e. snd (snd e)) (log s)"

definition log_of :: "nat \<Rightarrow> server \<Rightarrow> (string \<times> string) list" where
  "log_of i s = map snd (filter (\<lambda>e. fst e = i) (log s))"

text \<open>The descriptors in use: the listening socket and one per connection that is not closed.\<close>

definition live_fds :: "nat \<Rightarrow> conn list \<Rightarrow> nat list" where
  "live_fds server_fd cs = server_fd # map conn_fd (filter (\<lambda>c. phase_of c \<noteq> Closed) cs)"

definition server_inv :: "nat \<Rightarrow> server \<Rightarrow> bool" where
  "server_inv server_fd s \<longleftrightarrow>
     (\<forall>i<length (conns s). conn_ok (conns s ! i) \<and> executed (conns s ! i) = log_of i s)
     \<and> (\<forall>e\<in>set (log s). fst e < length (conns s))
     \<and> serve_all (log_lines s) empty_store = (log_responses s, kv s)
     \<and> kv_inv (kv s)
     \<and> distinct (live_fds server_fd (conns s)) \<and> open_fds s = set (live_fds server_fd (conns s))"

lemma handle_request_inv: "kv_inv store \<Longrightarrow> kv_inv (snd (handle_request store request))"
  by (simp add: handle_request_def kv_set_inv kv_erase_inv split: RequestType.split option.split prod.split)
    (metis kv_erase_inv snd_conv)

lemma serve_line_inv: "kv_inv store \<Longrightarrow> serve_line store line = (r, q, store') \<Longrightarrow> kv_inv store'"
  using handle_request_inv [of store "parse_request line"]
  by (auto simp: serve_line_def Let_def split: prod.splits)

lemma filter_update_closed:
  assumes "i < length cs" and "P (cs ! i)" and "conn_fd c = conn_fd (cs ! i)"
  shows "map conn_fd (filter P (cs[i := c])) =
     (if P c then map conn_fd (filter P cs)
      else map conn_fd (filter P (take i cs)) @ map conn_fd (filter P (drop (Suc i) cs)))"
    and "map conn_fd (filter P cs) =
      map conn_fd (filter P (take i cs)) @ conn_fd (cs ! i) # map conn_fd (filter P (drop (Suc i) cs))"
proof -
  have split: "filter P cs = filter P (take i cs) @ cs ! i # filter P (drop (Suc i) cs)"
    using id_take_nth_drop [OF assms(1)] assms(2) by (metis filter.simps(2) filter_append)
  then show "map conn_fd (filter P cs) =
      map conn_fd (filter P (take i cs)) @ conn_fd (cs ! i) # map conn_fd (filter P (drop (Suc i) cs))"
    by simp
  with assms show "map conn_fd (filter P (cs[i := c])) =
     (if P c then map conn_fd (filter P cs)
      else map conn_fd (filter P (take i cs)) @ map conn_fd (filter P (drop (Suc i) cs)))"
    by (simp add: upd_conv_take_nth_drop)
qed

lemma live_fds_update:
  assumes "i < length cs" and "phase_of (cs ! i) \<noteq> Closed" and "conn_fd c = conn_fd (cs ! i)"
    and "distinct (live_fds server_fd cs)"
  shows "distinct (live_fds server_fd (cs[i := c]))
       \<and> set (live_fds server_fd (cs[i := c]))
         = (if phase_of c = Closed then set (live_fds server_fd cs) - {conn_fd c} else set (live_fds server_fd cs))"
  using assms filter_update_closed [of i cs "\<lambda>c. phase_of c \<noteq> Closed" c]
  by (auto simp: live_fds_def)

lemma conn_step_inv:
  assumes "conn_step i ev s = Some s'" and inv: "server_inv server_fd s"
  shows "server_inv server_fd s'"
proof -
  from assms(1) obtain c store where i: "i < length (conns s)"
    and step: "client_step ev (conns s ! i, kv s) = Some (c, store)"
    and s': "s' = s\<lparr>kv := store, conns := (conns s)[i := c],
        open_fds := (if phase_of c = Closed then open_fds s - {conn_fd c} else open_fds s),
        log := log s @ map (\<lambda>(line, response). (i, line, response)) (drop (length (executed (conns s ! i))) (executed c))\<rparr>"
    by (auto simp: conn_step_def Let_def split: if_splits option.splits)
  have ok: "conn_ok c" using client_step_ok [OF step] inv i by (simp add: server_inv_def)
  note fd = client_step_fd [OF step]
  note fds = live_fds_update [OF i fd [THEN conjunct2] fd [THEN conjunct1]]
  have old: "executed (conns s ! i) = log_of i s" using inv i by (simp add: server_inv_def)
  obtain new where new: "executed c = executed (conns s ! i) @ new"
    and log': "log s' = log s @ map (\<lambda>e. (i, e)) new"
    and seq: "serve_all (map fst new) (kv s) = (map snd new, store)" and kvi: "kv_inv store"
    using client_step_executes [OF step]
  proof
    assume *: "executed c = executed (conns s ! i) \<and> store = kv s"
    then show thesis using that [of "[]"] inv by (simp add: s' server_inv_def)
  next
    assume "\<exists>line r q. executed c = executed (conns s ! i) @ [(line, r)] \<and> serve_line (kv s) line = (r, q, store)"
    then obtain line r q where e: "executed c = executed (conns s ! i) @ [(line, r)]"
      and l: "serve_line (kv s) line = (r, q, store)" by blast
    then show thesis using that [of "[(line, r)]"] serve_line_inv [OF _ l] inv by (simp add: s' server_inv_def)
  qed
  have lo: "log_of j s' = (if j = i then executed c else log_of j s)" for j
    using new old by (auto simp: log_of_def log' filter_map comp_def)
  have replay: "serve_all (log_lines s') empty_store = (log_responses s', kv s')"
    using inv seq by (simp add: server_inv_def log_lines_def log_responses_def log' serve_all_append comp_def)
      (simp add: s')
  have len: "length (conns s') = length (conns s)" by (simp add: s')
  have conns': "conns s' ! j = (if j = i then c else conns s ! j)" if "j < length (conns s)" for j
    using that by (simp add: s' nth_list_update)
  show ?thesis
    unfolding server_inv_def
  proof (intro conjI)
    show "\<forall>j<length (conns s'). conn_ok (conns s' ! j) \<and> executed (conns s' ! j) = log_of j s'"
      using inv ok by (simp add: server_inv_def len conns' lo)
    show "\<forall>e\<in>set (log s'). fst e < length (conns s')"
      using inv i by (auto simp: server_inv_def len log')
    show "kv_inv (kv s')" using kvi by (simp add: s')
    show "distinct (live_fds server_fd (conns s'))" "open_fds s' = set (live_fds server_fd (conns s'))"
      using fds inv by (simp_all add: server_inv_def s')
  qed (rule replay)
qed

lemma server_inv_accepting [simp]: "server_inv server_fd (s\<lparr>accepting := a\<rparr>) = server_inv server_fd s"
  by (simp add: server_inv_def log_of_def log_lines_def log_responses_def)

lemma accept_step_inv:
  assumes "accept_step r s = Some s'" and inv: "server_inv server_fd s"
  shows "server_inv server_fd s'"
proof (cases r)
  case (Accepted fd nb)
  show ?thesis
  proof (cases nb)
    case True
    with Accepted assms(1) have new: "fd \<notin> open_fds s"
      and s': "s' = s\<lparr>conns := conns s @ [new_conn fd], open_fds := insert fd (open_fds s)\<rparr>"
      by (auto split: if_splits)
    have fresh: "log_of (length (conns s)) s = []"
      using inv by (auto simp: server_inv_def log_of_def filter_empty_conv)
    have "conn_ok (new_conn fd)"
      by (simp add: conn_ok_def stream_ok_def new_conn_def answers_def consumed_def no_quit_def)
    moreover have "executed (new_conn fd) = []" by (simp add: new_conn_def)
    moreover have "live_fds server_fd (conns s @ [new_conn fd]) = live_fds server_fd (conns s) @ [fd]"
      by (simp add: live_fds_def new_conn_def)
    ultimately show ?thesis
      using inv new fresh
      by (auto simp: server_inv_def s' log_of_def log_lines_def log_responses_def nth_append less_Suc_eq)
  next
    case False
    with Accepted assms show ?thesis by (auto split: if_splits)
  qed
qed (use assms in \<open>auto split: if_splits\<close>)

lemma server_reachable_inv: "server_reachable server_fd s \<Longrightarrow> server_inv server_fd s"
proof (induction rule: server_reachable.induct)
  case server_start
  then show ?case
    by (simp add: server_inv_def server_init_def log_lines_def log_responses_def live_fds_def)
next
  case (server_next s s')
  from server_next(2) show ?case
  proof (cases rule: server_step.cases)
    case listen_ready
    with server_next(3) show ?thesis by simp
  qed (use server_next(3) accept_step_inv conn_step_inv in blast)+
qed

subsection \<open>Runs\<close>

text \<open>A run as a list of events, for examples.\<close>

datatype server_event = EvListen | EvAccept accept_result | EvClient nat os_event

fun run_event :: "server_event \<Rightarrow> server \<Rightarrow> server option" where
  "run_event EvListen s = (if accepting s = AwaitListen then Some (s\<lparr>accepting := AtAccept\<rparr>) else None)"
| "run_event (EvAccept r) s = accept_step r s"
| "run_event (EvClient i ev) s = conn_step i ev s"

fun run_events :: "server_event list \<Rightarrow> server \<Rightarrow> server option" where
  "run_events [] s = Some s"
| "run_events (ev # evs) s = (case run_event ev s of None \<Rightarrow> None | Some s \<Rightarrow> run_events evs s)"

lemma run_event_step: "run_event ev s = Some s' \<Longrightarrow> server_step s s'"
  by (cases ev) (auto intro: server_step.intros split: if_splits)

lemma run_events_reachable:
  "run_events evs s = Some s' \<Longrightarrow> server_reachable server_fd s \<Longrightarrow> server_reachable server_fd s'"
  by (induction evs arbitrary: s) (auto split: option.splits dest!: run_event_step intro: server_next)

definition view :: "server \<Rightarrow> (string \<times> string \<times> phase \<times> string) list \<times> (nat \<times> string \<times> string) list" where
  "view s = (map (\<lambda>c. (received c, sent c, phase_of c, inbound c)) (conns s), log s)"

text \<open>A set and a get arriving in two chunks, the answer sent in two pieces.\<close>

definition example_events :: "server_event list" where
  "example_events =
     [EvListen, EvAccept (Accepted 7 True), EvClient 0 (Recv (RecvData ''SET a 1'')),
      EvClient 0 (Recv RecvAgain), EvClient 0 Readable, EvClient 0 (Recv (RecvData ([NL] @ ''GET a'' @ [NL]))),
      EvClient 0 (Recv RecvAgain), EvClient 0 (Send (SendBytes 3)), EvClient 0 (Send (SendBytes 3)),
      EvClient 0 (Send SendAgain), EvClient 0 Writable, EvClient 0 (Send (SendBytes 5))]"

lemma example_run:
  "map_option view (run_events example_events (server_init 3)) =
     Some ([(''SET a 1'' @ [NL] @ ''GET a'' @ [NL], ''OK'' @ [NL] @ ''VALUE 1'' @ [NL], AwaitRead, [])],
           [(0, ''SET a 1'', ''OK'' @ [NL]), (0, ''GET a'', ''VALUE 1'' @ [NL])])"
  by code_simp

end
