(* ===== verification/SocketLaws.thy ===== *)
theory SocketLaws
  imports SocketUtils
begin

section \<open>What the socket code relies on, and what it guarantees\<close>

text \<open>
  The documented behaviour of the socket calls as predicates on a \<open>kernel\<close> record. \<open>kernel_table\<close>:
  \<open>sk\<close> is the table of open sockets with their configuration and \<open>addr_lists\<close> the number of address lists
  not yet freed. \<open>send_law\<close> and \<open>recv_law\<close>, in the worlds where \<open>good\<close> holds and leaving \<open>keep\<close> alone: \<open>sent\<close> is what the kernel has accepted on a connection,
  \<open>coming\<close> what it will still deliver on it, and \<open>patience\<close> bounds the interruptions. The lemmas on
  the helpers of \<open>src/net/socket_utils.cpp\<close> follow from them; \<open>sim_kernel\<close> is a concrete kernel
  that satisfies them.
\<close>

subsection \<open>The table of sockets\<close>

record sock =
  sk_family :: addr_family
  sk_reuse :: bool
  sk_flags :: int
  sk_bound :: "sockaddr_in option"
  sk_backlog :: "int option"
  sk_peer :: "string option"

definition new_sock :: "addr_family \<Rightarrow> int \<Rightarrow> sock" where
  "new_sock fam fl = \<lparr>sk_family = fam, sk_reuse = False, sk_flags = fl, sk_bound = None, sk_backlog = None, sk_peer = None\<rparr>"

definition opens :: "('w \<Rightarrow> int \<Rightarrow> sock option) \<Rightarrow> int \<Rightarrow> 'w \<Rightarrow> 'w \<Rightarrow> bool" where
  "opens sk fd w w' \<longleftrightarrow> sk w fd = None \<and> (\<exists>fam fl. 0 \<le> fl \<and> sk w' = (sk w)(fd \<mapsto> new_sock fam fl))"

definition sets :: "('w \<Rightarrow> int \<Rightarrow> sock option) \<Rightarrow> ('w \<Rightarrow> nat) \<Rightarrow> int \<Rightarrow> (sock \<Rightarrow> sock) \<Rightarrow> 'w \<Rightarrow> int \<times> 'w \<Rightarrow> bool" where
  "sets sk addr_lists fd f w = (\<lambda>(ret, w'). addr_lists w' = addr_lists w
     \<and> (if ret = 0 then (\<exists>s. sk w fd = Some s \<and> sk w' = (sk w)(fd \<mapsto> f s)) else ret = -1 \<and> sk w' = sk w))"

definition kernel_table :: "'w kernel \<Rightarrow> ('w \<Rightarrow> int \<Rightarrow> sock option) \<Rightarrow> ('w \<Rightarrow> nat) \<Rightarrow> bool" where
  "kernel_table K sk addr_lists \<longleftrightarrow>
     (\<forall>fam ty pr w. case sys_socket K fam ty pr w of (fd, w') \<Rightarrow>
        addr_lists w' = addr_lists w \<and> (if fd \<ge> 0 then opens sk fd w w' else fd = -1 \<and> sk w' = sk w))
   \<and> (\<forall>fd v w. sets sk addr_lists fd (\<lambda>s. s\<lparr>sk_reuse := (v \<noteq> 0)\<rparr>) w (sys_reuseaddr K fd v w))
   \<and> (\<forall>fd a w. sets sk addr_lists fd (\<lambda>s. s\<lparr>sk_bound := Some a\<rparr>) w (sys_bind K fd a w))
   \<and> (\<forall>fd n w. sets sk addr_lists fd (\<lambda>s. s\<lparr>sk_backlog := Some n\<rparr>) w (sys_listen K fd n w))
   \<and> (\<forall>fd a w. sets sk addr_lists fd (\<lambda>s. s\<lparr>sk_peer := Some a\<rparr>) w (sys_connect K fd a w))
   \<and> (\<forall>fd n w. sets sk addr_lists fd (\<lambda>s. s\<lparr>sk_flags := n\<rparr>) w (sys_setfl K fd n w))
   \<and> (\<forall>fd w. case sys_getfl K fd w of (n, w') \<Rightarrow> sk w' = sk w \<and> addr_lists w' = addr_lists w
        \<and> (n \<ge> 0 \<longrightarrow> (\<exists>s. sk w fd = Some s \<and> sk_flags s = n)))
   \<and> (\<forall>fd w. case sys_accept K fd w of
        (AcceptedFd c, w') \<Rightarrow> 0 \<le> c \<and> opens sk c w w' \<and> addr_lists w' = addr_lists w
      | (AcceptFail e, w') \<Rightarrow> sk w' = sk w \<and> addr_lists w' = addr_lists w)
   \<and> (\<forall>fd w. sk (sys_close K fd w) = (sk w)(fd := None) \<and> addr_lists (sys_close K fd w) = addr_lists w)
   \<and> (\<forall>h p fam ty w. case sys_getaddrinfo K h p fam ty w of ((ret, l), w') \<Rightarrow>
        sk w' = sk w \<and> addr_lists w' = (if ret = 0 then Suc (addr_lists w) else addr_lists w))
   \<and> (\<forall>l w. sk (sys_freeaddrinfo K l w) = sk w \<and> addr_lists (sys_freeaddrinfo K l w) = addr_lists w - 1)"

lemma kernel_table_replace:
  assumes "kernel_table K sk addr_lists"
    and "\<And>fd w. case acc fd w of (AcceptedFd c, w') \<Rightarrow> 0 \<le> c \<and> opens sk c w w' \<and> addr_lists w' = addr_lists w
      | (AcceptFail e, w') \<Rightarrow> sk w' = sk w \<and> addr_lists w' = addr_lists w"
    and "\<And>fd w. sk (cls fd w) = (sk w)(fd := None) \<and> addr_lists (cls fd w) = addr_lists w"
  shows "kernel_table (K\<lparr>sys_accept := acc, sys_close := cls\<rparr>) sk addr_lists"
  using assms by (simp add: kernel_table_def)

lemma kernel_tableD:
  assumes "kernel_table K sk addr_lists"
  shows "sys_socket K fam ty pr w = (fd, w') \<Longrightarrow>
      addr_lists w' = addr_lists w \<and> (if fd \<ge> 0 then opens sk fd w w' else fd = -1 \<and> sk w' = sk w)"
    and "sets sk addr_lists fd (\<lambda>s. s\<lparr>sk_reuse := (v \<noteq> 0)\<rparr>) w (sys_reuseaddr K fd v w)"
    and "sets sk addr_lists fd (\<lambda>s. s\<lparr>sk_bound := Some sa\<rparr>) w (sys_bind K fd sa w)"
    and "sets sk addr_lists fd (\<lambda>s. s\<lparr>sk_backlog := Some n\<rparr>) w (sys_listen K fd n w)"
    and "sets sk addr_lists fd (\<lambda>s. s\<lparr>sk_peer := Some a\<rparr>) w (sys_connect K fd a w)"
    and "sets sk addr_lists fd (\<lambda>s. s\<lparr>sk_flags := n\<rparr>) w (sys_setfl K fd n w)"
    and "sys_getfl K fd w = (n, w') \<Longrightarrow> sk w' = sk w \<and> addr_lists w' = addr_lists w
        \<and> (n \<ge> 0 \<longrightarrow> (\<exists>s. sk w fd = Some s \<and> sk_flags s = n))"
    and "sys_accept K fd w = (AcceptedFd c, w') \<Longrightarrow> 0 \<le> c \<and> opens sk c w w' \<and> addr_lists w' = addr_lists w"
    and "sys_accept K fd w = (AcceptFail e, w') \<Longrightarrow> sk w' = sk w \<and> addr_lists w' = addr_lists w"
    and "sk (sys_close K fd w) = (sk w)(fd := None)" and "addr_lists (sys_close K fd w) = addr_lists w"
    and "sys_getaddrinfo K h p fam ty w = ((ret, l), w') \<Longrightarrow>
        sk w' = sk w \<and> addr_lists w' = (if ret = 0 then Suc (addr_lists w) else addr_lists w)"
    and "sk (sys_freeaddrinfo K l w) = sk w" and "addr_lists (sys_freeaddrinfo K l w) = addr_lists w - 1"
proof -
  note laws = assms [unfolded kernel_table_def]
  note rest4 = laws [THEN conjunct2, THEN conjunct2, THEN conjunct2, THEN conjunct2]
  note rest8 = rest4 [THEN conjunct2, THEN conjunct2, THEN conjunct2, THEN conjunct2]
  show "sys_socket K fam ty pr w = (fd, w') \<Longrightarrow>
      addr_lists w' = addr_lists w \<and> (if fd \<ge> 0 then opens sk fd w w' else fd = -1 \<and> sk w' = sk w)"
    using laws [THEN conjunct1, rule_format, of w fam ty pr] by simp
  show "sets sk addr_lists fd (\<lambda>s. s\<lparr>sk_reuse := (v \<noteq> 0)\<rparr>) w (sys_reuseaddr K fd v w)"
    using laws [THEN conjunct2, THEN conjunct1] by simp
  show "sets sk addr_lists fd (\<lambda>s. s\<lparr>sk_bound := Some sa\<rparr>) w (sys_bind K fd sa w)"
    using laws [THEN conjunct2, THEN conjunct2, THEN conjunct1] by simp
  show "sets sk addr_lists fd (\<lambda>s. s\<lparr>sk_backlog := Some n\<rparr>) w (sys_listen K fd n w)"
    using laws [THEN conjunct2, THEN conjunct2, THEN conjunct2, THEN conjunct1] by simp
  show "sets sk addr_lists fd (\<lambda>s. s\<lparr>sk_peer := Some a\<rparr>) w (sys_connect K fd a w)"
    using rest4 [THEN conjunct1] by simp
  show "sets sk addr_lists fd (\<lambda>s. s\<lparr>sk_flags := n\<rparr>) w (sys_setfl K fd n w)"
    using rest4 [THEN conjunct2, THEN conjunct1] by simp
  show "sys_getfl K fd w = (n, w') \<Longrightarrow> sk w' = sk w \<and> addr_lists w' = addr_lists w
        \<and> (n \<ge> 0 \<longrightarrow> (\<exists>s. sk w fd = Some s \<and> sk_flags s = n))"
    using rest4 [THEN conjunct2, THEN conjunct2, THEN conjunct1, rule_format, of w fd] by simp
  note acc = rest4 [THEN conjunct2, THEN conjunct2, THEN conjunct2, THEN conjunct1, rule_format, of w fd]
  show "sys_accept K fd w = (AcceptedFd c, w') \<Longrightarrow> 0 \<le> c \<and> opens sk c w w' \<and> addr_lists w' = addr_lists w"
    using acc by simp
  show "sys_accept K fd w = (AcceptFail e, w') \<Longrightarrow> sk w' = sk w \<and> addr_lists w' = addr_lists w"
    using acc by simp
  show "sk (sys_close K fd w) = (sk w)(fd := None)" "addr_lists (sys_close K fd w) = addr_lists w" using rest8 by simp_all
  show "sys_getaddrinfo K h p fam ty w = ((ret, l), w') \<Longrightarrow>
        sk w' = sk w \<and> addr_lists w' = (if ret = 0 then Suc (addr_lists w) else addr_lists w)"
    using rest8 [THEN conjunct2, THEN conjunct1, rule_format, of w h p fam ty] by simp
  show "sk (sys_freeaddrinfo K l w) = sk w" "addr_lists (sys_freeaddrinfo K l w) = addr_lists w - 1" using rest8 by simp_all
qed

text \<open>One socket under configuration: it is \<open>fd\<close>, everything else is as before.\<close>

definition configuring :: "('w \<Rightarrow> int \<Rightarrow> sock option) \<Rightarrow> (int \<Rightarrow> sock option) \<Rightarrow> int \<Rightarrow> (sock \<Rightarrow> bool) \<Rightarrow> 'w \<Rightarrow> bool" where
  "configuring sk table fd P w \<longleftrightarrow> table fd = None \<and> 0 \<le> fd \<and> (\<exists>s. P s \<and> sk w = table(fd \<mapsto> s))"

lemma configuring_sets:
  assumes "sets sk addr_lists fd f w (ret, w')" and "configuring sk table fd P w"
  shows "addr_lists w' = addr_lists w \<and> (if ret = 0 then configuring sk table fd (\<lambda>s. \<exists>s'. s = f s' \<and> P s') w' else ret = -1 \<and> configuring sk table fd P w')"
  using assms by (auto simp: sets_def configuring_def split: if_splits)

lemma configuring_close:
  assumes "kernel_table K sk addr_lists" and "configuring sk table fd P w"
  shows "sk (close_socket K fd w) = table \<and> addr_lists (close_socket K fd w) = addr_lists w"
  using assms by (auto simp: configuring_def close_socket_def kernel_tableD(10,11) [OF assms(1)])

lemma opens_configuring: "opens sk fd w w' \<Longrightarrow> 0 \<le> fd \<Longrightarrow> configuring sk (sk w) fd (\<lambda>s. \<exists>fam fl. 0 \<le> fl \<and> s = new_sock fam fl) w'"
  by (auto simp: opens_def configuring_def)

lemma configuring_mono: "configuring sk table fd P w \<Longrightarrow> (\<And>s. P s \<Longrightarrow> Q s) \<Longrightarrow> configuring sk table fd Q w"
  by (auto simp: configuring_def)

subsection \<open>Set-up is all or nothing\<close>

definition nonblocking :: "sock \<Rightarrow> bool" where
  "nonblocking s \<longleftrightarrow> bit (sk_flags s) 11"

lemma nonblocking_flag: "bit (n OR O_NONBLOCK) 11"
proof -
  have "bit (2 ^ 11 :: int) 11" by (simp only: bit_exp_iff) simp
  then have "bit O_NONBLOCK 11" by (simp add: O_NONBLOCK_def)
  then show ?thesis by (simp add: bit_or_iff)
qed

lemma set_non_blocking_sets:
  assumes K: "kernel_table K sk addr_lists" and c: "configuring sk table fd P w" and "set_non_blocking K fd w = (ok, w')"
  shows "addr_lists w' = addr_lists w \<and> (if ok then configuring sk table fd (\<lambda>s. nonblocking s \<and> (\<exists>s' n. s = s'\<lparr>sk_flags := n\<rparr> \<and> P s')) w'
           else configuring sk table fd P w')"
proof -
  obtain flags w1 where get: "sys_getfl K fd w = (flags, w1)" by (cases "sys_getfl K fd w")
  note g = kernel_tableD(7) [OF K get]
  then have c1: "configuring sk table fd P w1" using c by (simp add: configuring_def)
  show ?thesis
  proof (cases "flags < 0")
    case True
    then show ?thesis using assms(3) get g c1 by (simp add: set_non_blocking_def)
  next
    case False
    obtain ret w2 where set': "sys_setfl K fd (flags OR O_NONBLOCK) w1 = (ret, w2)"
      by (cases "sys_setfl K fd (flags OR O_NONBLOCK) w1")
    have "sets sk addr_lists fd (\<lambda>s. s\<lparr>sk_flags := flags OR O_NONBLOCK\<rparr>) w1 (ret, w2)"
      using kernel_tableD(6) [OF K] set' by metis
    note s = configuring_sets [OF this c1]
    have "ok = (ret = 0)" "w' = w2" using assms(3) get set' False by (auto simp: set_non_blocking_def)
    with s g show ?thesis
      by (auto elim!: configuring_mono simp: nonblocking_def nonblocking_flag split: if_splits)
  qed
qed

definition listens :: "u16 \<Rightarrow> int \<Rightarrow> sock \<Rightarrow> bool" where
  "listens port backlog s \<longleftrightarrow> sk_bound s = Some \<lparr>sin_family = AF_INET, sin_addr = INADDR_ANY, sin_port = port\<rparr>
     \<and> sk_backlog s = Some backlog"

definition closed_again :: "'w kernel \<Rightarrow> ('w \<Rightarrow> int \<Rightarrow> sock option) \<Rightarrow> ('w \<Rightarrow> nat) \<Rightarrow> int \<Rightarrow> 'w \<Rightarrow> 'w \<Rightarrow> bool" where
  "closed_again K sk addr_lists fd w w' \<longleftrightarrow>
     sk (close_socket K fd w') = sk w \<and> addr_lists (close_socket K fd w') = addr_lists w"

text \<open>One configuring call: it succeeds, or fails and closing the socket restores the table.\<close>

lemma configuring_step:
  assumes K: "kernel_table K sk addr_lists" and c: "configuring sk (sk w0) fd P w" and al: "addr_lists w = addr_lists w0"
    and s: "sets sk addr_lists fd f w r" and r: "r = (ret, w')" and Q: "\<And>s. P s \<Longrightarrow> Q (f s)"
  shows "addr_lists w' = addr_lists w0
       \<and> (ret = 0 \<and> configuring sk (sk w0) fd Q w' \<or> ret = -1 \<and> closed_again K sk addr_lists fd w0 w')"
proof -
  note q = configuring_sets [OF s [unfolded r] c]
  show ?thesis
  proof (cases "ret = 0")
    case True
    then show ?thesis using q al Q by (auto elim: configuring_mono)
  next
    case False
    then have "configuring sk (sk w0) fd P w'" "ret = -1" "addr_lists w' = addr_lists w" using q by simp_all
    with configuring_close [OF K this(1)] al show ?thesis by (simp add: closed_again_def)
  qed
qed

lemma create_server_socket_result:
  assumes K: "kernel_table K sk addr_lists" and run: "create_server_socket K port backlog w = (fd, w')"
  shows "addr_lists w' = addr_lists w
       \<and> (if fd \<ge> 0 then configuring sk (sk w) fd (\<lambda>s. listens port backlog s \<and> sk_reuse s \<and> nonblocking s) w'
          else fd = -1 \<and> sk w' = sk w)"
proof -
  let ?sa = "\<lparr>sin_family = AF_INET, sin_addr = INADDR_ANY, sin_port = port\<rparr>"
  obtain f w1 where sock: "sys_socket K AF_INET SOCK_STREAM 0 w = (f, w1)" by (cases "sys_socket K AF_INET SOCK_STREAM 0 w")
  obtain r2 w2 where reuse: "sys_reuseaddr K f 1 w1 = (r2, w2)" by (cases "sys_reuseaddr K f 1 w1")
  obtain r3 w3 where bnd: "sys_bind K f ?sa w2 = (r3, w3)" by (cases "sys_bind K f ?sa w2")
  obtain r4 w4 where lst: "sys_listen K f backlog w3 = (r4, w4)" by (cases "sys_listen K f backlog w3")
  obtain ok w5 where nb: "set_non_blocking K f w4 = (ok, w5)" by (cases "set_non_blocking K f w4")
  note s1 = kernel_tableD(1) [OF K sock]
  note run' = run [unfolded create_server_socket_def set_reuseaddr_def, simplified sock reuse bnd lst nb Let_def prod.case]
  have c1: "configuring sk (sk w) f (\<lambda>s. True) w1" if "\<not> f < 0"
    using s1 that by (auto intro: configuring_mono [OF opens_configuring])
  note step = configuring_step [OF K]
  have c2: "addr_lists w2 = addr_lists w \<and> (r2 = 0 \<and> configuring sk (sk w) f sk_reuse w2
      \<or> r2 = -1 \<and> closed_again K sk addr_lists f w w2)" if "\<not> f < 0"
    by (rule step [OF c1 [OF that] _ kernel_tableD(2) [OF K] reuse]) (use s1 in simp_all)
  have c3: "addr_lists w3 = addr_lists w \<and> (r3 = 0 \<and> configuring sk (sk w) f (\<lambda>s. sk_reuse s \<and> sk_bound s = Some ?sa) w3
      \<or> r3 = -1 \<and> closed_again K sk addr_lists f w w3)" if "\<not> f < 0" "r2 = 0"
    by (rule step [OF _ _ kernel_tableD(3) [OF K] bnd, of w sk_reuse]) (use c2 that in simp_all)
  have c4: "addr_lists w4 = addr_lists w \<and> (r4 = 0 \<and> configuring sk (sk w) f (\<lambda>s. sk_reuse s \<and> listens port backlog s) w4
      \<or> r4 = -1 \<and> closed_again K sk addr_lists f w w4)" if "\<not> f < 0" "r2 = 0" "r3 = 0"
    by (rule step [OF _ _ kernel_tableD(4) [OF K] lst, of w "\<lambda>s. sk_reuse s \<and> sk_bound s = Some ?sa"])
      (use c3 that in \<open>simp_all add: listens_def\<close>)
  have c5: "addr_lists w5 = addr_lists w \<and> (if ok then configuring sk (sk w) f (\<lambda>s. listens port backlog s \<and> sk_reuse s \<and> nonblocking s) w5
      else closed_again K sk addr_lists f w w5)" if "\<not> f < 0" "r2 = 0" "r3 = 0" "r4 = 0"
    using set_non_blocking_sets [OF K _ nb, of "sk w" "\<lambda>s. sk_reuse s \<and> listens port backlog s"] c4 that
      configuring_close [OF K, of "sk w" f _ w5]
    by (auto simp: listens_def closed_again_def elim!: configuring_mono split: if_splits)
  show ?thesis
    using run' s1 c2 c3 c4 c5 by (auto simp: closed_again_def split: if_splits)
qed

lemma try_candidates_result:
  assumes K: "kernel_table K sk addr_lists" and "try_candidates K cands (-1) w = (fd, w')"
  shows "addr_lists w' = addr_lists w
       \<and> (if fd \<ge> 0 then \<exists>pre cand post w1. cands = pre @ cand # post \<and> try_candidates K pre (-1) w = (-1, w1)
            \<and> try_candidates K [cand] (-1) w1 = (fd, w')
            \<and> configuring sk (sk w) fd (\<lambda>s. sk_peer s = Some (ai_addr cand)) w'
          else fd = -1 \<and> sk w' = sk w)"
  using assms(2)
proof (induction cands arbitrary: w)
  case (Cons cand cands)
  obtain f w1 where sock: "sys_socket K (ai_family cand) (ai_socktype cand) (ai_protocol cand) w = (f, w1)"
    by (cases "sys_socket K (ai_family cand) (ai_socktype cand) (ai_protocol cand) w")
  obtain r w2 where conn: "sys_connect K f (ai_addr cand) w1 = (r, w2)" by (cases "sys_connect K f (ai_addr cand) w1")
  note s1 = kernel_tableD(1) [OF K sock]
  have c2: "addr_lists w2 = addr_lists w \<and> (r = 0 \<and> configuring sk (sk w) f (\<lambda>s. sk_peer s = Some (ai_addr cand)) w2
      \<or> r = -1 \<and> closed_again K sk addr_lists f w w2)" if "\<not> f < 0"
    by (rule configuring_step [OF K _ _ kernel_tableD(5) [OF K] conn, of w "\<lambda>s. True"])
      (use s1 that in \<open>auto intro: configuring_mono [OF opens_configuring]\<close>)
  show ?case
  proof (cases "\<not> f < 0 \<and> r = 0")
    case True
    then have eqs: "fd = f" "w' = w2" using Cons.prems by (simp_all add: sock conn)
    then have "try_candidates K [cand] (-1) w = (fd, w')" using True by (simp add: sock conn)
    moreover have "addr_lists w' = addr_lists w" "0 \<le> fd" "configuring sk (sk w) fd (\<lambda>s. sk_peer s = Some (ai_addr cand)) w'"
      using True c2 eqs by auto
    moreover have "try_candidates K [] (-1) w = (-1, w)" by simp
    ultimately show ?thesis by (metis append_Nil)
  next
    case False
    define w3 where "w3 = (if f < 0 then w1 else close_socket K f w2)"
    have one: "try_candidates K (cand # xs) (-1) w = try_candidates K xs (-1) w3" for xs
      using False s1 by (auto simp: sock conn w3_def)
    have same: "sk w3 = sk w" "addr_lists w3 = addr_lists w"
      using False s1 c2 by (auto simp: w3_def closed_again_def)
    have rest: "try_candidates K cands (-1) w3 = (fd, w')" using Cons.prems by (simp only: one)
    show ?thesis
    proof (cases "fd \<ge> 0")
      case True
      with Cons.IH [OF rest] same obtain pre c post w4 where
        "cands = pre @ c # post" "try_candidates K pre (-1) w3 = (-1, w4)" "try_candidates K [c] (-1) w4 = (fd, w')"
        "configuring sk (sk w) fd (\<lambda>s. sk_peer s = Some (ai_addr c)) w'" "addr_lists w' = addr_lists w"
        by auto
      moreover from this(2) have "try_candidates K (cand # pre) (-1) w = (-1, w4)" by (simp only: one)
      moreover have "cand # cands = (cand # pre) @ c # post" using calculation(1) by simp
      ultimately show ?thesis using True by metis
    next
      case False
      with Cons.IH [OF rest] same show ?thesis by simp
    qed
  qed
qed simp

subsection \<open>Transfers\<close>

definition send_law :: "('w \<Rightarrow> bool) \<Rightarrow> ('w \<Rightarrow> string \<Rightarrow> write_result \<times> 'w) \<Rightarrow> ('w \<Rightarrow> string) \<Rightarrow> ('w \<Rightarrow> nat) \<Rightarrow> ('w \<Rightarrow> 'k) \<Rightarrow> bool" where
  "send_law good snd_call sent patience keep \<longleftrightarrow>
     (\<forall>bs w. good w \<longrightarrow> bs \<noteq> [] \<longrightarrow> (case snd_call w bs of
        (Wrote n, w') \<Rightarrow> good w' \<and> keep w' = keep w \<and> 0 < n \<and> n \<le> length bs \<and> sent w' = sent w @ take n bs
      | (WriteFail e, w') \<Rightarrow> good w' \<and> keep w' = keep w \<and> sent w' = sent w \<and> (e = EINTR \<longrightarrow> patience w' < patience w)))"

definition recv_law :: "('w \<Rightarrow> bool) \<Rightarrow> ('w \<Rightarrow> nat \<Rightarrow> read_result \<times> 'w) \<Rightarrow> ('w \<Rightarrow> string) \<Rightarrow> ('w \<Rightarrow> nat) \<Rightarrow> ('w \<Rightarrow> 'k) \<Rightarrow> bool" where
  "recv_law good rcv_call coming patience keep \<longleftrightarrow>
     (\<forall>n w. good w \<longrightarrow> 0 < n \<longrightarrow> (case rcv_call w n of
        (ReadBytes bs, w') \<Rightarrow> good w' \<and> keep w' = keep w \<and> bs \<noteq> [] \<and> length bs \<le> n \<and> coming w = bs @ coming w'
      | (ReadEof, w') \<Rightarrow> good w' \<and> keep w' = keep w \<and> coming w' = coming w
      | (ReadFail e, w') \<Rightarrow> good w' \<and> keep w' = keep w \<and> coming w' = coming w \<and> (e = EINTR \<longrightarrow> patience w' < patience w)))"

text \<open>Sends that only ever fail by interruption, and receptions that deliver what is coming.\<close>

definition send_reliable :: "('w \<Rightarrow> bool) \<Rightarrow> ('w \<Rightarrow> string \<Rightarrow> write_result \<times> 'w) \<Rightarrow> bool" where
  "send_reliable good snd_call \<longleftrightarrow> (\<forall>bs w e w'. good w \<longrightarrow> bs \<noteq> [] \<longrightarrow> snd_call w bs = (WriteFail e, w') \<longrightarrow> e = EINTR)"

definition recv_reliable :: "('w \<Rightarrow> bool) \<Rightarrow> ('w \<Rightarrow> nat \<Rightarrow> read_result \<times> 'w) \<Rightarrow> ('w \<Rightarrow> string) \<Rightarrow> bool" where
  "recv_reliable good rcv_call coming \<longleftrightarrow> (\<forall>n w. good w \<longrightarrow> 0 < n \<longrightarrow> coming w \<noteq> [] \<longrightarrow>
     (case rcv_call w n of (ReadBytes bs, w') \<Rightarrow> True | (ReadEof, w') \<Rightarrow> False | (ReadFail e, w') \<Rightarrow> e = EINTR))"

text \<open>A law and what else the calls keep.\<close>

lemma send_law_and:
  assumes "send_law good snd_call sent patience keep"
    and "\<And>bs w r w'. P w \<Longrightarrow> bs \<noteq> [] \<Longrightarrow> snd_call w bs = (r, w') \<Longrightarrow> P w'"
  shows "send_law (\<lambda>w. good w \<and> P w) snd_call sent patience keep"
  using assms unfolding send_law_def by (fastforce split: prod.splits write_result.splits)

lemma recv_law_and:
  assumes "recv_law good rcv_call coming patience keep"
    and "\<And>n w r w'. P w \<Longrightarrow> rcv_call w n = (r, w') \<Longrightarrow> P w'"
  shows "recv_law (\<lambda>w. good w \<and> P w) rcv_call coming patience keep"
  using assms unfolding recv_law_def by (fastforce split: prod.splits read_result.splits)

lemma write_all_loop_sends:
  assumes law: "send_law good (\<lambda>w bs. sys_send K fd bs w) sent patience keep" and "good w"
  shows "\<exists>ok w' k. write_all_loop K fd data offs w = Some (ok, w') \<and> good w' \<and> keep w' = keep w
       \<and> sent w' = sent w @ take k (drop offs data)
       \<and> (ok \<longrightarrow> length (drop offs data) \<le> k)
       \<and> (\<not> ok \<longrightarrow> k < length (drop offs data) \<and> \<not> send_reliable good (\<lambda>w bs. sys_send K fd bs w))"
  using assms(2)
proof (induction "(length data - offs, patience w)" arbitrary: offs w rule: wf_induct_rule [OF wf_lex_prod [OF wf_less_than wf_less_than]])
  case (1 offs w)
  show ?case
  proof (cases "offs < length data")
    case False
    then have "write_all_loop K fd data offs w = Some (True, w)" by (subst write_all_loop.simps) simp
    with False 1(2) show ?thesis by (intro exI [of _ True] exI [of _ w] exI [of _ "0::nat"]) simp
  next
    case True
    obtain r w1 where call: "sys_send K fd (drop offs data) w = (r, w1)" by (cases "sys_send K fd (drop offs data) w")
    have ne: "drop offs data \<noteq> []" using True by simp
    note l = law [unfolded send_law_def, rule_format, OF 1(2) ne, unfolded call, simplified]
    show ?thesis
    proof (cases r)
      case (Wrote n)
      with l have n: "0 < n" "n \<le> length data - offs" and s: "sent w1 = sent w @ take n (drop offs data)"
        and i: "good w1" "keep w1 = keep w" by simp_all
      have "((length data - (offs + n), patience w1), length data - offs, patience w) \<in> less_than <*lex*> less_than"
        using n True diff_less_mono2 [of offs "offs + n" "length data"] by simp
      from 1(1) [OF this i(1)] obtain ok w' k where run: "write_all_loop K fd data (offs + n) w1 = Some (ok, w')"
          "good w'" "keep w' = keep w1"
        and k: "sent w' = sent w1 @ take k (drop (offs + n) data)"
        and len: "ok \<longrightarrow> length (drop (offs + n) data) \<le> k" "\<not> ok \<longrightarrow> k < length (drop (offs + n) data)"
        and rel: "\<not> ok \<longrightarrow> \<not> send_reliable good (\<lambda>w bs. sys_send K fd bs w)" by blast
      have "take n (drop offs data) @ take k (drop (offs + n) data) = take (n + k) (drop offs data)"
        using take_add [of n k "drop offs data"] by (simp add: add.commute)
      with run k len rel n s i True show ?thesis
        by (subst write_all_loop.simps) (auto simp: call Wrote intro!: exI [of _ "n + k"])
    next
      case (WriteFail e)
      show ?thesis
      proof (cases "e = EINTR")
        case True
        then have "((length data - offs, patience w1), length data - offs, patience w) \<in> less_than <*lex*> less_than"
          using l WriteFail by simp
        from 1(1) [OF this] l WriteFail True \<open>offs < length data\<close> show ?thesis
          by (subst write_all_loop.simps) (auto simp: call)
      next
        case False
        have "\<not> send_reliable good (\<lambda>w bs. sys_send K fd bs w)"
          unfolding send_reliable_def using ne call WriteFail False 1(2) by blast
        with False l WriteFail \<open>offs < length data\<close> show ?thesis
          by (subst write_all_loop.simps) (auto simp: call intro!: exI [of _ "0::nat"])
      qed
    qed
  qed
qed

text \<open>What one \<open>read_line\<close> takes from the stream.\<close>

definition line_text :: "string \<Rightarrow> string" where
  "line_text taken = filter (\<lambda>c. c \<noteq> CR \<and> c \<noteq> NL) taken"

lemma read_line_loop_takes:
  assumes law: "recv_law good (\<lambda>w n. sys_recv K fd n w) coming patience keep" and "good w"
  shows "\<exists>ok w' taken. read_line_loop K fd line w = Some (ok, line @ line_text taken, w') \<and> good w' \<and> keep w' = keep w \<and> coming w = taken @ coming w'
       \<and> (if ok then NL \<in> set taken \<and> last taken = NL \<and> NL \<notin> set (butlast taken) \<or> NL \<notin> set taken else NL \<notin> set taken)
       \<and> (recv_reliable good (\<lambda>w n. sys_recv K fd n w) coming \<longrightarrow> NL \<in> set (coming w) \<longrightarrow> ok \<and> NL \<in> set taken)"
  using assms(2)
proof (induction "(length (coming w), patience w)" arbitrary: line w rule: wf_induct_rule [OF wf_lex_prod [OF wf_less_than wf_less_than]])
  case (1 w line)
  obtain r w1 where call: "sys_recv K fd 1 w = (r, w1)" by (cases "sys_recv K fd 1 w")
  note l = law [unfolded recv_law_def, rule_format, OF 1(2) zero_less_one, unfolded call, simplified]
  note call' = call [simplified]
  have rel: "recv_reliable good (\<lambda>w n. sys_recv K fd n w) coming \<longrightarrow> NL \<in> set (coming w) \<longrightarrow>
      r \<noteq> ReadEof \<and> (\<forall>e. r = ReadFail e \<longrightarrow> e = EINTR)"
  proof (intro impI)
    assume rec: "recv_reliable good (\<lambda>w n. sys_recv K fd n w) coming" and "NL \<in> set (coming w)"
    then have "coming w \<noteq> []" by auto
    from rec [unfolded recv_reliable_def, rule_format, OF 1(2) zero_less_one this] call
    show "r \<noteq> ReadEof \<and> (\<forall>e. r = ReadFail e \<longrightarrow> e = EINTR)" by auto
  qed
  show ?case
  proof (cases r)
    case (ReadBytes bs)
    then obtain ch where bs: "bs = [ch]" and cm: "coming w = ch # coming w1" and i: "good w1" "keep w1 = keep w"
      using l by (cases bs) auto
    show ?thesis
    proof (cases "ch = NL")
      case True
      then have "read_line_loop K fd line w = Some (True, line @ line_text [NL], w1)"
        using ReadBytes bs by (subst read_line_loop.simps) (simp add: call call' line_text_def)
      then show ?thesis using cm i True by (intro exI [of _ True] exI [of _ w1] exI [of _ "[NL]"]) simp
    next
      case False
      have "((length (coming w1), patience w1), length (coming w), patience w) \<in> less_than <*lex*> less_than"
        using cm by simp
      from 1(1) [OF this i(1), of "if ch \<noteq> CR then line @ [ch] else line"] obtain ok w' taken where
        run: "read_line_loop K fd (if ch \<noteq> CR then line @ [ch] else line) w1
                = Some (ok, (if ch \<noteq> CR then line @ [ch] else line) @ line_text taken, w')"
        and t: "good w'" "keep w' = keep w1" "coming w1 = taken @ coming w'"
          "if ok then NL \<in> set taken \<and> last taken = NL \<and> NL \<notin> set (butlast taken) \<or> NL \<notin> set taken else NL \<notin> set taken"
          "recv_reliable good (\<lambda>w n. sys_recv K fd n w) coming \<longrightarrow> NL \<in> set (coming w1) \<longrightarrow> ok \<and> NL \<in> set taken" by blast
      have "read_line_loop K fd line w = Some (ok, line @ line_text (ch # taken), w')"
        using run False by (subst read_line_loop.simps) (simp add: call call' ReadBytes bs line_text_def)
      then show ?thesis using cm t i False by (intro exI [of _ ok] exI [of _ w'] exI [of _ "ch # taken"]) auto
    qed
  next
    case ReadEof
    then have "read_line_loop K fd line w = Some (line \<noteq> [], line @ line_text [], w1)"
      by (subst read_line_loop.simps) (simp add: call call' line_text_def)
    then show ?thesis using l rel ReadEof
      by (intro exI [of _ "line \<noteq> []"] exI [of _ w1] exI [of _ "[]"]) auto
  next
    case (ReadFail e)
    show ?thesis
    proof (cases "e = EINTR")
      case True
      then have "((length (coming w1), patience w1), length (coming w), patience w) \<in> less_than <*lex*> less_than"
        using l ReadFail by simp
      note IH = 1(1) [OF this, of line]
      have "read_line_loop K fd line w = read_line_loop K fd line w1"
        using ReadFail True by (subst read_line_loop.simps) (simp add: call call')
      moreover have "coming w1 = coming w" "good w1" "keep w1 = keep w" using l ReadFail by simp_all
      ultimately show ?thesis using IH by simp
    next
      case False
      then have "read_line_loop K fd line w = Some (False, line @ line_text [], w1)"
        using ReadFail by (subst read_line_loop.simps) (simp add: call call' line_text_def)
      then show ?thesis using l rel ReadFail False
        by (intro exI [of _ False] exI [of _ w1] exI [of _ "[]"]) auto
    qed
  qed
qed

lemma read_line_one:
  assumes "recv_law good (\<lambda>w n. sys_recv K fd n w) coming patience keep"
    and "recv_reliable good (\<lambda>w n. sys_recv K fd n w) coming"
    and "coming w = line @ NL # rest" and "NL \<notin> set line" and "good w"
  shows "\<exists>w'. read_line K fd w = Some (True, filter (\<lambda>c. c \<noteq> CR) line, w') \<and> coming w' = rest \<and> good w' \<and> keep w' = keep w"
proof -
  obtain ok w' taken where run: "read_line_loop K fd [] w = Some (ok, line_text taken, w')" "good w'" "keep w' = keep w"
    and cut: "coming w = taken @ coming w'"
    and t: "if ok then NL \<in> set taken \<and> last taken = NL \<and> NL \<notin> set (butlast taken) \<or> NL \<notin> set taken else NL \<notin> set taken"
    and rel: "recv_reliable good (\<lambda>w n. sys_recv K fd n w) coming \<longrightarrow> NL \<in> set (coming w) \<longrightarrow> ok \<and> NL \<in> set taken"
    using read_line_loop_takes [OF assms(1,5), of "[]"] by auto
  have ok: "ok" "NL \<in> set taken" using rel assms by simp_all
  with t have tk: "taken = butlast taken @ [NL]" "NL \<notin> set (butlast taken)"
    by (metis append_butlast_last_id empty_iff empty_set)+
  then have "find_char NL (coming w) = Some (length (butlast taken))"
    using find_char_append_hit [of NL "butlast taken" "coming w'"] cut by (metis append.assoc append_Cons append_Nil)
  moreover have "find_char NL (coming w) = Some (length line)" using assms by simp
  ultimately have len: "length (butlast taken) = length line" by simp
  have "butlast taken @ NL # coming w' = line @ NL # rest" using cut tk(1) assms(3) by (metis append.assoc append_Cons append_Nil)
  with len have "butlast taken = line" "coming w' = rest" by simp_all
  moreover have "line_text (line @ [NL]) = filter (\<lambda>c. c \<noteq> CR) line"
    using assms(4) by (auto simp: line_text_def intro!: filter_cong)
  ultimately show ?thesis using run ok tk(1) by (simp add: read_line_def)
qed

end
