(* ===== verification/TcpClient.thy ===== *)
theory TcpClient
  imports SocketLaws TcpServer "HOL-Library.Monad_Syntax"
begin

section \<open>The interactive TCP client (\<open>src/client/main.cpp\<close>)\<close>

text \<open>
  \<open>send_request\<close>, the prompt loop and \<open>main\<close>. Standard input is the list of lines \<open>std::getline\<close>
  yields, standard output the list of texts inserted into \<open>std::cout\<close>; messages on \<open>std::cerr\<close> are
  left out. A result is \<open>None\<close> when a transfer never ends. The locale \<open>line_service\<close> is what the
  client relies on: a connection whose far end answers every complete line with one line;
  \<open>TcpSession\<close> interprets it on the model of the server.
\<close>

subsection \<open>Number arguments\<close>

text \<open>\<open>std::stoi\<close>: leading white space, an optional sign, digits; the two exceptions by name.\<close>

definition stoi :: "string \<Rightarrow> string + int" where
  "stoi s =
     (let s = dropWhile isspace s;
          neg = (s \<noteq> [] \<and> hd s = CHR ''-'');
          s = (if s \<noteq> [] \<and> (hd s = CHR ''-'' \<or> hd s = CHR ''+'') then tl s else s);
          digits = takeWhile is_digit s;
          n = (if neg then - int (number_of digits) else int (number_of digits))
      in if digits = [] then Inl ''invalid_argument''
         else if n < - (2 ^ 31) \<or> 2 ^ 31 \<le> n then Inl ''out_of_range''
         else Inr n)"

definition to_port :: "int \<Rightarrow> u16" where
  "to_port n = word_of_int n"

subsection \<open>The session\<close>

definition send_request :: "'w kernel \<Rightarrow> int \<Rightarrow> string \<Rightarrow> string list \<Rightarrow> 'w \<Rightarrow> (bool \<times> string list \<times> 'w) option" where
  "send_request K fd line out w = do {
     (ok, w) \<leftarrow> write_all K fd (line @ [NL]) w;
     if \<not> ok then Some (False, out, w)
     else do {
       (ok, response, w) \<leftarrow> read_line K fd w;
       if \<not> ok then Some (False, out, w) else Some (True, out @ [response @ [NL]], w)
     }
   }"

fun client_loop :: "'w kernel \<Rightarrow> int \<Rightarrow> string list \<Rightarrow> string list \<Rightarrow> 'w \<Rightarrow> (string list \<times> 'w) option" where
  "client_loop K fd [] out w = Some (out @ [''> ''], w)"
| "client_loop K fd (line # stdin) out w =
     (let out = out @ [''> ''] in
      if line = [] then client_loop K fd stdin out w
      else do {
        (ok, out, w) \<leftarrow> send_request K fd line out w;
        if \<not> ok then Some (out, w)
        else if req_type (parse_request line) = Quit then Some (out, w)
        else client_loop K fd stdin out w
      })"

datatype exit_status = EXIT_SUCCESS | EXIT_FAILURE | Uncaught string

text \<open>\<open>argv\<close> without the program name.\<close>

definition client_main :: "'w kernel \<Rightarrow> string list \<Rightarrow> string list \<Rightarrow> 'w \<Rightarrow> (exit_status \<times> string list \<times> 'w) option" where
  "client_main K argv stdin w =
     (let host = (if length argv > 0 then argv ! 0 else ''127.0.0.1'') in
      case (if length argv > 1 then stoi (argv ! 1) else Inr 9090) of
        Inl e \<Rightarrow> Some (Uncaught e, [], w)
      | Inr n \<Rightarrow>
          let port = to_port n; (fd, w) = create_client_socket K host port w in
          if fd < 0 then Some (EXIT_FAILURE, [], w)
          else do {
            (out, w) \<leftarrow> client_loop K fd stdin
               [''connected to '' @ host @ '':'' @ to_string (unat port) @ [NL],
                ''type commands like: SET key value | GET key | DEL key | QUIT'' @ [NL]] w;
            Some (EXIT_SUCCESS, out, close_socket K fd w)
          })"

subsection \<open>What the client relies on\<close>

text \<open>\<open>sent\<close> is what the connection has accepted, \<open>got\<close> what it has delivered, \<open>coming\<close> what it still
will; \<open>reply s\<close> is everything the far end sends to a client that has sent \<open>s\<close>, and \<open>opened s\<close> says
that after \<open>s\<close> it still answers lines.\<close>

locale line_service =
  fixes K :: "'w kernel" and fd :: int and good :: "'w \<Rightarrow> bool"
    and sent got coming :: "'w \<Rightarrow> string" and patience :: "'w \<Rightarrow> nat"
    and reply :: "string \<Rightarrow> string" and opened :: "string \<Rightarrow> bool"
  assumes sends: "send_law good (\<lambda>w bs. sys_send K fd bs w) sent patience got"
    and sends_all: "send_reliable good (\<lambda>w bs. sys_send K fd bs w)"
    and receives: "recv_law good (\<lambda>w n. sys_recv K fd n w) coming patience sent"
    and receives_all: "recv_reliable good (\<lambda>w n. sys_recv K fd n w) coming"
    and stream: "good w \<Longrightarrow> got w @ coming w = reply (sent w)"
    and answers: "opened s \<Longrightarrow> NL \<notin> set line \<Longrightarrow> \<exists>resp. NL \<notin> set resp \<and> reply (s @ line @ [NL]) = reply s @ resp @ [NL]"
    and stays_open: "opened s \<Longrightarrow> NL \<notin> set line \<Longrightarrow> \<not> quit_line line \<Longrightarrow> opened (s @ line @ [NL])"
begin

definition idle :: "'w \<Rightarrow> bool" where
  "idle w \<longleftrightarrow> good w \<and> coming w = [] \<and> opened (sent w)"

definition response :: "string \<Rightarrow> string \<Rightarrow> string" where
  "response s line = filter (\<lambda>c. c \<noteq> CR) (drop (length (reply s)) (reply (s @ line @ [NL])))"

fun transcript :: "string \<Rightarrow> string list \<Rightarrow> string list" where
  "transcript s [] = [''> '']"
| "transcript s (line # stdin) =
     ''> '' # (if line = [] then transcript s stdin
               else response s line # (if quit_line line then [] else transcript (s @ line @ [NL]) stdin))"

text \<open>A line sent and its answer read.\<close>

lemma exchange:
  assumes "idle w" and "NL \<notin> set line"
  obtains w1 resp w' where "write_all K fd (line @ [NL]) w = Some (True, w1)" and "read_line K fd w1 = Some (True, resp, w')"
    and "resp @ [NL] = response (sent w) line"
    and "good w'" and "coming w' = []" and "sent w' = sent w @ line @ [NL]"
proof -
  have good: "good w" and none: "coming w = []" using assms(1) by (simp_all add: idle_def)
  obtain resp where resp: "NL \<notin> set resp" "reply (sent w @ line @ [NL]) = reply (sent w) @ resp @ [NL]"
    using answers [OF _ assms(2), of "sent w"] assms(1) by (auto simp: idle_def)
  have wr: "\<exists>ok w1 k. write_all K fd (line @ [NL]) w = Some (ok, w1) \<and> good w1 \<and> got w1 = got w
      \<and> sent w1 = sent w @ take k (line @ [NL]) \<and> ok \<and> length (line @ [NL]) \<le> k"
    using write_all_loop_sends [OF sends good, of "line @ [NL]" 0] sends_all unfolding write_all_def
    by (metis drop0)
  then obtain w1 where w1: "write_all K fd (line @ [NL]) w = Some (True, w1)" "good w1" "got w1 = got w"
    "sent w1 = sent w @ line @ [NL]" by auto
  have "got w @ coming w1 = (got w @ coming w) @ resp @ [NL]"
    using stream [OF w1(2)] stream [OF good] by (simp add: w1 resp)
  then have "coming w1 = resp @ NL # []" by (simp add: none)
  from read_line_one [OF receives receives_all this resp(1) w1(2)]
  obtain w' where w': "read_line K fd w1 = Some (True, filter (\<lambda>c. c \<noteq> CR) resp, w')" "coming w' = []" "good w'" "sent w' = sent w1"
    by auto
  have "filter (\<lambda>c. c \<noteq> CR) resp @ [NL] = response (sent w) line" by (simp add: response_def resp)
  with w1 w' show thesis by (intro that [OF w1(1) w'(1)]) simp_all
qed

lemma send_request_answered:
  assumes "idle w" and "NL \<notin> set line"
  obtains w' where "send_request K fd line out w = Some (True, out @ [response (sent w) line], w')"
    and "good w'" and "coming w' = []" and "sent w' = sent w @ line @ [NL]"
  by (rule exchange [OF assms]) (simp add: send_request_def that)

lemma client_loop_transcript:
  assumes "idle w" and "\<forall>line\<in>set stdin. NL \<notin> set line"
  shows "\<exists>w'. client_loop K fd stdin out w = Some (out @ transcript (sent w) stdin, w')"
  using assms
proof (induction stdin arbitrary: out w)
  case (Cons line stdin)
  show ?case
  proof (cases "line = []")
    case True
    then show ?thesis using Cons.IH [of w "out @ [''> '']"] Cons.prems by simp
  next
    case False
    have nl: "NL \<notin> set line" using Cons.prems by simp
    obtain w1 where one: "send_request K fd line (out @ [''> '']) w = Some (True, (out @ [''> '']) @ [response (sent w) line], w1)"
      "good w1" "coming w1 = []" "sent w1 = sent w @ line @ [NL]"
      by (rule send_request_answered [OF Cons.prems(1) nl])
    show ?thesis
    proof (cases "quit_line line")
      case True
      then show ?thesis using False one by (simp add: quit_line_def)
    next
      case no: False
      then have "idle w1" using one stays_open [OF _ nl, of "sent w"] Cons.prems(1) by (simp add: idle_def)
      from Cons.IH [OF this, of "out @ [''> '', response (sent w) line]"] Cons.prems(2) False no one
      show ?thesis by (simp add: quit_line_def)
    qed
  qed
qed simp

end

end
