(* ===== verification/RdmaServer.thy ===== *)
theory RdmaServer
  imports RdmaContext SocketUtils KvStore TcpServer TcpClient "HOL-Library.Monad_Syntax"
begin

section \<open>The RDMA server (\<open>src/server/rdma_main.cpp\<close>)\<close>

text \<open>
  The listener, the blocking transfers, the handshake data, the handlers of a two-sided and of a
  one-sided client, the preloading loop, the options and \<open>main\<close>. The world of a handler is a
  \<open>host\<close> whose NIC part also holds the sockets, so both the verbs \<open>V\<close> and the socket calls \<open>K\<close> act
  on it. \<open>std::unique_ptr\<close> makes every return of a handler run \<open>destroy\<close>. A result is \<open>None\<close> when a
  loop or \<open>pause\<close> never ends or a null pointer is used.
\<close>

subsection \<open>The handshake structure on the wire\<close>

text \<open>\<open>QpInfo\<close> is sent as its bytes: little endian, each member aligned to its size, 48 in all. The
padding of the value-initialised structure is zero.\<close>

definition qp_info_size :: nat where "qp_info_size = 48"

definition encode_qp_info :: "QpInfo \<Rightarrow> string" where
  "encode_qp_info i = nat_bytes 4 (unat (qi_qp_num i)) @ nat_bytes 2 (unat (qi_lid i)) @ qi_gid i @ replicate 2 NUL
     @ nat_bytes 4 (unat (qi_rkey i)) @ replicate 4 NUL @ u64_bytes (qi_addr i) @ u64_bytes (qi_num_slots i)"

definition decode_qp_info :: "string \<Rightarrow> QpInfo" where
  "decode_qp_info bs = \<lparr>qi_qp_num = of_nat (bytes_nat (take 4 bs)), qi_lid = of_nat (bytes_nat (take 2 (drop 4 bs))),
     qi_gid = take 16 (drop 6 bs), qi_rkey = of_nat (bytes_nat (take 4 (drop 24 bs))),
     qi_addr = bytes_u64 (take 8 (drop 32 bs)), qi_num_slots = bytes_u64 (take 8 (drop 40 bs))\<rparr>"

subsection \<open>Sockets\<close>

definition make_tcp_listener :: "'w kernel \<Rightarrow> u16 \<Rightarrow> 'w \<Rightarrow> int \<times> 'w" where
  "make_tcp_listener K port w =
     (let (fd, w) = sys_socket K AF_INET SOCK_STREAM 0 w in
      if fd < 0 then (-1, w) else
      let (ret, w) = sys_reuseaddr K fd 1 w;
          sa = \<lparr>sin_family = AF_INET, sin_addr = INADDR_ANY, sin_port = port\<rparr>;
          (ret, w) = sys_bind K fd sa w in
      if ret < 0 then (-1, sys_close K fd w) else
      let (ret, w) = sys_listen K fd 16 w in
      if ret < 0 then (-1, sys_close K fd w) else (fd, w))"

partial_function (option) buf_write_all :: "'w kernel \<Rightarrow> int \<Rightarrow> string \<Rightarrow> 'w \<Rightarrow> (bool \<times> 'w) option" where
  "buf_write_all K fd p w =
     (if length p > 0 then
        (case sys_write K fd p w of
           (Wrote n, w) \<Rightarrow> if n = 0 then Some (False, w) else buf_write_all K fd (drop n p) w
         | (WriteFail e, w) \<Rightarrow> if e = EINTR then buf_write_all K fd p w else Some (False, w))
      else Some (True, w))"

text \<open>The bytes read so far fill the buffer from its start.\<close>

partial_function (option) buf_read_all :: "'w kernel \<Rightarrow> int \<Rightarrow> string \<Rightarrow> nat \<Rightarrow> 'w \<Rightarrow> (bool \<times> string \<times> 'w) option" where
  "buf_read_all K fd buf remaining w =
     (if remaining > 0 then
        (case sys_read K fd remaining w of
           (ReadBytes bytes, w) \<Rightarrow>
             if bytes = [] then Some (False, buf, w)
             else buf_read_all K fd (buf @ bytes) (remaining - length bytes) w
         | (ReadEof, w) \<Rightarrow> Some (False, buf, w)
         | (ReadFail e, w) \<Rightarrow> if e = EINTR then buf_read_all K fd buf remaining w else Some (False, buf, w))
      else Some (True, buf, w))"

subsection \<open>Two-sided clients\<close>

text \<open>The request switch of the handler.\<close>

definition two_sided_dispatch :: "KeyValueStore \<Rightarrow> Request \<Rightarrow> Response \<times> KeyValueStore" where
  "two_sided_dispatch kvs req =
     (case req_type req of
        Get \<Rightarrow> (case kv_get (req_key req) kvs of
            Some v \<Rightarrow> (\<lparr>resp_type = Value, resp_payload = v\<rparr>, kvs)
          | None \<Rightarrow> (\<lparr>resp_type = NotFound, resp_payload = []\<rparr>, kvs))
      | Set \<Rightarrow> (\<lparr>resp_type = Ok, resp_payload = []\<rparr>, snd (kv_set (req_key req) (req_value req) kvs))
      | Del \<Rightarrow> (case kv_erase (req_key req) kvs of
            (True, kvs) \<Rightarrow> (\<lparr>resp_type = Ok, resp_payload = []\<rparr>, kvs)
          | (False, kvs) \<Rightarrow> (\<lparr>resp_type = NotFound, resp_payload = []\<rparr>, kvs))
      | Quit \<Rightarrow> (\<lparr>resp_type = Bye, resp_payload = []\<rparr>, kvs)
      | Invalid \<Rightarrow> (\<lparr>resp_type = Error, resp_payload = req_error req\<rparr>, kvs))"

definition strip_newline :: "string \<Rightarrow> string" where
  "strip_newline line = (if line \<noteq> [] \<and> last line = NL then butlast line else line)"

partial_function (option) two_sided_loop :: "'n verbs \<Rightarrow> KeyValueStore \<Rightarrow> RdmaContext \<Rightarrow> 'n host
    \<Rightarrow> (KeyValueStore \<times> RdmaContext \<times> 'n host) option" where
  "two_sided_loop V kvs c h = do {
     (ok, h) \<leftarrow> post_recv V c h;
     if \<not> ok then Some (kvs, c, h)
     else do {
       (ok, c, h) \<leftarrow> poll_completion V c h;
       if \<not> ok then Some (kvs, c, h)
       else
         let req = parse_request (strip_newline (recv_data c h));
             (resp, kvs) = two_sided_dispatch kvs req
         in do {
           (ok, h) \<leftarrow> post_send V (serialize_response resp) c h;
           if \<not> ok then Some (kvs, c, h)
           else do {
             (ok, c, h) \<leftarrow> poll_completion V c h;
             if \<not> ok then Some (kvs, c, h)
             else if req_type req = Quit then Some (kvs, c, h)
             else two_sided_loop V kvs c h
           }
         }
     }
   }"

text \<open>Leaving a handler destroys the context.\<close>

definition leave :: "'n verbs \<Rightarrow> RdmaContext \<Rightarrow> 'n host \<Rightarrow> 'n host" where
  "leave V c h = snd (rdma_destroy V c h)"

text \<open>The exchange over the side channel: send the local structure, then read the remote one.\<close>

definition exchange_info :: "'n host kernel \<Rightarrow> int \<Rightarrow> QpInfo \<Rightarrow> 'n host \<Rightarrow> (QpInfo option \<times> 'n host) option" where
  "exchange_info K tcp_fd local_qp h = do {
     (ok, h) \<leftarrow> buf_write_all K tcp_fd (encode_qp_info local_qp) h;
     if \<not> ok then Some (None, h)
     else do {
       (ok, bytes, h) \<leftarrow> buf_read_all K tcp_fd [] qp_info_size h;
       if \<not> ok then Some (None, h) else Some (Some (decode_qp_info bytes), h)
     }
   }"

definition handle_two_sided_client :: "'n verbs \<Rightarrow> 'n host kernel \<Rightarrow> int \<Rightarrow> string option \<Rightarrow> u64 \<Rightarrow> u64
    \<Rightarrow> KeyValueStore \<Rightarrow> 'n host \<Rightarrow> (KeyValueStore \<times> 'n host) option" where
  "handle_two_sided_client V K tcp_fd device_name sbuf rbuf kvs h =
     (let (ok, c, h) = rdma_init V device_name (RdmaContext_default sbuf rbuf) h in
      if \<not> ok then Some (kvs, leave V c (sys_close K tcp_fd h))
      else do {
        local_qp \<leftarrow> local_info V c h;
        (remote, h) \<leftarrow> exchange_info K tcp_fd local_qp h;
        case remote of
          None \<Rightarrow> Some (kvs, leave V c (sys_close K tcp_fd h))
        | Some remote \<Rightarrow> do {
            (ok, h) \<leftarrow> rdma_connect V remote c (sys_close K tcp_fd h);
            if \<not> ok then Some (kvs, leave V c h)
            else do {
              (kvs, c, h) \<leftarrow> two_sided_loop V kvs c h;
              Some (kvs, leave V c h)
            }
          }
      })"

subsection \<open>One-sided clients\<close>

text \<open>\<open>base\<close> is the address of the store's slot array; \<open>pause\<close> is the process's wait for a signal.\<close>

definition handle_one_sided_client :: "'n verbs \<Rightarrow> 'n host kernel \<Rightarrow> ('n host \<Rightarrow> 'n host option) \<Rightarrow> int \<Rightarrow> u64 \<Rightarrow> u64
    \<Rightarrow> string option \<Rightarrow> u64 \<Rightarrow> u64 \<Rightarrow> 'n host \<Rightarrow> 'n host option" where
  "handle_one_sided_client V K pause tcp_fd base num_slots device_name sbuf rbuf h =
     (let (ok, c, h) = rdma_init V device_name (RdmaContext_default sbuf rbuf) h in
      if \<not> ok then Some (leave V c (sys_close K tcp_fd h))
      else do {
        pd \<leftarrow> pd_ptr c;
        case register_mr V pd base h of
          (None, h) \<Rightarrow> Some (leave V c (sys_close K tcp_fd h))
        | (Some store_mr, h) \<Rightarrow>
            let c = set_exported_region store_mr num_slots c in
            do {
              local_qp \<leftarrow> local_info V c h;
              (remote, h) \<leftarrow> exchange_info K tcp_fd local_qp h;
              case remote of
                None \<Rightarrow> Some (leave V c (sys_close K tcp_fd (ibv_dereg_mr V store_mr h)))
              | Some remote \<Rightarrow> do {
                  (ok, h) \<leftarrow> rdma_connect V remote c (sys_close K tcp_fd h);
                  if \<not> ok then Some (leave V c (ibv_dereg_mr V store_mr h))
                  else do {
                    h \<leftarrow> pause h;
                    Some (leave V c (ibv_dereg_mr V store_mr h))
                  }
                }
            }
      })"

subsection \<open>Options, preloading, accepting\<close>

record server_options =
  so_port :: u16
  so_one_sided :: bool
  so_device :: "string option"
  so_preload :: int

definition server_defaults :: server_options where
  "server_defaults = \<lparr>so_port = 9091, so_one_sided = False, so_device = None, so_preload = 10000\<rparr>"

fun parse_server_options :: "string list \<Rightarrow> server_options \<Rightarrow> string + server_options" where
  "parse_server_options [] opts = Inr opts"
| "parse_server_options [arg] opts = Inr opts"
| "parse_server_options (arg # val # rest) opts =
     (if arg = ''--mode'' then parse_server_options rest (opts\<lparr>so_one_sided := (val = ''one-sided'')\<rparr>)
      else if arg = ''--port'' then
        (case stoi val of Inl e \<Rightarrow> Inl e | Inr n \<Rightarrow> parse_server_options rest (opts\<lparr>so_port := to_port n\<rparr>))
      else if arg = ''--device'' then parse_server_options rest (opts\<lparr>so_device := Some val\<rparr>)
      else if arg = ''--preload'' then
        (case stoi val of Inl e \<Rightarrow> Inl e | Inr n \<Rightarrow> parse_server_options rest (opts\<lparr>so_preload := n\<rparr>))
      else parse_server_options (val # rest) opts)"

definition preload_key :: "nat \<Rightarrow> string" where
  "preload_key i = ''key'' @ to_string i"

definition preload_value :: "nat \<Rightarrow> string" where
  "preload_value i = ''value'' @ to_string i"

text \<open>\<open>for (int i = 0; i < preload_n; ++i)\<close>: the result of each \<open>set\<close> is dropped.\<close>

definition preload :: "int \<Rightarrow> RdmaStore \<Rightarrow> RdmaStore" where
  "preload preload_n st = fold (\<lambda>i st. snd (rdma_set (preload_key i) (preload_value i) st)) [0..<nat preload_n] st"

text \<open>
  The accept loop. Each client gets a detached thread running its handler, and these threads run
  while the loop goes on: \<open>others ts\<close> is what the threads \<open>ts\<close> started so far do to the world (any
  steps of their handlers, a \<open>close\<close> of their own descriptor included) before the next call of the
  main thread. The loop yields the threads it has started, in order. (That \<open>std::thread\<close> can be
  started is taken for granted.)
\<close>

datatype client_thread = TwoSidedThread int | OneSidedThread int

fun thread_fd :: "client_thread \<Rightarrow> int" where
  "thread_fd (TwoSidedThread fd) = fd"
| "thread_fd (OneSidedThread fd) = fd"

partial_function (option) rdma_accept_loop :: "'w kernel \<Rightarrow> (client_thread list \<Rightarrow> 'w \<Rightarrow> 'w) \<Rightarrow> int \<Rightarrow> bool
    \<Rightarrow> client_thread list \<Rightarrow> 'w \<Rightarrow> (client_thread list \<times> 'w) option" where
  "rdma_accept_loop K others listen_fd one_sided spawned w =
     (case sys_accept K listen_fd (others spawned w) of
        (AcceptedFd fd, w) \<Rightarrow>
          rdma_accept_loop K others listen_fd one_sided
            (spawned @ [if one_sided then OneSidedThread fd else TwoSidedThread fd]) w
      | (AcceptFail e, w) \<Rightarrow>
          if e = EINTR then rdma_accept_loop K others listen_fd one_sided spawned w else Some (spawned, w))"

text \<open>\<open>main\<close>, for \<open>argv\<close> without the program name: the exit status, the slot table as preloaded, the
threads started and the world.\<close>

definition rdma_server_main :: "'w kernel \<Rightarrow> (client_thread list \<Rightarrow> 'w \<Rightarrow> 'w) \<Rightarrow> string list \<Rightarrow> 'w
    \<Rightarrow> (exit_status \<times> RdmaStore \<times> client_thread list \<times> 'w) option" where
  "rdma_server_main K others argv w =
     (case parse_server_options argv server_defaults of
        Inl e \<Rightarrow> Some (Uncaught e, RdmaStore_init, [], w)
      | Inr opts \<Rightarrow>
          let one_sided_store = (if so_one_sided opts then preload (so_preload opts) RdmaStore_init else RdmaStore_init);
              (listen_fd, w) = make_tcp_listener K (so_port opts) w in
          if listen_fd < 0 then Some (EXIT_FAILURE, one_sided_store, [], w)
          else do {
            (spawned, w) \<leftarrow> rdma_accept_loop K others listen_fd (so_one_sided opts) [] w;
            Some (EXIT_SUCCESS, one_sided_store, spawned, sys_close K listen_fd (others spawned w))
          })"

end
