(* ===== verification/RdmaClient.thy ===== *)
theory RdmaClient
  imports RdmaServer OneSided "HOL-Library.Sublist"
begin

section \<open>The RDMA client (\<open>src/client/rdma_client.cpp\<close>)\<close>

text \<open>
  The connection to a server, the two-sided request and prompt, the one-sided prompt, the options
  and \<open>main\<close>; the remote table operations are in \<open>OneSided\<close>, the benchmark in \<open>RdmaBenchmark\<close>.
  Standard input is the list of lines \<open>std::getline\<close> yields, standard output the list of texts of
  the lines printed; messages on \<open>std::cerr\<close> are left out. The stack addresses of the local buffers
  are arguments. \<open>None\<close> is a poll or transfer that never ends, or a null pointer that is used.
\<close>

subsection \<open>Connecting\<close>

fun tcp_candidates :: "'w kernel \<Rightarrow> addrinfo list \<Rightarrow> int \<Rightarrow> 'w \<Rightarrow> int \<times> 'w" where
  "tcp_candidates K [] fd w = (fd, w)"
| "tcp_candidates K (p # ps) fd w =
     (let (fd, w) = sys_socket K (ai_family p) (ai_socktype p) (ai_protocol p) w in
      if fd < 0 then tcp_candidates K ps fd w
      else let (ret, w) = sys_connect K fd (ai_addr p) w in
        if ret = 0 then (fd, w)
        else tcp_candidates K ps (-1) (sys_close K fd w))"

definition tcp_connect :: "'w kernel \<Rightarrow> string \<Rightarrow> u16 \<Rightarrow> 'w \<Rightarrow> int \<times> 'w" where
  "tcp_connect K host port w =
     (let port_str = to_string (unat port);
          ((ret, res), w) = sys_getaddrinfo K host port_str AF_UNSPEC SOCK_STREAM w in
      if ret \<noteq> 0 then (-1, w)
      else let (fd, w) = tcp_candidates K res (-1) w in (fd, sys_freeaddrinfo K res w))"

text \<open>The client's \<open>write_all\<close> and \<open>read_all\<close> repeat the server's.\<close>

definition client_write_all :: "'w kernel \<Rightarrow> int \<Rightarrow> string \<Rightarrow> 'w \<Rightarrow> (bool \<times> 'w) option" where
  "client_write_all = buf_write_all"

definition client_read_all :: "'w kernel \<Rightarrow> int \<Rightarrow> nat \<Rightarrow> 'w \<Rightarrow> (bool \<times> string \<times> 'w) option" where
  "client_read_all K fd = buf_read_all K fd []"

text \<open>Read the server's structure, then send the local one. The result is the server's structure,
or \<open>None\<close> for \<open>false\<close>.\<close>

definition connect_rdma_session :: "'n verbs \<Rightarrow> 'n host kernel \<Rightarrow> string \<Rightarrow> u16 \<Rightarrow> string option
    \<Rightarrow> RdmaContext \<Rightarrow> 'n host \<Rightarrow> (QpInfo option \<times> RdmaContext \<times> 'n host) option" where
  "connect_rdma_session V K host port device_name c h =
     (let (tcp_fd, h) = tcp_connect K host port h in
      if tcp_fd < 0 then Some (None, c, h)
      else let (ok, c, h) = rdma_init V device_name c h in
      if \<not> ok then Some (None, c, sys_close K tcp_fd h)
      else do {
        local_qp \<leftarrow> local_info V c h;
        (ok, bytes, h) \<leftarrow> client_read_all K tcp_fd qp_info_size h;
        if \<not> ok then Some (None, c, sys_close K tcp_fd h)
        else do {
          (ok, h) \<leftarrow> client_write_all K tcp_fd (encode_qp_info local_qp) h;
          if \<not> ok then Some (None, c, sys_close K tcp_fd h)
          else do {
            (ok, h) \<leftarrow> rdma_connect V (decode_qp_info bytes) c (sys_close K tcp_fd h);
            if \<not> ok then Some (None, c, h) else Some (Some (decode_qp_info bytes), c, h)
          }
        }
      })"

subsection \<open>Two-sided requests\<close>

definition strip_line_end :: "string \<Rightarrow> string" where
  "strip_line_end response = rev (dropWhile (\<lambda>ch. ch = NL \<or> ch = CR) (rev response))"

text \<open>The response, or \<open>None\<close> for \<open>false\<close>.\<close>

definition two_sided_request_response :: "'n verbs \<Rightarrow> string \<Rightarrow> RdmaContext \<Rightarrow> 'n host
    \<Rightarrow> (string option \<times> RdmaContext \<times> 'n host) option" where
  "two_sided_request_response V command c h = do {
     (ok, h) \<leftarrow> post_recv V c h;
     if \<not> ok then Some (None, c, h)
     else do {
       (ok, h) \<leftarrow> post_send V (command @ [NL]) c h;
       if \<not> ok then Some (None, c, h)
       else do {
         (ok, c, h) \<leftarrow> poll_completion V c h;
         if \<not> ok then Some (None, c, h)
         else do {
           (ok, c, h) \<leftarrow> poll_completion V c h;
           if \<not> ok then Some (None, c, h)
           else Some (Some (strip_line_end (recv_data c h)), c, h)
         }
       }
     }
   }"

fun run_two_sided_loop :: "'n verbs \<Rightarrow> string list \<Rightarrow> string list \<Rightarrow> RdmaContext \<Rightarrow> 'n host
    \<Rightarrow> (string list \<times> RdmaContext \<times> 'n host) option" where
  "run_two_sided_loop V [] out c h = Some (out @ [''> ''], c, h)"
| "run_two_sided_loop V (line # stdin) out c h =
     (let out = out @ [''> ''] in
      if line = [] then run_two_sided_loop V stdin out c h
      else do {
        (ok, h) \<leftarrow> post_recv V c h;
        if \<not> ok then Some (out, c, h)
        else do {
          (ok, h) \<leftarrow> post_send V (line @ [NL]) c h;
          if \<not> ok then Some (out, c, h)
          else do {
            (ok, c, h) \<leftarrow> poll_completion V c h;
            if \<not> ok then Some (out, c, h)
            else do {
              (ok, c, h) \<leftarrow> poll_completion V c h;
              if \<not> ok then Some (out, c, h)
              else
                let out = out @ [recv_data c h @ [NL]] in
                if sublist ''BYE'' (recv_data c h) then Some (out, c, h)
                else run_two_sided_loop V stdin out c h
            }
          }
        }
      })"

definition run_two_sided :: "'n verbs \<Rightarrow> string list \<Rightarrow> RdmaContext \<Rightarrow> 'n host
    \<Rightarrow> (string list \<times> RdmaContext \<times> 'n host) option" where
  "run_two_sided V stdin c h =
     run_two_sided_loop V stdin
       [''Connected (two-sided RDMA).'' @ [NL], ''Commands: GET <k>  SET <k> <v>  DEL <k>  QUIT'' @ [NL]] c h"

subsection \<open>The one-sided prompt\<close>

text \<open>Insertion of an integer after \<open>std::hex\<close>.\<close>

fun to_hex :: "nat \<Rightarrow> string" where
  "to_hex n = (if n < 16 then [''0123456789abcdef'' ! n] else to_hex (n div 16) @ [''0123456789abcdef'' ! (n mod 16)])"

declare to_hex.simps [simp del]

definition slot_text :: "u64 \<Rightarrow> 'n host \<Rightarrow> string" where
  "slot_text local_slot h = c_str (slot_value (slot_at (host_mem h) local_slot))"

fun one_sided_prompt :: "'n verbs \<Rightarrow> QpInfo \<Rightarrow> u64 \<Rightarrow> u32 \<Rightarrow> u64 \<Rightarrow> u32 \<Rightarrow> string list \<Rightarrow> string list
    \<Rightarrow> RdmaContext \<Rightarrow> 'n host \<Rightarrow> (string list \<times> RdmaContext \<times> 'n host) option" where
  "one_sided_prompt V info local_slot slot_lkey atomic_result atomic_lkey [] out c h = Some (out @ [''> ''], c, h)"
| "one_sided_prompt V info local_slot slot_lkey atomic_result atomic_lkey (line # stdin) out c h =
     (let out = out @ [''> ''] in
      if line = [] then one_sided_prompt V info local_slot slot_lkey atomic_result atomic_lkey stdin out c h
      else if line = ''QUIT'' then Some (out, c, h)
      else if take 9 line = ''GET_META '' then do {
        (found, c, h) \<leftarrow> one_sided_get V c info local_slot slot_lkey (drop 9 line) True atomic_result atomic_lkey h;
        one_sided_prompt V info local_slot slot_lkey atomic_result atomic_lkey stdin
          (out @ (if found then [''VALUE '' @ slot_text local_slot h @ [NL],
             ''  [access_count was '' @ to_string (unat (bytes_u64 (load (host_mem h) atomic_result 8))) @ '']'' @ [NL]]
           else [''NOT_FOUND'' @ [NL]])) c h
      }
      else
        let req = parse_request line in
        (case req_type req of
           Get \<Rightarrow> do {
             (found, c, h) \<leftarrow> one_sided_get V c info local_slot slot_lkey (req_key req) False atomic_result atomic_lkey h;
             one_sided_prompt V info local_slot slot_lkey atomic_result atomic_lkey stdin
               (out @ [if found then ''VALUE '' @ slot_text local_slot h @ [NL] else ''NOT_FOUND'' @ [NL]]) c h
           }
         | Set \<Rightarrow> do {
             (r, c, h) \<leftarrow> one_sided_set V c info local_slot slot_lkey (req_key req) (req_value req) h;
             one_sided_prompt V info local_slot slot_lkey atomic_result atomic_lkey stdin
               (out @ [case r of Inr _ \<Rightarrow> ''OK'' @ [NL] | Inl error \<Rightarrow> ''ERROR '' @ error @ [NL]]) c h
           }
         | Quit \<Rightarrow> Some (out, c, h)
         | _ \<Rightarrow> one_sided_prompt V info local_slot slot_lkey atomic_result atomic_lkey stdin
               (out @ [''ERROR '' @ req_error req @ [NL]]) c h))"

definition run_one_sided_interactive :: "'n verbs \<Rightarrow> QpInfo \<Rightarrow> u64 \<Rightarrow> u64 \<Rightarrow> string list \<Rightarrow> RdmaContext \<Rightarrow> 'n host
    \<Rightarrow> (string list \<times> RdmaContext \<times> 'n host) option" where
  "run_one_sided_interactive V info local_slot atomic_result stdin c h =
     (let out = [''Connected (one-sided RDMA).'' @ [NL],
        ''  rkey=0x'' @ to_hex (unat (qi_rkey info)) @ ''  base=0x'' @ to_hex (unat (qi_addr info))
          @ ''  slots='' @ to_string (unat (qi_num_slots info)) @ [NL],
        ''Commands: GET <key>   GET_META <key>   SET <key> <value>   QUIT'' @ [NL]];
          h = h\<lparr>host_mem := store (host_mem h) local_slot (replicate slot_size NUL)\<rparr>
      in do {
        (slot_mr, h) \<leftarrow> rdma_reg_mr V local_slot slot_size [LOCAL_WRITE, REMOTE_WRITE] c h;
        case slot_mr of
          None \<Rightarrow> Some (out, c, h)
        | Some slot_mr \<Rightarrow>
            let h = h\<lparr>host_mem := store (host_mem h) atomic_result (u64_bytes 0)\<rparr> in
            do {
              (atomic_mr, h) \<leftarrow> rdma_reg_mr V atomic_result 8 [LOCAL_WRITE] c h;
              case atomic_mr of
                None \<Rightarrow> Some (out, c, ibv_dereg_mr V slot_mr h)
              | Some atomic_mr \<Rightarrow> do {
                  (out, c, h) \<leftarrow> one_sided_prompt V info local_slot (mr_lkey slot_mr) atomic_result (mr_lkey atomic_mr) stdin out c h;
                  Some (out, c, ibv_dereg_mr V atomic_mr (ibv_dereg_mr V slot_mr h))
                }
            }
      })"

end
