(* ===== verification/OneSidedPrompt.thy ===== *)
theory OneSidedPrompt
  imports OneSidedProps RdmaClient
begin

section \<open>The one-sided prompt is a bounded map\<close>

text \<open>
  The prompt loop of \<open>run_one_sided_interactive\<close> (\<open>src/client/rdma_client.cpp\<close>) against the abstract
  specification of the server's table: a partial map of at most 4096 keys to their values and access
  counts. The lemmas count the
  valid slots by the stored keys, and show that the parser's arguments come from the line typed.
\<close>

subsection \<open>The abstract table\<close>

definition bounded_set :: "string \<Rightarrow> string \<Rightarrow> (string \<rightharpoonup> string) \<Rightarrow> string + (string \<rightharpoonup> string)" where
  "bounded_set k v m =
     (if length k \<ge> RDMA_KEY_MAX then Inl ''key too long''
      else if length v \<ge> RDMA_VALUE_MAX then Inl ''value too long''
      else if m k = None \<and> card (dom m) \<ge> RDMA_NUM_SLOTS then Inl ''remote table full''
      else Inr (m(k \<mapsto> v)))"

text \<open>With the access counts: an overwritten key keeps its count, a new one starts at zero.\<close>

definition counted_set :: "string \<Rightarrow> string \<Rightarrow> (string \<rightharpoonup> string \<times> u64) \<Rightarrow> string + (string \<rightharpoonup> string \<times> u64)" where
  "counted_set k v m =
     (case bounded_set k v (\<lambda>k. map_option fst (m k)) of
        Inl e \<Rightarrow> Inl e
      | Inr _ \<Rightarrow> Inr (m(k \<mapsto> (v, case m k of None \<Rightarrow> 0 | Some (old, n) \<Rightarrow> n))))"

text \<open>What the prompt shows for the lines typed, and the table it leaves: every key with its value and
its access count.\<close>

fun prompt_session :: "(string \<rightharpoonup> string \<times> u64) \<Rightarrow> string list \<Rightarrow> string list \<times> (string \<rightharpoonup> string \<times> u64)" where
  "prompt_session m [] = ([''> ''], m)"
| "prompt_session m (line # stdin) =
     (let again = (\<lambda>shown m. let (out, m') = prompt_session m stdin in (''> '' # shown @ out, m'));
          req = parse_request line
      in if line = [] then again [] m
         else if line = ''QUIT'' then ([''> ''], m)
         else if take 9 line = ''GET_META '' then (case m (drop 9 line) of
               Some (v, n) \<Rightarrow> again [''VALUE '' @ v @ [NL], ''  [access_count was '' @ to_string (unat n) @ '']'' @ [NL]]
                 (m(drop 9 line \<mapsto> (v, n + 1)))
             | None \<Rightarrow> again [''NOT_FOUND'' @ [NL]] m)
         else case req_type req of
           Get \<Rightarrow> (case m (req_key req) of
               Some (v, n) \<Rightarrow> again [''VALUE '' @ v @ [NL]] m
             | None \<Rightarrow> again [''NOT_FOUND'' @ [NL]] m)
         | Set \<Rightarrow> (case counted_set (req_key req) (req_value req) m of
               Inr m' \<Rightarrow> again [''OK'' @ [NL]] m'
             | Inl e \<Rightarrow> again [''ERROR '' @ e @ [NL]] m)
         | Quit \<Rightarrow> ([''> ''], m)
         | _ \<Rightarrow> again [''ERROR '' @ req_error req @ [NL]] m)"

declare prompt_session.simps(2) [simp del]

subsection \<open>Stored keys and valid slots\<close>

lemma stored_iff:
  assumes "store_inv st"
  shows "rdma_map st k \<noteq> None \<longleftrightarrow> (\<exists>p<RDMA_NUM_SLOTS. occupied (slots st ! p) = 1 \<and> slot_key_of (slots st ! p) = k)"
proof -
  have "tab.table_inv (slots st)" using assms by (simp add: store_inv_def)
  then have "rdma_map st k \<noteq> None \<longleftrightarrow> (\<exists>p<RDMA_NUM_SLOTS. tab.holds (slots st) p k)"
    by (auto simp: rdma_map_def tab.contents_def tab.lookup_None_iff)
  then show ?thesis using slot_status_cases(3) [OF store_inv_slot [OF assms]] by (auto simp: tab.holds_def)
qed

lemma card_stored:
  assumes "store_inv st"
  shows "card (dom (rdma_map st)) = card {p. p < RDMA_NUM_SLOTS \<and> occupied (slots st ! p) = 1}"
proof -
  let ?P = "{p. p < RDMA_NUM_SLOTS \<and> occupied (slots st ! p) = 1}"
  have inj: "inj_on (\<lambda>p. slot_key_of (slots st ! p)) ?P"
  proof (rule inj_onI)
    fix p q assume "p \<in> ?P" "q \<in> ?P" "slot_key_of (slots st ! p) = slot_key_of (slots st ! q)"
    then have "p < RDMA_NUM_SLOTS" "q < RDMA_NUM_SLOTS" "tab.holds (slots st) p (slot_key_of (slots st ! p))"
      "tab.holds (slots st) q (slot_key_of (slots st ! p))"
      using slot_status_cases(3) [OF store_inv_slot [OF assms]] by (simp_all add: tab.holds_def)
    then show "p = q" using assms unfolding store_inv_def tab.table_inv_def by blast
  qed
  have img: "(\<lambda>p. slot_key_of (slots st ! p)) ` ?P = dom (rdma_map st)"
  proof (intro set_eqI)
    fix k
    show "k \<in> (\<lambda>p. slot_key_of (slots st ! p)) ` ?P \<longleftrightarrow> k \<in> dom (rdma_map st)"
      unfolding domIff stored_iff [OF assms, of k] image_iff by blast
  qed
  show ?thesis using card_image [OF inj] unfolding img .
qed

lemma no_room_iff:
  assumes "store_inv st"
  shows "(\<forall>p<RDMA_NUM_SLOTS. occupied (slots st ! p) = 1) \<longleftrightarrow> card (dom (rdma_map st)) \<ge> RDMA_NUM_SLOTS"
proof -
  let ?P = "{p. p < RDMA_NUM_SLOTS \<and> occupied (slots st ! p) = 1}"
  have sub: "?P \<subseteq> {..<RDMA_NUM_SLOTS}" by auto
  have "RDMA_NUM_SLOTS \<le> card ?P \<longleftrightarrow> ?P = {..<RDMA_NUM_SLOTS}"
  proof
    assume "RDMA_NUM_SLOTS \<le> card ?P"
    then show "?P = {..<RDMA_NUM_SLOTS}" using card_seteq [OF finite_lessThan sub] by (simp only: card_lessThan)
  next
    assume "?P = {..<RDMA_NUM_SLOTS}"
    then show "RDMA_NUM_SLOTS \<le> card ?P" by (simp only: card_lessThan)
  qed
  moreover have "?P = {..<RDMA_NUM_SLOTS} \<longleftrightarrow> (\<forall>p<RDMA_NUM_SLOTS. occupied (slots st ! p) = 1)" by blast
  ultimately show ?thesis unfolding card_stored [OF assms] by simp
qed

subsection \<open>The contents with the counts\<close>

definition counted_map :: "RdmaStore \<Rightarrow> string \<rightharpoonup> string \<times> u64" where
  "counted_map st = tab.contents (\<lambda>s. (slot_value_of s, access_count s)) (slots st)"

lemma counted_map_fst: "map_option fst (counted_map st k) = rdma_map st k"
  by (simp add: counted_map_def rdma_map_def tab.contents_def option.map_comp comp_def)

lemma counted_map_lookup:
  "counted_map st k = map_option (\<lambda>p. (slot_value_of (slots st ! p), access_count (slots st ! p))) (tab.lookup (slots st) k)"
  by (simp add: counted_map_def tab.contents_def)

lemma counted_map_init: "counted_map RdmaStore_init = Map.empty"
  using counted_map_fst [of RdmaStore_init] by (auto simp: rdma_map_init)

lemma counted_place:
  assumes st: "store_inv st" and ok: "key_ok key" "key_ok value" and fit: "fits key value"
    and target: "place_target (tab.place_of (slots st) key) = Some p"
    and st': "slots st' = (slots st)[p := prepared key value (kept_count (slots st) (tab.place_of (slots st) key))]"
  shows "counted_map st' = (counted_map st)(key \<mapsto> (value, case counted_map st key of None \<Rightarrow> 0 | Some (v, n) \<Rightarrow> n))"
proof -
  let ?val = "\<lambda>s. (slot_value_of s, access_count s)"
  let ?n = "kept_count (slots st) (tab.place_of (slots st) key)"
  note new = prepared_facts [OF fit ok, of ?n]
  have val: "?val (prepared key value ?n) = (value, ?n)" by (simp add: new(4)) (simp add: prepared_def)
  have inv: "tab.table_inv (slots st)" using st by (simp add: store_inv_def)
  have "?n = (case counted_map st key of None \<Rightarrow> 0 | Some (v, n) \<Rightarrow> n)
     \<and> tab.contents ?val ((slots st)[p := prepared key value ?n]) = (tab.contents ?val (slots st))(key \<mapsto> ?val (prepared key value ?n))"
  proof (cases "tab.place_of (slots st) key")
    case (Overwrite q)
    with target have "tab.place_of (slots st) key = Overwrite p" by simp
    then have found: "tab.lookup (slots st) key = Some p" by (simp only: tab.place_Overwrite)
    then have "?n = (case counted_map st key of None \<Rightarrow> 0 | Some (v, n) \<Rightarrow> n)"
      using Overwrite target by (simp add: kept_count_def counted_map_lookup)
    with tab.contents_overwrite [OF inv found new(2,3)] show ?thesis by blast
  next
    case (Insert q)
    with target have "tab.place_of (slots st) key = Insert p" by simp
    then obtain m where m: "m < RDMA_NUM_SLOTS" "p = tab.pos key m" "tab.chain (slots st) key m"
      "slot_status_of (slots st ! p) \<noteq> Valid" and none: "tab.lookup (slots st) key = None"
      by (rule tab.place_Insert)
    have "?n = (case counted_map st key of None \<Rightarrow> 0 | Some (v, n) \<Rightarrow> n)"
      using Insert none by (simp add: kept_count_def counted_map_lookup)
    with tab.contents_insert [OF inv none m new(2,3)] show ?thesis by blast
  next
    case (NoEmpty tp)
    with target have "tab.place_of (slots st) key = NoEmpty (Some p)" by simp
    then obtain m where m: "m < RDMA_NUM_SLOTS" "p = tab.pos key m" "tab.chain (slots st) key m"
      "slot_status_of (slots st ! p) \<noteq> Valid" and none: "tab.lookup (slots st) key = None"
      by (rule tab.place_NoEmpty_Tomb)
    have "?n = (case counted_map st key of None \<Rightarrow> 0 | Some (v, n) \<Rightarrow> n)"
      using NoEmpty none by (simp add: kept_count_def counted_map_lookup)
    with tab.contents_insert [OF inv none m new(2,3)] show ?thesis by blast
  qed
  then have n: "?n = (case counted_map st key of None \<Rightarrow> 0 | Some (v, n) \<Rightarrow> n)"
    and "counted_map st' = (counted_map st)(key \<mapsto> (value, ?n))"
    unfolding counted_map_def st' val by blast+
  then show ?thesis by (simp only: n)
qed

lemma counted_bump:
  assumes "tab.lookup (slots st) key = Some p" and "store_inv st"
  shows "counted_map (bump_count p st) = (counted_map st)(key \<mapsto> (slot_value_of (slots st ! p), access_count (slots st ! p) + 1))"
proof
  fix k
  have p: "p < RDMA_NUM_SLOTS" using assms(1) by (auto dest: tab.lookup_SomeD)
  then have len: "p < length (slots st)" using assms(2) by (simp add: store_inv_length)
  have same: "tab.lookup (slots (bump_count p st)) x = tab.lookup (slots st) x" for x
    unfolding tab.lookup_def by (rule tab.relabel_from) (simp add: bump_count_labels)
  show "counted_map (bump_count p st) k
      = ((counted_map st)(key \<mapsto> (slot_value_of (slots st ! p), access_count (slots st ! p) + 1))) k"
  proof (cases "k = key")
    case True
    then show ?thesis using assms(1) len by (simp add: counted_map_lookup same) (simp add: bump_count_def slot_value_of_def)
  next
    case False
    have "q \<noteq> p" if "tab.lookup (slots st) k = Some q" for q
      using tab.lookup_SomeD [OF that] tab.lookup_SomeD [OF assms(1)] False by (auto simp: tab.holds_def)
    then show ?thesis
      using False by (cases "tab.lookup (slots st) k"; simp add: counted_map_lookup same; simp add: bump_count_def)
  qed
qed

subsection \<open>The parser's arguments\<close>

lemma parse_words_chars:
  "set (req_key (parse_words command remainder)) \<subseteq> set remainder"
  "set (req_value (parse_words command remainder)) \<subseteq> set remainder"
  using set_trim_left_subset [of "drop (Suc n) remainder" for n]
  by (auto simp: parse_words_def split: option.split dest: in_set_dropD in_set_takeD set_trim_left_subset [THEN subsetD])

lemma parse_request_chars:
  "set (req_key (parse_request line)) \<subseteq> set line" "set (req_value (parse_request line)) \<subseteq> set line"
proof -
  have rest: "set (trim_left (drop n (trim line))) \<subseteq> set line" for n
    using set_trim_left_subset [of "drop n (trim line)"] set_trim_subset [of line] set_drop_subset [of n "trim line"] by blast
  have "set (req_key (parse_request line)) \<subseteq> set line \<and> set (req_value (parse_request line)) \<subseteq> set line"
  proof (cases line rule: parse_request_cases)
    case (args n)
    with rest [of "Suc n"] parse_words_chars [of "lower_copy (take n (trim line))" "trim_left (drop (Suc n) (trim line))"]
    show ?thesis by auto
  qed (use parse_words_chars [of "lower_copy (trim line)" "[]"] in auto)
  then show "set (req_key (parse_request line)) \<subseteq> set line" "set (req_value (parse_request line)) \<subseteq> set line" by simp_all
qed

subsection \<open>The loop\<close>

text \<open>A session on a device that never fails, with the buffers registered.\<close>

definition prompt_ready :: "'n verbs \<Rightarrow> RdmaContext \<Rightarrow> QpInfo \<Rightarrow> u32 set \<Rightarrow> ('n host \<Rightarrow> mem) \<Rightarrow> ('n host \<Rightarrow> bool)
    \<Rightarrow> u64 \<Rightarrow> u32 \<Rightarrow> u64 \<Rightarrow> u32 \<Rightarrow> bool" where
  "prompt_ready V c info lks remote idle local slot_lkey atomic atomic_lkey \<longleftrightarrow>
     one_sided_session V c info lks remote idle \<and> session_never_fails V c info lks idle
   \<and> slot_lkey \<in> lks \<and> atomic_lkey \<in> lks \<and> 8 dvd unat (qi_addr info) \<and> misses local slot_size atomic 8"

definition table_state :: "QpInfo \<Rightarrow> ('n host \<Rightarrow> mem) \<Rightarrow> ('n host \<Rightarrow> bool) \<Rightarrow> (string \<rightharpoonup> string \<times> u64) \<Rightarrow> 'n host \<Rightarrow> bool" where
  "table_state info remote idle m h \<longleftrightarrow>
     idle h \<and> store_inv (exported info (remote h)) \<and> counted_map (exported info (remote h)) = m"

lemma get_step:
  assumes "prompt_ready V c info lks remote idle local slot_lkey atomic atomic_lkey" and "table_state info remote idle m h"
  obtains (found) h' v n where "one_sided_get V c info local slot_lkey key counting atomic atomic_lkey h = Some (True, c, h')"
      "m key = Some (v, n)" "slot_text local h' = v"
      "table_state info remote idle (if counting then m(key \<mapsto> (v, n + 1)) else m) h'"
      "counting \<longrightarrow> bytes_u64 (load (host_mem h') atomic 8) = n"
  | (absent) h' where "one_sided_get V c info local slot_lkey key counting atomic atomic_lkey h = Some (False, c, h')"
      "table_state info remote idle m h'" "m key = None"
proof -
  let ?st = "exported info (remote h)"
  have st: "store_inv ?st" "idle h" "m = counted_map ?st" using assms(2) by (simp_all add: table_state_def)
  have ready: "one_sided_session V c info lks remote idle" "session_never_fails V c info lks idle" "slot_lkey \<in> lks"
    "atomic_lkey \<in> lks" "8 dvd unat (qi_addr info)" "misses local slot_size atomic 8"
    using assms(1) by (simp_all add: prompt_ready_def)
  obtain ok h' where run: "one_sided_get V c info local slot_lkey key counting atomic atomic_lkey h = Some (ok, c, h')"
    and post: "get_post info remote local atomic counting (tab.lookup (slots ?st) key) h ok h'"
    and good: "ok = (tab.lookup (slots ?st) key \<noteq> None)" "idle h'"
    using get_probe_result [OF ready(1) st(2,1) ready(3-6), of key counting 0] ready(2)
    unfolding one_sided_get_def tab.lookup_def by blast
  show ?thesis
  proof (cases "tab.lookup (slots ?st) key")
    case None
    with post good st have "table_state info remote idle m h'" "\<not> ok" "m key = None"
      by (simp_all add: get_post_def table_state_def counted_map_lookup)
    with run show ?thesis by (intro absent) simp_all
  next
    case (Some p)
    then have p: "p < RDMA_NUM_SLOTS" by (auto dest: tab.lookup_SomeD)
    let ?s = "slots ?st ! p"
    have m: "m key = Some (slot_value_of ?s, access_count ?s)" using Some st(3) by (simp add: counted_map_lookup)
    have got: "slot_at (host_mem h') local = ?s"
      "remote h' = (if counting then add_u64 (remote h) (slot_addr (qi_addr info) p + of_nat access_count_offset) 1 else remote h)"
      "counting \<longrightarrow> bytes_u64 (load (host_mem h') atomic 8) = access_count ?s"
      using post good Some p by (simp_all add: get_post_def Let_def)
    have new: "exported info (remote h') = (if counting then bump_count p ?st else ?st)"
      by (simp add: got(2) exported_bumped [OF p])
    have "table_state info remote idle (if counting then m(key \<mapsto> (slot_value_of ?s, access_count ?s + 1)) else m) h'"
      using good(2) st bump_count_inv(1) [OF st(1) p] counted_bump [OF Some st(1)] by (simp add: table_state_def new)
    then show ?thesis
      using run good Some m got by (intro found [of h' "slot_value_of ?s" "access_count ?s"]) (simp_all add: slot_text_def slot_value_of_def)
  qed
qed

lemma set_step:
  assumes "prompt_ready V c info lks remote idle local slot_lkey atomic atomic_lkey" and "table_state info remote idle m h"
    and "key_ok key" and "key_ok value"
  obtains (stored) h' m' where "one_sided_set V c info local slot_lkey key value h = Some (Inr (), c, h')"
      "table_state info remote idle m' h'" "counted_set key value m = Inr m'"
  | (refused) e h' where "one_sided_set V c info local slot_lkey key value h = Some (Inl e, c, h')"
      "table_state info remote idle m h'" "counted_set key value m = Inl e"
proof -
  let ?st = "exported info (remote h)"
  have st: "store_inv ?st" "idle h" "m = counted_map ?st" using assms(2) by (simp_all add: table_state_def)
  have ready: "one_sided_session V c info lks remote idle" "session_never_fails V c info lks idle" "slot_lkey \<in> lks"
    using assms(1) by (simp_all add: prompt_ready_def)
  have vals: "(\<lambda>k. map_option fst (m k)) = rdma_map ?st" by (intro ext) (simp add: st(3) counted_map_fst)
  have set_eq: "counted_set key value m = (if length key \<ge> RDMA_KEY_MAX then Inl ''key too long''
       else if length value \<ge> RDMA_VALUE_MAX then Inl ''value too long''
       else if place_target (tab.place_of (slots ?st) key) = None then Inl ''remote table full''
       else Inr (m(key \<mapsto> (value, case m key of None \<Rightarrow> 0 | Some (v, n) \<Rightarrow> n))))"
    unfolding counted_set_def vals place_target_None [OF st(1)] no_room_iff [OF st(1)] by (simp add: bounded_set_def)
  show ?thesis
  proof (cases "fits key value")
    case False
    then have "one_sided_set V c info local slot_lkey key value h
       = Some (Inl (if length key \<ge> RDMA_KEY_MAX then ''key too long'' else ''value too long''), c, h)"
      by (auto simp: one_sided_set_def fits_def)
    moreover have "counted_set key value m = Inl (if length key \<ge> RDMA_KEY_MAX then ''key too long'' else ''value too long'')"
      using False by (auto simp: set_eq fits_def)
    ultimately show ?thesis using refused assms(2) by blast
  next
    case True
    let ?pl = "tab.place_of (slots ?st) key"
    have "one_sided_set V c info local slot_lkey key value h
       = set_probe V info local slot_lkey key value (fnv1a key) 0 False 0 c h"
      using True by (simp add: one_sided_set_def fits_def)
    with set_probe_result [OF ready(1) st(2,1) ready(3) True, where i = 0 and local = local] obtain r h'
      where run: "one_sided_set V c info local slot_lkey key value h = Some (r, c, h')"
        and post: "set_post key value (slots ?st) ?pl (slots (exported info (remote h'))) r"
        and good: "r = (if place_target ?pl = None then Inl ''remote table full'' else Inr ())" "idle h'"
      using ready(2) by (auto simp: tomb_addr_def tab.place_of_def)
    show ?thesis
    proof (cases "place_target ?pl")
      case None
      with post have "exported info (remote h') = ?st" by (simp add: set_post_def store_eqI)
      then have "table_state info remote idle m h'" using good(2) assms(2) by (simp add: table_state_def)
      moreover have "counted_set key value m = Inl ''remote table full''" using None True by (simp add: set_eq fits_def)
      ultimately show ?thesis using None run good by (intro refused) simp_all
    next
      case (Some p)
      with post good have new: "slots (exported info (remote h')) = (slots ?st)[p := prepared key value (kept_count (slots ?st) ?pl)]"
        by (simp add: set_post_def)
      have "table_state info remote idle (m(key \<mapsto> (value, case m key of None \<Rightarrow> 0 | Some (v, n) \<Rightarrow> n))) h'"
        using place_prepared(1) [OF st(1) assms(3,4) True Some new] counted_place [OF st(1) assms(3,4) True Some new] good(2) st(3)
        by (simp add: table_state_def)
      with Some run good True show ?thesis by (intro stored) (simp_all add: set_eq fits_def)
    qed
  qed
qed

lemma one_sided_prompt_refines:
  assumes ready: "prompt_ready V c info lks remote idle local slot_lkey atomic atomic_lkey"
    and "table_state info remote idle m h"
    and "\<forall>line\<in>set stdin. req_type (parse_request line) = Set \<longrightarrow> NUL \<notin> set line"
  shows "\<exists>h'. one_sided_prompt V info local slot_lkey atomic atomic_lkey stdin out c h
       = Some (out @ fst (prompt_session m stdin), c, h')
     \<and> table_state info remote idle (snd (prompt_session m stdin)) h'"
  using assms(2,3)
proof (induction stdin arbitrary: m h out)
  case (Cons line stdin)
  let ?r = "parse_request line"
  have keys: "key_ok (req_key ?r)" "key_ok (req_value ?r)" if "req_type ?r = Set"
    using Cons.prems(2) parse_request_chars [of line] that by (auto simp: key_ok_def)
  have rest: "\<forall>line\<in>set stdin. req_type (parse_request line) = Set \<longrightarrow> NUL \<notin> set line"
    using Cons.prems(2) by simp
  note ih = Cons.IH [OF _ rest]
  note defs = one_sided_prompt.simps(2) prompt_session.simps(2) Let_def case_prod_unfold
  consider (blank) "line = []" | (quit) "line = ''QUIT''"
    | (meta) "line \<noteq> []" "line \<noteq> ''QUIT''" "take 9 line = ''GET_META ''"
    | (req) "line \<noteq> []" "line \<noteq> ''QUIT''" "take 9 line \<noteq> ''GET_META ''" by blast
  then show ?case
  proof cases
    case blank
    then show ?thesis using ih [OF Cons.prems(1), of "out @ [''> '']"] by (simp add: defs)
  next
    case quit
    then show ?thesis using Cons.prems(1) by (simp add: defs)
  next
    case meta
    note open_line = defs if_not_P [OF meta(1)] if_not_P [OF meta(2)] if_P [OF meta(3)]
    from ready Cons.prems(1) show ?thesis
    proof (cases rule: get_step [where counting = True and key = "drop 9 line"])
      case (found h' v n)
      let ?shown = "[''VALUE '' @ v @ [NL], ''  [access_count was '' @ to_string (unat n) @ '']'' @ [NL]]"
      have "table_state info remote idle (m(drop 9 line \<mapsto> (v, n + 1))) h'" using found(4) by simp
      from ih [OF this, of "out @ ''> '' # ?shown"] found show ?thesis unfolding open_line by (simp del: fun_upd_apply)
    next
      case (absent h')
      show ?thesis unfolding open_line
        using ih [OF absent(2), of "out @ [''> '', ''NOT_FOUND'' @ [NL]]"] absent by simp
    qed
  next
    case req
    note open_line = defs if_not_P [OF req(1)] if_not_P [OF req(2)] if_not_P [OF req(3)]
    show ?thesis
    proof (cases "req_type ?r")
      case Get
      from ready Cons.prems(1) show ?thesis
      proof (cases rule: get_step [where counting = False and key = "req_key ?r"])
        case (found h' v n)
        have "table_state info remote idle m h'" using found(4) by simp
        from ih [OF this, of "out @ [''> '', ''VALUE '' @ v @ [NL]]"] found show ?thesis unfolding open_line Get by simp
      next
        case (absent h')
        show ?thesis unfolding open_line Get
          using ih [OF absent(2), of "out @ [''> '', ''NOT_FOUND'' @ [NL]]"] absent by simp
      qed
    next
      case Set
      from ready Cons.prems(1) keys [OF Set] show ?thesis
      proof (cases rule: set_step)
        case (stored h' m')
        show ?thesis unfolding open_line Set
          using ih [OF stored(2), of "out @ [''> '', ''OK'' @ [NL]]"] stored by simp
      next
        case (refused e h')
        show ?thesis unfolding open_line Set
          using ih [OF refused(2), of "out @ [''> '', ''ERROR '' @ e @ [NL]]"] refused by simp
      qed
    next
      case Del
      show ?thesis unfolding open_line Del
        using ih [OF Cons.prems(1), of "out @ [''> '', ''ERROR '' @ req_error ?r @ [NL]]"] by simp
    next
      case Quit
      show ?thesis unfolding open_line Quit using Cons.prems(1) by simp
    next
      case Invalid
      show ?thesis unfolding open_line Invalid
        using ih [OF Cons.prems(1), of "out @ [''> '', ''ERROR '' @ req_error ?r @ [NL]]"] by simp
    qed
  qed
qed (simp add: table_state_def)

subsection \<open>The whole prompt\<close>

text \<open>Registration succeeds, with keys the device accepts, and leaves the peer's memory alone.\<close>

definition registers :: "'n verbs \<Rightarrow> RdmaContext \<Rightarrow> u32 set \<Rightarrow> ('n host \<Rightarrow> mem) \<Rightarrow> ('n host \<Rightarrow> bool) \<Rightarrow> bool" where
  "registers V c lks remote idle \<longleftrightarrow>
     (\<exists>pd. pd_ptr c = Some pd \<and> (\<forall>a n flags h. idle h \<longrightarrow>
        (\<exists>mr h1. ibv_reg_mr V pd a n flags h = (Some mr, h1) \<and> mr_lkey mr \<in> lks \<and> idle h1 \<and> remote h1 = remote h)))
   \<and> (\<forall>mr h. remote (ibv_dereg_mr V mr h) = remote h)"

lemma registered:
  assumes "registers V c lks remote idle" and "idle h"
  obtains mr h1 where "rdma_reg_mr V a n flags c h = Some (Some mr, h1)" "mr_lkey mr \<in> lks" "idle h1" "remote h1 = remote h"
  using assms unfolding registers_def rdma_reg_mr_def by fastforce

definition prompt_banner :: "QpInfo \<Rightarrow> string list" where
  "prompt_banner info = [''Connected (one-sided RDMA).'' @ [NL],
     ''  rkey=0x'' @ to_hex (unat (qi_rkey info)) @ ''  base=0x'' @ to_hex (unat (qi_addr info))
       @ ''  slots='' @ to_string (unat (qi_num_slots info)) @ [NL],
     ''Commands: GET <key>   GET_META <key>   SET <key> <value>   QUIT'' @ [NL]]"

lemma interactive_refines:
  assumes ses: "one_sided_session V c info lks remote idle" "session_never_fails V c info lks idle"
    and reg: "registers V c lks remote idle" and al: "8 dvd unat (qi_addr info)" and far: "misses local slot_size atomic 8"
    and st: "idle h" "store_inv (exported info (remote h))"
    and stdin: "\<forall>line\<in>set stdin. req_type (parse_request line) = Set \<longrightarrow> NUL \<notin> set line"
  shows "\<exists>h'. run_one_sided_interactive V info local atomic stdin c h
         = Some (prompt_banner info @ fst (prompt_session (counted_map (exported info (remote h))) stdin), c, h')
     \<and> store_inv (exported info (remote h'))
     \<and> counted_map (exported info (remote h')) = snd (prompt_session (counted_map (exported info (remote h))) stdin)"
proof -
  have frame: "remote (h\<lparr>host_mem := m\<rparr>) = remote h" "idle (h\<lparr>host_mem := m\<rparr>) = idle h" for h m
    using ses(1) by (auto simp: one_sided_session_def verbs_data_path_def)
  have dereg: "remote (ibv_dereg_mr V mr h) = remote h" for mr h using reg by (simp add: registers_def)
  let ?h0 = "h\<lparr>host_mem := store (host_mem h) local (replicate slot_size NUL)\<rparr>"
  have "idle ?h0" using st(1) by (simp add: frame)
  then obtain mr h1 where one: "rdma_reg_mr V local slot_size [LOCAL_WRITE, REMOTE_WRITE] c ?h0 = Some (Some mr, h1)"
    "mr_lkey mr \<in> lks" "idle h1" "remote h1 = remote h"
    using registered [OF reg, where h = ?h0 and a = local and n = slot_size and flags = "[LOCAL_WRITE, REMOTE_WRITE]"] by (metis frame(1))
  let ?h1 = "h1\<lparr>host_mem := store (host_mem h1) atomic (u64_bytes 0)\<rparr>"
  have "idle ?h1" using one(3) by (simp add: frame)
  then obtain mr' h2 where two: "rdma_reg_mr V atomic 8 [LOCAL_WRITE] c ?h1 = Some (Some mr', h2)"
    "mr_lkey mr' \<in> lks" "idle h2" "remote h2 = remote h"
    using registered [OF reg, where h = ?h1 and a = atomic and n = 8 and flags = "[LOCAL_WRITE]"] one(4) by (metis frame(1))
  have ready: "prompt_ready V c info lks remote idle local (mr_lkey mr) atomic (mr_lkey mr')"
    using ses one(2) two(2) al far by (simp add: prompt_ready_def)
  have state: "table_state info remote idle (counted_map (exported info (remote h))) h2"
    using two st(2) by (simp add: table_state_def)
  obtain h3 where run: "one_sided_prompt V info local (mr_lkey mr) atomic (mr_lkey mr') stdin (prompt_banner info) c h2
       = Some (prompt_banner info @ fst (prompt_session (counted_map (exported info (remote h))) stdin), c, h3)"
    and fin: "table_state info remote idle (snd (prompt_session (counted_map (exported info (remote h))) stdin)) h3"
    using one_sided_prompt_refines [OF ready state stdin] by blast
  have "run_one_sided_interactive V info local atomic stdin c h
     = Some (prompt_banner info @ fst (prompt_session (counted_map (exported info (remote h))) stdin), c, ibv_dereg_mr V mr' (ibv_dereg_mr V mr h3))"
    unfolding run_one_sided_interactive_def Let_def prompt_banner_def [symmetric] by (simp add: one two run)
  with fin show ?thesis by (auto simp: table_state_def dereg)
qed

end
