(* ===== verification/OneSidedMachine.thy ===== *)
theory OneSidedMachine
  imports OneSidedPrompt
begin

section \<open>Several one-sided clients on one table\<close>

text \<open>
  \<open>one_sided_get\<close> and \<open>one_sided_set\<close> (\<open>src/client/rdma_client.cpp\<close>) of several clients, interleaved on
  the server's table. A call is a machine: its program counter stands before a network request, and a
  step is the whole request (post, remote access, completion) and the local code up to the next one.
  The remote access of a request, 8 bytes of a counter or one whole slot, is a single access to the
  shared table: the granularity the comment of \<open>one_sided_set\<close> speaks of. How a request ends is an
  input of the step. \<open>get_at_is_run\<close> and \<open>set_at_is_run\<close> show that every behaviour of the two
  functions on a documented device is a run of the machine.
\<close>

subsection \<open>A call\<close>

datatype os_request = GetCall string bool | SetCall string string

text \<open>A request completes, is not posted, or its completion fails, after the peer's memory has been
changed or not.\<close>

datatype nic_answer = Arrived | PostRefused | CompletionFailed bool

datatype os_pc =
    OsIdle
  | GetRead nat
  | GetCount nat
  | GetDone bool
  | SetRead nat "nat option"
  | SetWrite nat u64
  | SetDone "string + unit"

text \<open>The head of the probe loops, and what follows the loop.\<close>

definition get_at :: "nat \<Rightarrow> os_pc" where
  "get_at i = (if i < RDMA_NUM_SLOTS then GetRead i else GetDone False)"

definition set_at :: "nat \<Rightarrow> nat option \<Rightarrow> os_pc" where
  "set_at i tomb =
     (if i < RDMA_NUM_SLOTS then SetRead i tomb
      else case tomb of Some p \<Rightarrow> SetWrite p 0 | None \<Rightarrow> SetDone (Inl ''remote table full''))"

fun start_call :: "os_request \<Rightarrow> os_pc" where
  "start_call (GetCall key counting) = get_at 0"
| "start_call (SetCall key value) =
     (if length key \<ge> RDMA_KEY_MAX then SetDone (Inl ''key too long'')
      else if length value \<ge> RDMA_VALUE_MAX then SetDone (Inl ''value too long'')
      else set_at 0 None)"

fun get_call_step :: "string \<Rightarrow> bool \<Rightarrow> nic_answer \<Rightarrow> os_pc \<Rightarrow> RdmaSlot \<Rightarrow> RdmaStore \<Rightarrow> os_pc \<times> RdmaSlot \<times> RdmaStore" where
  "get_call_step key counting answer (GetRead i) local_slot st =
     (if answer \<noteq> Arrived then (GetDone False, local_slot, st)
      else
        let idx = (fnv1a key + i) AND (RDMA_NUM_SLOTS - 1);
            local_slot = slots st ! idx
        in (if occupied local_slot = 0 then GetDone False
            else if occupied local_slot = 2 then get_at (i + 1)
            else if slot_key_equals (slot_key local_slot) key
              then (if counting then GetCount idx else GetDone True)
            else get_at (i + 1), local_slot, st))"
| "get_call_step key counting answer (GetCount idx) local_slot st =
     (case answer of
        Arrived \<Rightarrow> (GetDone True, local_slot, bump_count idx st)
      | PostRefused \<Rightarrow> (GetDone False, local_slot, st)
      | CompletionFailed reached \<Rightarrow> (GetDone False, local_slot, if reached then bump_count idx st else st))"
| "get_call_step key counting answer pc local_slot st = (pc, local_slot, st)"

definition put_slot :: "nat \<Rightarrow> RdmaSlot \<Rightarrow> RdmaStore \<Rightarrow> RdmaStore" where
  "put_slot p s st = st\<lparr>slots := (slots st)[p := s]\<rparr>"

fun set_call_step :: "string \<Rightarrow> string \<Rightarrow> nic_answer \<Rightarrow> os_pc \<Rightarrow> RdmaSlot \<Rightarrow> RdmaStore \<Rightarrow> os_pc \<times> RdmaSlot \<times> RdmaStore" where
  "set_call_step key value answer (SetRead i tomb) local_slot st =
     (case answer of
        PostRefused \<Rightarrow> (SetDone (Inl ''RDMA READ failed while probing''), local_slot, st)
      | CompletionFailed _ \<Rightarrow> (SetDone (Inl ''RDMA READ completion failed while probing''), local_slot, st)
      | Arrived \<Rightarrow>
        let idx = (fnv1a key + i) AND (RDMA_NUM_SLOTS - 1);
            local_slot = slots st ! idx
        in (if occupied local_slot = 1 \<and> slot_key_equals (slot_key local_slot) key
              then SetWrite idx (access_count local_slot)
            else if occupied local_slot = 2 \<and> tomb = None then set_at (i + 1) (Some idx)
            else if occupied local_slot = 0
              then SetWrite (case tomb of Some p \<Rightarrow> p | None \<Rightarrow> idx) 0
            else set_at (i + 1) tomb, local_slot, st))"
| "set_call_step key value answer (SetWrite p count) local_slot st =
     (let local_slot = prepared key value count in
      case answer of
        PostRefused \<Rightarrow> (SetDone (Inl ''RDMA WRITE failed''), local_slot, st)
      | CompletionFailed reached \<Rightarrow>
          (SetDone (Inl ''RDMA WRITE completion failed''), local_slot, if reached then put_slot p local_slot st else st)
      | Arrived \<Rightarrow> (SetDone (Inr ()), local_slot, put_slot p local_slot st))"
| "set_call_step key value answer pc local_slot st = (pc, local_slot, st)"

fun call_step :: "os_request \<Rightarrow> nic_answer \<Rightarrow> os_pc \<times> RdmaSlot \<times> RdmaStore \<Rightarrow> os_pc \<times> RdmaSlot \<times> RdmaStore" where
  "call_step (GetCall key counting) answer (pc, local_slot, st) = get_call_step key counting answer pc local_slot st"
| "call_step (SetCall key value) answer (pc, local_slot, st) = set_call_step key value answer pc local_slot st"

subsection \<open>The clients\<close>

record os_client =
  call :: os_request
  pc :: os_pc
  local_slot :: RdmaSlot

record os_system =
  table :: RdmaStore
  clients :: "os_client list"

datatype os_move = Invoke nat os_request | Act nat nic_answer

fun busy :: "os_pc \<Rightarrow> bool" where
  "busy OsIdle = False"
| "busy (GetDone _) = False"
| "busy (SetDone _) = False"
| "busy _ = True"

fun writing :: "os_pc \<Rightarrow> bool" where
  "writing (SetRead _ _) = True"
| "writing (SetWrite _ _) = True"
| "writing _ = False"

text \<open>A client that is not in a call starts one; a client in a call makes one request.\<close>

fun os_move_step :: "os_move \<Rightarrow> os_system \<Rightarrow> os_system" where
  "os_move_step (Invoke c r) s =
     (if c < length (clients s) \<and> \<not> busy (pc (clients s ! c))
      then s\<lparr>clients := (clients s)[c := (clients s ! c)\<lparr>call := r, pc := start_call r\<rparr>]\<rparr>
      else s)"
| "os_move_step (Act c answer) s =
     (if c < length (clients s)
      then
        let cl = clients s ! c;
            (pc', slot', table') = call_step (call cl) answer (pc cl, local_slot cl, table s)
        in s\<lparr>table := table', clients := (clients s)[c := cl\<lparr>pc := pc', local_slot := slot'\<rparr>]\<rparr>
      else s)"

definition os_run :: "os_move list \<Rightarrow> os_system \<Rightarrow> os_system" where
  "os_run moves s = fold os_move_step moves s"

text \<open>The single-writer assumption: no SET starts while another one runs.\<close>

fun single_writer :: "os_move list \<Rightarrow> os_system \<Rightarrow> bool" where
  "single_writer [] s = True"
| "single_writer (m # moves) s =
     ((case m of Invoke c (SetCall key value) \<Rightarrow> \<not> list_ex (writing \<circ> pc) (clients s) | _ \<Rightarrow> True)
      \<and> single_writer moves (os_move_step m s))"

fun request_ok :: "os_request \<Rightarrow> bool" where
  "request_ok (GetCall key counting) = key_ok key"
| "request_ok (SetCall key value) = (key_ok key \<and> key_ok value)"

fun move_ok :: "os_move \<Rightarrow> bool" where
  "move_ok (Invoke c r) = request_ok r"
| "move_ok (Act c answer) = True"

text \<open>The probe steps over the positions of the search.\<close>

lemma get_read_step:
  "get_call_step key counting answer (GetRead i) slot0 st =
     (if answer \<noteq> Arrived then (GetDone False, slot0, st)
      else (if occupied (slots st ! tab.pos key i) = 0 then GetDone False
            else if occupied (slots st ! tab.pos key i) \<noteq> 2 \<and> slot_key_equals (slot_key (slots st ! tab.pos key i)) key
              then (if counting then GetCount (tab.pos key i) else GetDone True)
            else get_at (Suc i), slots st ! tab.pos key i, st))"
  unfolding get_call_step.simps(1) fnv1a_slot_index probe_index Let_def by simp

lemma set_read_step:
  "set_call_step key value Arrived (SetRead i tomb) slot0 st =
     (if occupied (slots st ! tab.pos key i) = 1 \<and> slot_key_equals (slot_key (slots st ! tab.pos key i)) key
        then SetWrite (tab.pos key i) (access_count (slots st ! tab.pos key i))
      else if occupied (slots st ! tab.pos key i) = 0
        then SetWrite (case tomb of Some p \<Rightarrow> p | None \<Rightarrow> tab.pos key i) 0
      else set_at (Suc i) (if occupied (slots st ! tab.pos key i) = 2 \<and> tomb = None then Some (tab.pos key i) else tomb),
      slots st ! tab.pos key i, st)"
  unfolding set_call_step.simps(1) fnv1a_slot_index probe_index Let_def by simp

lemma set_read_failed:
  "answer \<noteq> Arrived \<Longrightarrow> \<exists>e. set_call_step key value answer (SetRead i tomb) slot0 st = (SetDone (Inl e), slot0, st)"
  by (cases answer) simp_all

declare get_call_step.simps(1) [simp del] get_read_step [simp]

subsection \<open>The functions are runs of the machine\<close>

abbreviation run_call :: "os_request \<Rightarrow> nic_answer list \<Rightarrow> os_pc \<times> RdmaSlot \<times> RdmaStore \<Rightarrow> os_pc \<times> RdmaSlot \<times> RdmaStore" where
  "run_call r ans \<equiv> fold (call_step r) ans"

lemma get_at_is_run:
  assumes ses: "one_sided_session V c info lks remote idle" and idle: "idle h"
    and lk: "slot_lkey \<in> lks" "atomic_lkey \<in> lks" and al: "8 dvd unat (qi_addr info)"
    and far: "misses local slot_size atomic_result 8"
  shows "\<exists>ok h' ans slot. get_probe V info local slot_lkey key counting atomic_result atomic_lkey i c h = Some (ok, c, h')
     \<and> run_call (GetCall key counting) ans (get_at i, slot0, exported info (remote h))
         = (GetDone ok, slot, exported info (remote h'))
     \<and> (ok \<longrightarrow> slot = slot_at (host_mem h') local)
     \<and> (session_never_fails V c info lks idle \<longrightarrow> set ans \<subseteq> {Arrived})"
  using idle
proof (induction "RDMA_NUM_SLOTS - i" arbitrary: i h slot0)
  case 0
  then show ?case
    by (intro exI [of _ False] exI [of _ h] exI [of _ "[]"] exI [of _ slot0], subst get_probe.simps) (simp add: get_at_def)
next
  case (Suc n)
  let ?p = "tab.pos key i" and ?st = "exported info (remote h)"
  let ?s = "slot_at (remote h) (slot_addr (qi_addr info) ?p)"
  from Suc have i: "i < RDMA_NUM_SLOTS" by simp
  have p: "?p < RDMA_NUM_SLOTS" by simp
  have s: "slots ?st ! ?p = ?s" using p by simp
  note unfold = get_probe.simps [of V info local slot_lkey key counting atomic_result atomic_lkey i,
      unfolded Let_def client_probe_addr]
  from ses Suc.prems(1) p lk(1) show ?case
  proof (cases rule: read_slot_sync [where local = local])
    case (refused h1)
    then show ?thesis
      by (intro exI [of _ False] exI [of _ h1] exI [of _ "[PostRefused]"] exI [of _ slot0], subst unfold)
        (simp add: i get_at_def)
  next
    case (failed h1 h2)
    then show ?thesis
      by (intro exI [of _ False] exI [of _ h2] exI [of _ "[CompletionFailed False]"] exI [of _ slot0], subst unfold)
        (simp add: i get_at_def)
  next
    case (arrived h1 h2)
    have ih: "\<exists>ok h' ans slot. get_probe V info local slot_lkey key counting atomic_result atomic_lkey (i + 1) c h2 = Some (ok, c, h')
       \<and> run_call (GetCall key counting) ans (get_at (i + 1), ?s, ?st) = (GetDone ok, slot, exported info (remote h'))
       \<and> (ok \<longrightarrow> slot = slot_at (host_mem h') local)
       \<and> (session_never_fails V c info lks idle \<longrightarrow> set ans \<subseteq> {Arrived})"
      using Suc.hyps(1) [of "Suc i" h2 ?s] Suc.hyps(2) arrived by simp
    consider (empty) "occupied ?s = 0" | (hit) "occupied ?s \<noteq> 0" "occupied ?s \<noteq> 2" "slot_key_equals (slot_key ?s) key"
      | (go) "occupied ?s \<noteq> 0" "occupied ?s = 2 \<or> \<not> slot_key_equals (slot_key ?s) key" by blast
    then show ?thesis
    proof cases
      case empty
      with arrived show ?thesis
        by (intro exI [of _ False] exI [of _ h2] exI [of _ "[Arrived]"] exI [of _ ?s], subst unfold)
          (simp add: i get_at_def s)
    next
      case go
      then have "get_probe V info local slot_lkey key counting atomic_result atomic_lkey i c h
         = get_probe V info local slot_lkey key counting atomic_result atomic_lkey (i + 1) c h2"
        by (subst unfold) (auto simp: i arrived)
      moreover have "call_step (GetCall key counting) Arrived (get_at i, slot0, ?st) = (get_at (i + 1), ?s, ?st)"
        using go by (auto simp: i get_at_def s)
      then have "run_call (GetCall key counting) (Arrived # ans) (get_at i, slot0, ?st)
         = run_call (GetCall key counting) ans (get_at (i + 1), ?s, ?st)" for ans by simp
      moreover obtain ok h' ans slot where
        "get_probe V info local slot_lkey key counting atomic_result atomic_lkey (i + 1) c h2 = Some (ok, c, h')"
        "run_call (GetCall key counting) ans (get_at (i + 1), ?s, ?st) = (GetDone ok, slot, exported info (remote h'))"
        "ok \<longrightarrow> slot = slot_at (host_mem h') local"
        "session_never_fails V c info lks idle \<longrightarrow> set ans \<subseteq> {Arrived}" using ih by blast
      ultimately show ?thesis
        by (intro exI [of _ ok] exI [of _ h'] exI [of _ "Arrived # ans"] exI [of _ slot]) simp
    next
      case hit
      show ?thesis
      proof (cases counting)
        case False
        with arrived hit show ?thesis
          by (intro exI [of _ True] exI [of _ h2] exI [of _ "[Arrived]"] exI [of _ ?s], subst unfold)
            (simp add: i get_at_def s)
      next
        case True
        have two: "run_call (GetCall key counting) [Arrived, answer] (get_at i, slot0, ?st)
           = get_call_step key counting answer (GetCount ?p) ?s ?st" for answer
          using hit True by (simp add: i get_at_def s)
        from ses arrived(4) p lk(2) al show ?thesis
        proof (cases rule: count_slot_sync [where local = atomic_result])
          case (refused h3)
          with True hit arrived show ?thesis
            by (intro exI [of _ False] exI [of _ h3] exI [of _ "[Arrived, PostRefused]"] exI [of _ ?s], subst unfold, subst two)
              (simp add: i)
        next
          case (failed h3 h4)
          then obtain reached where "exported info (remote h4) = (if reached then bump_count ?p ?st else ?st)"
            using exported_bumped [OF p, of info "remote h"] arrived(3) by (metis (full_types))
          with failed True hit arrived show ?thesis
            by (intro exI [of _ False] exI [of _ h4] exI [of _ "[Arrived, CompletionFailed reached]"] exI [of _ ?s],
                subst unfold, subst two) (simp add: i)
        next
          case (counted h3 h4)
          have "slot_at (host_mem h4) local = slot_at (host_mem h2) local"
            by (simp add: counted(5) slot_at_def load_store_other far)
          with True hit arrived counted show ?thesis
            by (intro exI [of _ True] exI [of _ h4] exI [of _ "[Arrived, Arrived]"] exI [of _ ?s], subst unfold, subst two)
              (simp add: i exported_bumped [OF p])
        qed
      qed
    qed
  qed
qed


lemma write_back_is_run:
  assumes ses: "one_sided_session V c info lks remote idle" and idle: "idle h"
    and p: "p < RDMA_NUM_SLOTS" and lk: "slot_lkey \<in> lks" and fit: "fits key value"
  shows "\<exists>r h' answer. write_back V info local slot_lkey key value count (slot_addr (qi_addr info) p) c h = Some (r, c, h')
     \<and> set_call_step key value answer (SetWrite p count) slot0 (exported info (remote h))
         = (SetDone r, prepared key value count, exported info (remote h'))
     \<and> (session_never_fails V c info lks idle \<longrightarrow> answer = Arrived)"
proof -
  obtain m where m: "prepare_slot (host_mem h) local key value count = Inr m"
    and img: "load m local slot_size = encode_slot (prepared key value count)"
    using prepare_slot_load [OF fit] .
  let ?h = "h\<lparr>host_mem := m\<rparr>"
  have frame: "remote ?h = remote h" "idle ?h"
    using ses idle by (auto simp: one_sided_session_def verbs_data_path_def)
  have lens: "slot_lens (prepared key value count)" using fit by (simp add: prepared_def slot_lens_def fits_def)
  have "slots (exported info (store (remote h) (slot_addr (qi_addr info) p) (encode_slot (prepared key value count))))
     = slots (put_slot p (prepared key value count) (exported info (remote h)))"
    unfolding exported_def put_slot_def by (simp add: table_at_store_slot [OF p lens])
  then have new: "exported info (store (remote h) (slot_addr (qi_addr info) p) (encode_slot (prepared key value count)))
     = put_slot p (prepared key value count) (exported info (remote h))" by simp
  from ses frame(2) p lk show ?thesis
  proof (cases rule: write_slot_sync [where local = local])
    case (refused h1)
    then show ?thesis
      by (intro exI [of _ "Inl ''RDMA WRITE failed''"] exI [of _ h1] exI [of _ PostRefused]) (simp add: write_back_def m frame)
  next
    case (failed h1 h2)
    then have "remote h2 = store (remote h) (slot_addr (qi_addr info) p) (encode_slot (prepared key value count))
       \<or> remote h2 = remote h" using frame(1) img by simp
    then have "exported info (remote h2) = put_slot p (prepared key value count) (exported info (remote h))
       \<or> exported info (remote h2) = exported info (remote h)" using new by auto
    then obtain reached where "exported info (remote h2)
       = (if reached then put_slot p (prepared key value count) (exported info (remote h)) else exported info (remote h))"
      by (metis (full_types))
    with failed show ?thesis
      by (intro exI [of _ "Inl ''RDMA WRITE completion failed''"] exI [of _ h2] exI [of _ "CompletionFailed reached"])
        (simp add: write_back_def m Let_def)
  next
    case (written h1 h2)
    then show ?thesis
      by (intro exI [of _ "Inr ()"] exI [of _ h2] exI [of _ Arrived]) (simp add: write_back_def m frame img new Let_def)
  qed
qed

lemma set_at_is_run:
  assumes ses: "one_sided_session V c info lks remote idle" and idle: "idle h"
    and lk: "slot_lkey \<in> lks" and fit: "fits key value" and "\<forall>p. tomb = Some p \<longrightarrow> p < RDMA_NUM_SLOTS"
  shows "\<exists>r h' ans slot. set_probe V info local slot_lkey key value (fnv1a key) i (tomb \<noteq> None) (tomb_addr info tomb) c h = Some (r, c, h')
     \<and> run_call (SetCall key value) ans (set_at i tomb, slot0, exported info (remote h))
         = (SetDone r, slot, exported info (remote h'))
     \<and> (session_never_fails V c info lks idle \<longrightarrow> set ans \<subseteq> {Arrived})"
  using idle assms(5)
proof (induction "RDMA_NUM_SLOTS - i" arbitrary: i h tomb slot0)
  case 0
  let ?st = "exported info (remote h)"
  show ?case
  proof (cases tomb)
    case None
    with 0 show ?thesis
      by (intro exI [of _ "Inl ''remote table full''"] exI [of _ h] exI [of _ "[]"] exI [of _ slot0], subst set_probe.simps)
        (simp add: set_at_def)
  next
    case (Some p)
    with 0 have p: "p < RDMA_NUM_SLOTS" by simp
    obtain r h' answer where
      "write_back V info local slot_lkey key value 0 (slot_addr (qi_addr info) p) c h = Some (r, c, h')"
      "set_call_step key value answer (SetWrite p 0) slot0 ?st = (SetDone r, prepared key value 0, exported info (remote h'))"
      "session_never_fails V c info lks idle \<longrightarrow> answer = Arrived"
      using write_back_is_run [OF ses 0(2) p lk fit] by blast
    with 0 Some show ?thesis
      by (intro exI [of _ r] exI [of _ h'] exI [of _ "[answer]"] exI [of _ "prepared key value 0"], subst set_probe.simps)
        (simp add: set_at_def tomb_addr_def)
  qed
next
  case (Suc n)
  let ?p = "tab.pos key i" and ?st = "exported info (remote h)"
  let ?s = "slot_at (remote h) (slot_addr (qi_addr info) ?p)"
  let ?tomb = "if occupied ?s = 2 \<and> tomb = None then Some ?p else tomb"
  from Suc have i: "i < RDMA_NUM_SLOTS" by simp
  have p: "?p < RDMA_NUM_SLOTS" by simp
  have s: "slots ?st ! ?p = ?s" using p by simp
  note unfold = set_probe.simps [of V info local slot_lkey key "value" "fnv1a key" i, unfolded Let_def client_probe_addr]
  from ses Suc.prems(1) p lk show ?case
  proof (cases rule: read_slot_sync [where local = local])
    case (refused h1)
    then show ?thesis
      by (intro exI [of _ "Inl ''RDMA READ failed while probing''"] exI [of _ h1] exI [of _ "[PostRefused]"]
          exI [of _ slot0], subst unfold) (simp add: i set_at_def)
  next
    case (failed h1 h2)
    then show ?thesis
      by (intro exI [of _ "Inl ''RDMA READ completion failed while probing''"] exI [of _ h2]
          exI [of _ "[CompletionFailed False]"] exI [of _ slot0], subst unfold) (simp add: i set_at_def)
  next
    case (arrived h1 h2)
    have by_write: ?thesis
      if q: "q < RDMA_NUM_SLOTS"
        and code: "set_probe V info local slot_lkey key value (fnv1a key) i (tomb \<noteq> None) (tomb_addr info tomb) c h
          = write_back V info local slot_lkey key value count (slot_addr (qi_addr info) q) c h2"
        and step: "call_step (SetCall key value) Arrived (set_at i tomb, slot0, ?st) = (SetWrite q count, ?s, ?st)" for q count
    proof -
      obtain r h' answer where
        "write_back V info local slot_lkey key value count (slot_addr (qi_addr info) q) c h2 = Some (r, c, h')"
        "set_call_step key value answer (SetWrite q count) ?s ?st = (SetDone r, prepared key value count, exported info (remote h'))"
        "session_never_fails V c info lks idle \<longrightarrow> answer = Arrived"
        using write_back_is_run [OF ses arrived(4) q lk fit, of local count ?s] arrived(3) by auto
      with code step show ?thesis
        by (intro exI [of _ r] exI [of _ h'] exI [of _ "[Arrived, answer]"] exI [of _ "prepared key value count"]) simp
    qed
    consider (over) "occupied ?s = 1 \<and> slot_key_equals (slot_key ?s) key"
      | (ins) "\<not> (occupied ?s = 1 \<and> slot_key_equals (slot_key ?s) key)" "occupied ?s = 0"
      | (go) "\<not> (occupied ?s = 1 \<and> slot_key_equals (slot_key ?s) key)" "occupied ?s \<noteq> 0" by blast
    then show ?thesis
    proof cases
      case over
      show ?thesis
      proof (rule by_write [OF p])
        show "set_probe V info local slot_lkey key value (fnv1a key) i (tomb \<noteq> None) (tomb_addr info tomb) c h
          = write_back V info local slot_lkey key value (access_count ?s) (slot_addr (qi_addr info) ?p) c h2"
          using over by (subst unfold) (simp add: i arrived)
        show "call_step (SetCall key value) Arrived (set_at i tomb, slot0, ?st) = (SetWrite ?p (access_count ?s), ?s, ?st)"
          using over by (simp add: i set_at_def set_read_step s del: set_call_step.simps)
      qed
    next
      case ins
      let ?q = "case tomb of None \<Rightarrow> ?p | Some p \<Rightarrow> p"
      have q: "?q < RDMA_NUM_SLOTS" using p Suc.prems(2) by (auto split: option.split)
      show ?thesis
      proof (rule by_write [OF q])
        have addr: "(if tomb \<noteq> None then tomb_addr info tomb else slot_addr (qi_addr info) ?p) = slot_addr (qi_addr info) ?q"
          by (simp add: tomb_addr_def split: option.split)
        show "set_probe V info local slot_lkey key value (fnv1a key) i (tomb \<noteq> None) (tomb_addr info tomb) c h
          = write_back V info local slot_lkey key value 0 (slot_addr (qi_addr info) ?q) c h2"
          unfolding addr [symmetric] using ins by (subst unfold) (simp add: i arrived)
        show "call_step (SetCall key value) Arrived (set_at i tomb, slot0, ?st) = (SetWrite ?q 0, ?s, ?st)"
          using ins by (simp add: i set_at_def set_read_step s del: set_call_step.simps)
      qed
    next
      case go
      have "\<forall>q. ?tomb = Some q \<longrightarrow> q < RDMA_NUM_SLOTS" using p Suc.prems(2) by simp
      moreover have "n = RDMA_NUM_SLOTS - Suc i" using Suc.hyps(2) by simp
      ultimately obtain r h' ans slot where
        "set_probe V info local slot_lkey key value (fnv1a key) (i + 1) (?tomb \<noteq> None) (tomb_addr info ?tomb) c h2 = Some (r, c, h')"
        "run_call (SetCall key value) ans (set_at (i + 1) ?tomb, ?s, ?st) = (SetDone r, slot, exported info (remote h'))"
        "session_never_fails V c info lks idle \<longrightarrow> set ans \<subseteq> {Arrived}"
        using Suc.hyps(1) [of "Suc i" h2 ?tomb ?s] arrived(4) unfolding arrived(3) Suc_eq_plus1 by blast
      moreover have "set_probe V info local slot_lkey key value (fnv1a key) i (tomb \<noteq> None) (tomb_addr info tomb) c h
         = set_probe V info local slot_lkey key value (fnv1a key) (i + 1) (?tomb \<noteq> None) (tomb_addr info ?tomb) c h2"
        using go by (subst unfold) (auto simp: i arrived tomb_addr_def)
      moreover have "call_step (SetCall key value) Arrived (set_at i tomb, slot0, ?st) = (set_at (i + 1) ?tomb, ?s, ?st)"
        using go by (auto simp add: i set_at_def [of i] set_read_step s simp del: set_call_step.simps)
      ultimately show ?thesis
        by (intro exI [of _ r] exI [of _ h'] exI [of _ "Arrived # ans"] exI [of _ slot]) simp
    qed
  qed
qed

end
