(* ===== verification/OneSidedInterleaving.thy ===== *)
theory OneSidedInterleaving
  imports OneSidedMachine
begin

section \<open>One-sided clients under the single-writer assumption\<close>

text \<open>
  The interleaved clients of \<open>OneSidedMachine\<close> against the abstract table, a map of at most 4096 keys.
  The lemmas give the invariant of the system as long as no SET starts while another one runs, the
  change each step makes to the table, and what a call in progress has seen of the moments since its
  start, until its answer takes effect at one of them (\<open>call_progress\<close>).
\<close>

subsection \<open>What a call knows of the table\<close>

fun client_ok :: "RdmaStore \<Rightarrow> os_request \<Rightarrow> os_pc \<Rightarrow> bool" where
  "client_ok st (GetCall key counting) (GetRead i) = (i < RDMA_NUM_SLOTS \<and> key_ok key)"
| "client_ok st (GetCall key counting) (GetCount p) = (p < RDMA_NUM_SLOTS \<and> key_ok key)"
| "client_ok st (SetCall key value) (SetRead i tomb) =
     (i < RDMA_NUM_SLOTS \<and> key_ok key \<and> key_ok value \<and> fits key value
      \<and> tomb = tab.tomb_upto (slots st) key i \<and> tab.place_from (slots st) key i = tab.place_of (slots st) key)"
| "client_ok st (SetCall key value) (SetWrite p count) =
     (key_ok key \<and> key_ok value \<and> fits key value \<and> place_target (tab.place_of (slots st) key) = Some p)"
| "client_ok st r now = (\<not> busy now)"

definition sys_ok :: "os_system \<Rightarrow> bool" where
  "sys_ok s \<longleftrightarrow> store_inv (table s)
     \<and> (\<forall>c<length (clients s). client_ok (table s) (call (clients s ! c)) (pc (clients s ! c)))
     \<and> (\<forall>c<length (clients s). \<forall>d<length (clients s).
          writing (pc (clients s ! c)) \<longrightarrow> writing (pc (clients s ! d)) \<longrightarrow> c = d)"

text \<open>How one step of a call changes the table.\<close>

datatype table_change = Kept | Counted nat | Put string string nat u64

fun changed :: "table_change \<Rightarrow> RdmaStore \<Rightarrow> RdmaStore" where
  "changed Kept st = st"
| "changed (Counted p) st = bump_count p st"
| "changed (Put key value p count) st = put_slot p (prepared key value count) st"

fun change_ok :: "RdmaStore \<Rightarrow> table_change \<Rightarrow> bool" where
  "change_ok st Kept = True"
| "change_ok st (Counted p) = (p < RDMA_NUM_SLOTS)"
| "change_ok st (Put key value p count) =
     (key_ok key \<and> key_ok value \<and> fits key value \<and> place_target (tab.place_of (slots st) key) = Some p)"

lemma change_map:
  assumes "store_inv st" and "change_ok st ch"
  shows "store_inv (changed ch st)"
    and "rdma_map (changed ch st) = (case ch of Put key value p count \<Rightarrow> (rdma_map st)(key \<mapsto> value) | _ \<Rightarrow> rdma_map st)"
proof -
  have "store_inv (changed ch st) \<and> rdma_map (changed ch st)
     = (case ch of Put key value p count \<Rightarrow> (rdma_map st)(key \<mapsto> value) | _ \<Rightarrow> rdma_map st)"
  proof (cases ch)
    case (Counted p)
    with assms show ?thesis by (simp add: bump_count_inv)
  next
    case (Put key v p count)
    have "slots (changed ch st) = (slots st)[p := prepared key v count]" by (simp add: Put put_slot_def)
    with assms show ?thesis using place_prepared [of st key v p "changed ch st" count] by (simp add: Put)
  qed (use assms in simp)
  then show "store_inv (changed ch st)"
    and "rdma_map (changed ch st) = (case ch of Put key value p count \<Rightarrow> (rdma_map st)(key \<mapsto> value) | _ \<Rightarrow> rdma_map st)"
    by simp_all
qed

lemma place_target_less:
  "store_inv st \<Longrightarrow> place_target (tab.place_of (slots st) key) = Some p \<Longrightarrow> p < RDMA_NUM_SLOTS"
  by (cases "tab.place_of (slots st) key")
    (auto simp: tab.place_Overwrite dest: tab.lookup_SomeD elim: tab.place_Insert tab.place_NoEmpty_Tomb)

lemma place_target_free:
  assumes "place_target (tab.place_of (slots st) key) = Some p"
  shows "slot_status_of (slots st ! p) \<noteq> Valid \<or> slot_key_of (slots st ! p) = key"
  using assms
  by (cases "tab.place_of (slots st) key")
    (auto simp: tab.place_Overwrite tab.holds_def dest: tab.lookup_SomeD elim: tab.place_Insert tab.place_NoEmpty_Tomb)

text \<open>A stored key stays where it is, whatever step is made.\<close>

lemma change_holds:
  assumes st: "store_inv st" and ch: "change_ok st ch"
    and here: "tab.holds (slots st) (tab.pos key m) key" "tab.chain (slots st) key m"
  shows "tab.holds (slots (changed ch st)) (tab.pos key m) key \<and> tab.chain (slots (changed ch st)) key m"
proof (cases ch)
  case (Counted p)
  note same = tab.relabel_holds [of "slots (bump_count p st)" "slots st"] tab.relabel_chain [of "slots (bump_count p st)" "slots st"]
  show ?thesis using here by (simp add: Counted same bump_count_labels)
next
  case (Put k v p count)
  have ok: "key_ok k" "key_ok v" "fits k v" and target: "place_target (tab.place_of (slots st) k) = Some p"
    using ch by (simp_all add: Put)
  note new = prepared_facts [OF ok(3,1,2), of count]
  have len: "length (slots st) = RDMA_NUM_SLOTS" using st by (rule store_inv_length)
  have p: "p < RDMA_NUM_SLOTS" by (rule place_target_less [OF st target])
  have "tab.pos key m = p \<Longrightarrow> k = key"
    using place_target_free [OF target] here(1) by (auto simp: tab.holds_def)
  then have "tab.holds ((slots st)[p := prepared k v count]) (tab.pos key m) key"
    using here(1) new(2,3) p by (cases "tab.pos key m = p") (simp_all add: tab.holds_def len)
  moreover have "tab.chain ((slots st)[p := prepared k v count]) key m"
    by (rule tab.chain_update [OF len _ here(2)]) (simp add: new(2))
  ultimately show ?thesis by (simp add: Put put_slot_def)
qed (use here in simp)

text \<open>One step of a call: a legal change of the table, and the call still knows what it did.\<close>

lemma get_at_ok [simp]: "client_ok st (GetCall key counting) (get_at i) \<longleftrightarrow> i < RDMA_NUM_SLOTS \<longrightarrow> key_ok key"
  by (auto simp: get_at_def)

lemma not_writing [simp]: "\<not> writing (get_at i)"
  by (simp add: get_at_def)

lemma set_at_ok:
  assumes "key_ok key" "key_ok value" "fits key value" "i \<le> RDMA_NUM_SLOTS"
    and "tab.place_from (slots st) key i = tab.place_of (slots st) key"
  shows "client_ok st (SetCall key value) (set_at i (tab.tomb_upto (slots st) key i))"
proof (cases "i < RDMA_NUM_SLOTS")
  case False
  then have "tab.place_of (slots st) key = NoEmpty (tab.tomb_upto (slots st) key i)"
    using assms(4,5) tab.place_from_end [of i "slots st" key] by simp
  then show ?thesis using assms False by (simp add: set_at_def split: option.split)
qed (use assms in \<open>simp add: set_at_def\<close>)

lemma set_at_full:
  assumes "tab.place_from (slots st) key i = tab.place_of (slots st) key"
    and "set_at i (tab.tomb_upto (slots st) key i) = SetDone r" and "i \<le> RDMA_NUM_SLOTS"
  shows "r = Inl ''remote table full'' \<and> place_target (tab.place_of (slots st) key) = None"
proof -
  have i: "i = RDMA_NUM_SLOTS" and r: "tab.tomb_upto (slots st) key i = None" "r = Inl ''remote table full''"
    using assms(2,3) by (auto simp: set_at_def split: if_splits option.splits)
  have "tab.place_of (slots st) key = NoEmpty None"
    using tab.place_from_end [of i "slots st" key] assms(1) i r(1) by simp
  then show ?thesis using r(2) by simp
qed

lemma set_read_ok:
  assumes st: "store_inv st" and ok: "client_ok st (SetCall key value) (SetRead i tomb)"
  shows "\<exists>now' slot'. set_call_step key value Arrived (SetRead i tomb) slot0 st = (now', slot', st)
     \<and> client_ok st (SetCall key value) now'
     \<and> (writing now' \<or> now' = SetDone (Inl ''remote table full'') \<and> place_target (tab.place_of (slots st) key) = None)"
proof -
  let ?p = "tab.pos key i" and ?t = "slots st"
  let ?s = "?t ! ?p"
  have p: "?p < RDMA_NUM_SLOTS" by simp
  have s: "slot_ok ?s" by (rule store_inv_slot [OF st p])
  have i: "i < RDMA_NUM_SLOTS" and keys: "key_ok key" "key_ok value" "fits key value"
    and tomb: "tomb = tab.tomb_upto ?t key i" and pl: "tab.place_from ?t key i = tab.place_of ?t key" using ok by simp_all
  note hit = slot_key_equals_ok [OF s, of key]
  have hold: "tab.holds ?t ?p key \<longleftrightarrow> occupied ?s = 1 \<and> slot_key_of ?s = key"
    by (simp add: tab.holds_def slot_status_cases(3) [OF s])
  have step: "tab.place_of ?t key =
     (if occupied ?s = 1 \<and> slot_key_of ?s = key then Overwrite ?p
      else if occupied ?s = 0 then Insert (case tomb of None \<Rightarrow> ?p | Some p \<Rightarrow> p)
      else tab.place_from ?t key (Suc i))"
    unfolding pl [symmetric] tomb by (simp add: tab.place_from_step i hold slot_status_cases)
  have tomb': "tab.tomb_upto ?t key (Suc i) = (if occupied ?s = 2 \<and> tomb = None then Some ?p else tomb)"
    by (auto simp: tomb slot_status_cases split: option.split)
  consider (over) "occupied ?s = 1" "slot_key_of ?s = key" | (ins) "\<not> (occupied ?s = 1 \<and> slot_key_of ?s = key)" "occupied ?s = 0"
    | (go) "\<not> (occupied ?s = 1 \<and> slot_key_of ?s = key)" "occupied ?s \<noteq> 0" by blast
  then show ?thesis
  proof cases
    case go
    then have "tab.place_from ?t key (Suc i) = tab.place_of ?t key" by (auto simp: step)
    note next_ok = set_at_ok [OF keys _ this] set_at_full [OF this]
    have "writing (set_at (Suc i) (tab.tomb_upto ?t key (Suc i)))
       \<or> set_at (Suc i) (tab.tomb_upto ?t key (Suc i)) = SetDone (Inl ''remote table full'')
         \<and> place_target (tab.place_of ?t key) = None"
      using next_ok(2) i by (cases "set_at (Suc i) (tab.tomb_upto ?t key (Suc i))")
        (auto simp: set_at_def split: if_splits option.splits)
    with next_ok(1) go i show ?thesis unfolding set_read_step hit tomb' by auto
  qed (use keys in \<open>auto simp: set_read_step hit step simp del: set_call_step.simps\<close>)
qed

lemma call_step_ok:
  assumes st: "store_inv st" and ok: "client_ok st r now"
    and step: "call_step r answer (now, slot0, st) = (now', slot', st')"
  shows "\<exists>ch. st' = changed ch st \<and> change_ok st ch \<and> client_ok st' r now'
     \<and> (writing now' \<longrightarrow> writing now) \<and> (case ch of Put key value _ _ \<Rightarrow> r = SetCall key value \<and> writing now \<and> \<not> busy now' | _ \<Rightarrow> True)"
proof (cases r)
  case (GetCall key counting)
  show ?thesis
  proof (cases now)
    case (GetRead i)
    then have "st' = st \<and> client_ok st' r now' \<and> \<not> writing now'"
      using step ok by (auto simp: GetCall split: if_splits)
    then show ?thesis by (intro exI [of _ Kept]) auto
  next
    case (GetCount p)
    then consider "st' = st" | "st' = bump_count p st"
      using step by (cases answer) (auto simp: GetCall split: if_splits)
    moreover have "\<not> busy now' \<and> \<not> writing now' \<and> client_ok st' r now'"
      using step by (cases answer) (auto simp: GetCall GetCount)
    ultimately show ?thesis
      using ok GetCall GetCount by cases (intro exI [of _ Kept] exI [of _ "Counted p"]; simp)+
  qed (use step ok GetCall in \<open>auto intro!: exI [of _ Kept]\<close>)
next
  case (SetCall key v)
  show ?thesis
  proof (cases now)
    case (SetRead i tomb)
    have "st' = st \<and> client_ok st (SetCall key v) now'"
    proof (cases "answer = Arrived")
      case True
      have "client_ok st (SetCall key v) (SetRead i tomb)" using ok by (simp only: SetCall SetRead)
      from set_read_ok [OF st this, of slot0] step show ?thesis
        unfolding SetCall SetRead True call_step.simps by (metis prod.inject)
    next
      case False
      then show ?thesis using set_read_failed [OF False, of key v i tomb slot0 st] step by (auto simp: SetCall SetRead simp del: set_call_step.simps)
    qed
    then show ?thesis by (intro exI [of _ Kept]) (simp add: SetCall SetRead)
  next
    case (SetWrite p count)
    have "\<not> busy now' \<and> \<not> writing now' \<and> (st' = st \<or> st' = put_slot p (prepared key v count) st)"
      using step by (cases answer) (auto simp: SetCall SetWrite Let_def)
    then have ended: "client_ok st' (SetCall key v) now'" "\<not> busy now'" "\<not> writing now'"
      and "st' = st \<or> st' = put_slot p (prepared key v count) st" by (cases now'; simp)+
    then consider "st' = st" | "st' = put_slot p (prepared key v count) st" by blast
    then show ?thesis
      using ok ended SetCall SetWrite by cases (intro exI [of _ Kept] exI [of _ "Put key v p count"]; simp)+
  qed (use step ok SetCall in \<open>auto intro!: exI [of _ Kept]\<close>)
qed

text \<open>What the other calls know survives the step, and a new call knows nothing yet.\<close>

lemma client_ok_change:
  assumes ok: "client_ok st r now"
    and quiet: "writing now \<Longrightarrow> case ch of Put _ _ _ _ \<Rightarrow> False | _ \<Rightarrow> True"
  shows "client_ok (changed ch st) r now"
proof (cases "writing now")
  case True
  have same: "tab.place_from (slots (changed ch st)) key i = tab.place_from (slots st) key i
      \<and> tab.tomb_upto (slots (changed ch st)) key i = tab.tomb_upto (slots st) key i" for key i
    using quiet [OF True] tab.relabel_place [of "slots (changed ch st)" "slots st"] tab.relabel_tomb [of "slots (changed ch st)" "slots st"]
    by (cases ch) (simp_all add: bump_count_labels)
  then have "tab.place_of (slots (changed ch st)) key = tab.place_of (slots st) key" for key by (simp add: tab.place_of_def)
  with same ok True show ?thesis by (cases r; cases now) auto
next
  case False
  with ok show ?thesis by (cases r; cases now) auto
qed

lemma start_call_ok:
  assumes "request_ok r"
  shows "client_ok st r (start_call r)"
proof (cases r)
  case (SetCall key v)
  then show ?thesis
    using assms set_at_ok [of key v 0 st] by (auto simp: fits_def tab.place_of_def not_le)
qed (use assms in simp)

lemma start_call_writing: "writing (start_call r) \<Longrightarrow> \<exists>key value. r = SetCall key value"
  by (cases r) auto

text \<open>The invariant of the system, and the change every move makes to the table.\<close>

definition moved :: "os_system \<Rightarrow> os_move \<Rightarrow> table_change \<Rightarrow> bool" where
  "moved s m ch \<longleftrightarrow> table (os_move_step m s) = changed ch (table s) \<and> change_ok (table s) ch
     \<and> (case ch of Put key value _ _ \<Rightarrow> \<exists>c answer. m = Act c answer \<and> c < length (clients s)
          \<and> call (clients s ! c) = SetCall key value \<and> writing (pc (clients s ! c)) \<and> \<not> busy (pc (clients (os_move_step m s) ! c)) | _ \<Rightarrow> True)"

lemma move_keeps_clients [simp]: "length (clients (os_move_step m s)) = length (clients s)"
  by (cases m) (simp_all add: Let_def prod.case_eq_if)

lemma move_other:
  assumes "d \<noteq> (case m of Invoke c r \<Rightarrow> c | Act c answer \<Rightarrow> c)"
  shows "clients (os_move_step m s) ! d = clients s ! d"
  using assms by (cases m) (simp_all add: Let_def prod.case_eq_if)

lemma invoke_ok:
  assumes ok: "sys_ok s" and "request_ok r" and single: "single_writer [Invoke c r] s"
  shows "sys_ok (os_move_step (Invoke c r) s)"
proof (cases "c < length (clients s) \<and> \<not> busy (pc (clients s ! c))")
  case True
  let ?s = "os_move_step (Invoke c r) s"
  have cl: "clients ?s ! d = (if d = c then (clients s ! c)\<lparr>call := r, pc := start_call r\<rparr> else clients s ! d)" for d
    using True by simp
  have others: "\<not> writing (pc (clients s ! d))" if "writing (start_call r)" "d < length (clients s)" for d
    using single start_call_writing [OF that(1)] that(2) by (auto simp: list_ex_length)
  have "client_ok (table s) (call (clients ?s ! d)) (pc (clients ?s ! d))" if "d < length (clients s)" for d
    using ok that start_call_ok [OF assms(2)] unfolding cl by (simp add: sys_ok_def)
  moreover have "d = e" if "d < length (clients s)" "e < length (clients s)" "writing (pc (clients ?s ! d))" "writing (pc (clients ?s ! e))" for d e
    using ok that others unfolding cl sys_ok_def by (auto split: if_splits)
  ultimately show ?thesis using ok True unfolding sys_ok_def move_keeps_clients by simp
qed (use ok in auto)

lemma act_ok:
  assumes ok: "sys_ok s"
  shows "sys_ok (os_move_step (Act c answer) s) \<and> (\<exists>ch. moved s (Act c answer) ch)"
proof (cases "c < length (clients s)")
  case True
  let ?s = "os_move_step (Act c answer) s" and ?cl = "clients s ! c"
  obtain now' slot' st' where step: "call_step (call ?cl) answer (pc ?cl, local_slot ?cl, table s) = (now', slot', st')"
    by (metis prod_cases3)
  have s': "?s = s\<lparr>table := st', clients := (clients s)[c := ?cl\<lparr>pc := now', local_slot := slot'\<rparr>]\<rparr>"
    using True by (simp add: step)
  have st: "store_inv (table s)" and cl: "client_ok (table s) (call ?cl) (pc ?cl)" using ok True by (simp_all add: sys_ok_def)
  obtain ch where ch: "st' = changed ch (table s)" "change_ok (table s) ch" "client_ok st' (call ?cl) now'"
    "writing now' \<longrightarrow> writing (pc ?cl)" "case ch of Put key value _ _ \<Rightarrow> call ?cl = SetCall key value \<and> writing (pc ?cl) \<and> \<not> busy now' | _ \<Rightarrow> True"
    using call_step_ok [OF st cl step] by blast
  have nth: "clients ?s ! d = (if d = c then ?cl\<lparr>pc := now', local_slot := slot'\<rparr> else clients s ! d)" for d
    unfolding s' using True by simp
  have alone: "d = e" if "d < length (clients s)" "e < length (clients s)" "writing (pc (clients s ! d))" "writing (pc (clients s ! e))" for d e
    using ok that by (simp add: sys_ok_def)
  have "client_ok st' (call (clients ?s ! d)) (pc (clients ?s ! d))" if d: "d < length (clients s)" for d
  proof (cases "d = c")
    case False
    have "client_ok (table s) (call (clients s ! d)) (pc (clients s ! d))" using ok d by (simp add: sys_ok_def)
    moreover have "case ch of Put _ _ _ _ \<Rightarrow> False | _ \<Rightarrow> True" if "writing (pc (clients s ! d))"
      using ch(5) alone [OF d True that] False by (cases ch) auto
    ultimately show ?thesis using False unfolding nth ch(1) by (simp add: client_ok_change)
  qed (use ch(3) nth in simp)
  moreover have "d = e" if "d < length (clients s)" "e < length (clients s)" "writing (pc (clients ?s ! d))" "writing (pc (clients ?s ! e))" for d e
    using alone [OF that(1,2)] that(3,4) ch(4) unfolding nth by (auto split: if_splits)
  moreover have "store_inv st'" using change_map(1) [OF st ch(2)] ch(1) by simp
  ultimately have "sys_ok ?s" unfolding sys_ok_def move_keeps_clients by (simp add: s' del: os_move_step.simps)
  moreover have "moved s (Act c answer) ch"
    using ch True by (cases ch) (simp_all add: moved_def s' del: os_move_step.simps)
  ultimately show ?thesis by blast
next
  case False
  then show ?thesis using ok by (auto simp: moved_def intro!: exI [of _ Kept])
qed

lemma move_step_ok:
  assumes "sys_ok s" and "move_ok m" and "single_writer [m] s"
  shows "sys_ok (os_move_step m s)" and "\<exists>ch. moved s m ch"
proof -
  have "sys_ok (os_move_step m s) \<and> (\<exists>ch. moved s m ch)"
  proof (cases m)
    case (Invoke c r)
    have "moved s m Kept" by (simp add: moved_def Invoke)
    with Invoke assms invoke_ok show ?thesis by auto
  next
    case (Act c answer)
    with assms act_ok show ?thesis by blast
  qed
  then show "sys_ok (os_move_step m s)" and "\<exists>ch. moved s m ch" by simp_all
qed

subsection \<open>The moments of a call\<close>

text \<open>The contents of the table before the first move and after each.\<close>

fun moments :: "os_move list \<Rightarrow> os_system \<Rightarrow> (string \<rightharpoonup> string) list" where
  "moments [] s = [rdma_map (table s)]"
| "moments (m # moves) s = rdma_map (table s) # moments moves (os_move_step m s)"

lemma os_run_simps [simp]:
  "os_run [] s = s" "os_run (m # moves) s = os_run moves (os_move_step m s)"
  "os_run (moves @ moves') s = os_run moves' (os_run moves s)"
  by (simp_all add: os_run_def)

lemma moments_snoc: "moments (moves @ [m]) s = moments moves s @ [rdma_map (table (os_run (moves @ [m]) s))]"
  by (induction moves arbitrary: s) simp_all

lemma length_moments [simp]: "length (moments moves s) = Suc (length moves)"
  by (induction moves arbitrary: s) simp_all

lemma moments_last: "moments moves s ! length moves = rdma_map (table (os_run moves s))"
  by (induction moves arbitrary: s) simp_all

lemma moments_first: "rdma_map (table s) \<in> set (moments moves s)"
  by (cases moves) simp_all

lemma moments_now: "rdma_map (table (os_run moves s)) \<in> set (moments moves s)"
  using moments_last [of moves s] nth_mem [of "length moves" "moments moves s"] by simp

lemma moments_mono: "m \<in> set (moments moves s) \<Longrightarrow> m \<in> set (moments (moves @ [x]) s)"
  by (simp add: moments_snoc)

lemma single_writer_append:
  "single_writer (moves @ moves') s \<longleftrightarrow> single_writer moves s \<and> single_writer moves' (os_run moves s)"
  by (induction moves arbitrary: s) auto

lemma single_writer_one: "single_writer (m # moves) s \<Longrightarrow> single_writer [m] s"
  by simp

lemma os_run_ok:
  "sys_ok s \<Longrightarrow> list_all move_ok moves \<Longrightarrow> single_writer moves s \<Longrightarrow> sys_ok (os_run moves s)"
proof (induction moves arbitrary: s)
  case (Cons m moves)
  have "sys_ok (os_move_step m s)"
    using move_step_ok(1) [OF Cons.prems(1) _ single_writer_one [OF Cons.prems(3)]] Cons.prems(2) by simp
  with Cons show ?case by simp
qed simp

lemma length_clients_run [simp]: "length (clients (os_run moves s)) = length (clients s)"
  by (induction moves arbitrary: s) simp_all

text \<open>The abstract answer of a call that is over: a GET found the value, or the absence, the map
had at some moment; a SET that reported success updated the bounded map in one of the client's own
requests; any other answer of a SET is the bounded map's at some moment, or one of the call's requests
failed.\<close>

definition request_failed :: "nat \<Rightarrow> os_move list \<Rightarrow> bool" where
  "request_failed c moves \<longleftrightarrow> (\<exists>answer. answer \<noteq> Arrived \<and> Act c answer \<in> set moves)"

fun takes_effect :: "nat \<Rightarrow> os_request \<Rightarrow> os_pc \<Rightarrow> RdmaSlot \<Rightarrow> os_move list \<Rightarrow> (string \<rightharpoonup> string) list \<Rightarrow> bool" where
  "takes_effect c (GetCall key counting) (GetDone found) slot moves ms =
     (if found then \<exists>m\<in>set ms. m key = Some (slot_value_of slot)
      else request_failed c moves \<or> (\<exists>m\<in>set ms. m key = None))"
| "takes_effect c (SetCall key value) (SetDone (Inr u)) slot moves ms =
     (\<exists>k<length moves. moves ! k = Act c Arrived \<and> bounded_set key value (ms ! k) = Inr (ms ! Suc k))"
| "takes_effect c (SetCall key value) (SetDone (Inl e)) slot moves ms =
     (request_failed c moves \<or> (\<exists>m\<in>set ms. bounded_set key value m = Inl e))"
| "takes_effect c r now slot moves ms = busy now"

text \<open>The same with what a call in progress has seen.\<close>

definition here :: "RdmaStore \<Rightarrow> string \<Rightarrow> nat \<Rightarrow> bool" where
  "here st key i \<longleftrightarrow> (\<exists>m<RDMA_NUM_SLOTS. i \<le> m \<and> tab.holds (slots st) (tab.pos key m) key \<and> tab.chain (slots st) key m)"

fun progress :: "nat \<Rightarrow> os_request \<Rightarrow> os_pc \<Rightarrow> RdmaSlot \<Rightarrow> RdmaStore \<Rightarrow> os_move list \<Rightarrow> (string \<rightharpoonup> string) list \<Rightarrow> bool" where
  "progress c (GetCall key counting) (GetRead i) slot st moves ms = ((\<exists>m\<in>set ms. m key = None) \<or> here st key i)"
| "progress c (GetCall key counting) (GetCount p) slot st moves ms = (\<exists>m\<in>set ms. m key = Some (slot_value_of slot))"
| "progress c r now slot st moves ms = takes_effect c r now slot moves ms"

lemma progress_effect: "progress c r now slot st moves ms \<Longrightarrow> client_ok st r now \<Longrightarrow> takes_effect c r now slot moves ms"
  by (cases r; cases now) auto

lemma takes_effect_more:
  assumes "takes_effect c r now slot moves ms" and len: "length ms = Suc (length moves)"
  shows "takes_effect c r now slot (moves @ [m]) (ms @ [m'])"
  using assms(1)
proof (cases "(c, r, now, slot, moves, ms)" rule: takes_effect.cases)
  case (2 c key "value" u slot moves ms)
  with assms(1) obtain k where "k < length moves" "moves ! k = Act c Arrived" "bounded_set key value (ms ! k) = Inr (ms ! Suc k)"
    by auto
  with 2 len show ?thesis by (auto simp: nth_append intro!: exI [of _ k])
qed (auto simp: request_failed_def)

lemma here_first:
  assumes "store_inv st" and "rdma_map st key \<noteq> None"
  shows "here st key 0"
proof -
  obtain p where "tab.lookup (slots st) key = Some p" using assms(2) by (auto simp: rdma_map_def tab.contents_def)
  then have p: "p < RDMA_NUM_SLOTS" "tab.holds (slots st) p key" by (auto dest: tab.lookup_SomeD)
  then obtain m where "m < RDMA_NUM_SLOTS" "p = tab.pos key m" "tab.chain (slots st) key m"
    using assms(1) unfolding store_inv_def tab.table_inv_def by blast
  with p show ?thesis by (auto simp: here_def)
qed

lemma here_change:
  assumes "store_inv st" and "change_ok st ch" and "here st key i"
  shows "here (changed ch st) key i"
  using change_holds [OF assms(1,2)] assms(3) unfolding here_def by blast

lemma bounded_set_place:
  assumes "store_inv st" and "fits key value"
  shows "bounded_set key value (rdma_map st)
     = (if place_target (tab.place_of (slots st) key) = None then Inl ''remote table full'' else Inr ((rdma_map st)(key \<mapsto> value)))"
  using assms(2) unfolding place_target_None [OF assms(1)] no_room_iff [OF assms(1)]
  by (simp add: bounded_set_def fits_def)

text \<open>One probe of a GET that has not failed: the key, if it was stored all along, lies ahead.\<close>

lemma get_probe_seen:
  assumes st: "store_inv st" and "i < RDMA_NUM_SLOTS" and ahead: "gone \<or> here st key i"
    and step: "get_call_step key counting Arrived (GetRead i) slot st = (now', slot', st')"
  shows "st' = st \<and> (case now' of
       GetRead j \<Rightarrow> gone \<or> here st key j
     | GetDone False \<Rightarrow> gone
     | GetDone True \<Rightarrow> rdma_map st key = Some (slot_value_of slot')
     | GetCount p \<Rightarrow> rdma_map st key = Some (slot_value_of slot')
     | _ \<Rightarrow> False)"
proof -
  let ?p = "tab.pos key i"
  let ?s = "slots st ! ?p"
  have s: "slot_ok ?s" by (rule store_inv_slot [OF st]) simp
  note status = slot_status_cases(1,2) slot_status_cases(3) [OF s]
  have inv: "tab.table_inv (slots st)" using st by (simp add: store_inv_def)
  have found: "rdma_map st key = Some (slot_value_of ?s)"
    if "occupied ?s \<noteq> 0" "occupied ?s \<noteq> 2" "slot_key_of ?s = key"
  proof -
    have "occupied ?s = 1" using s that(1,2) by (auto simp: slot_ok_def)
    then have "tab.holds (slots st) ?p key" using status that(3) by (simp add: tab.holds_def)
    then have "tab.lookup (slots st) key = Some ?p" by (simp add: tab.lookup_iff [OF inv])
    then show ?thesis by (simp add: rdma_map_def tab.contents_def)
  qed
  have empty: "gone" if "occupied ?s = 0"
  proof (rule ccontr)
    assume "\<not> gone"
    then obtain m where m: "i \<le> m" "tab.holds (slots st) (tab.pos key m) key" "tab.chain (slots st) key m"
      using ahead by (auto simp: here_def)
    have "slot_status_of ?s = Empty" using status that by simp
    with m show False by (cases "m = i") (auto simp: tab.holds_def tab.chain_def)
  qed
  have onward: "case get_at (Suc i) of GetRead j \<Rightarrow> gone \<or> here st key j | GetDone False \<Rightarrow> gone | _ \<Rightarrow> False"
    if "occupied ?s \<noteq> 0" "occupied ?s = 2 \<or> slot_key_of ?s \<noteq> key"
  proof -
    have "\<not> tab.holds (slots st) ?p key" using that status by (auto simp: tab.holds_def)
    then have "gone \<or> here st key (Suc i)" using ahead unfolding here_def by (metis Suc_leI le_neq_implies_less)
    then show ?thesis by (auto simp: get_at_def here_def)
  qed
  show ?thesis
    using step found empty onward
    by (auto simp: slot_key_equals_ok [OF s] split: if_splits os_pc.splits bool.splits)
qed

lemma progress_get:
  assumes st: "store_inv st" and ok: "client_ok st (GetCall key counting) now"
    and pr: "progress c (GetCall key counting) now slot st moves ms"
    and step: "get_call_step key counting answer now slot st = (now', slot', st')"
    and now: "rdma_map st \<in> set ms" "length ms = Suc (length moves)"
  shows "progress c (GetCall key counting) now' slot' st' (moves @ [Act c answer]) (ms @ [m'])"
proof -
  have failed: "request_failed c (moves @ [Act c answer])" if "answer \<noteq> Arrived"
    using that by (auto simp: request_failed_def)
  show ?thesis
  proof (cases now)
    case (GetRead i)
    show ?thesis
    proof (cases "answer = Arrived")
      case True
      have "i < RDMA_NUM_SLOTS" "(\<exists>m\<in>set ms. m key = None) \<or> here st key i"
        "get_call_step key counting Arrived (GetRead i) slot st = (now', slot', st')"
        using ok pr step unfolding GetRead True client_ok.simps progress.simps call_step.simps by blast+
      then have "st' = st \<and> (case now' of
           GetRead j \<Rightarrow> (\<exists>m\<in>set ms. m key = None) \<or> here st key j
         | GetDone False \<Rightarrow> \<exists>m\<in>set ms. m key = None
         | GetDone True \<Rightarrow> rdma_map st key = Some (slot_value_of slot')
         | GetCount p \<Rightarrow> rdma_map st key = Some (slot_value_of slot')
         | _ \<Rightarrow> False)"
        by (rule get_probe_seen [OF st])
      with now(1) show ?thesis by (cases now') (auto split: bool.splits)
    next
      case False
      with step failed show ?thesis by (auto simp: GetRead)
    qed
  next
    case (GetCount p)
    with step failed pr show ?thesis by (cases answer) auto
  next
    case (GetDone found)
    with step have "now' = now" "slot' = slot" by simp_all
    moreover have "takes_effect c (GetCall key counting) now slot moves ms" using pr by (simp add: GetDone)
    from takes_effect_more [OF this now(2)]
    have "takes_effect c (GetCall key counting) now slot (moves @ [Act c answer]) (ms @ [m'])" .
    ultimately show ?thesis unfolding GetDone by (simp only: progress.simps)
  qed (use step pr in auto)
qed

lemma progress_set:
  assumes st: "store_inv st" and ok: "client_ok st (SetCall key value) now"
    and pr: "progress c (SetCall key value) now slot st moves ms"
    and step: "set_call_step key value answer now slot st = (now', slot', st')"
    and now: "length ms = Suc (length moves)" "ms ! length moves = rdma_map st"
  shows "progress c (SetCall key value) now' slot' st' (moves @ [Act c answer]) (ms @ [rdma_map st'])"
proof (cases now)
  case (SetRead i tomb)
  show ?thesis
  proof (cases "answer = Arrived")
    case True
    obtain now'' slot'' where "set_call_step key value Arrived (SetRead i tomb) slot st = (now'', slot'', st)"
      and ok'': "client_ok st (SetCall key value) now''"
      and full: "writing now'' \<or> now'' = SetDone (Inl ''remote table full'') \<and> place_target (tab.place_of (slots st) key) = None"
      using set_read_ok [OF st ok [unfolded SetRead], of slot] by blast
    then have now': "now' = now''" "st' = st" using step by (simp_all add: True SetRead del: set_call_step.simps)
    have "takes_effect c (SetCall key value) now'' slot' (moves @ [Act c answer]) (ms @ [rdma_map st'])"
    proof (cases now'')
      case (SetDone r)
      then have r: "r = Inl ''remote table full''" "place_target (tab.place_of (slots st) key) = None" using full by simp_all
      then have "bounded_set key value (rdma_map st) = Inl ''remote table full''"
        using ok by (simp add: SetRead bounded_set_place [OF st])
      then show ?thesis unfolding SetDone r(1) now' by auto
    qed (use full in auto)
    then show ?thesis by (cases now'') (simp_all add: now')
  next
    case False
    with set_read_failed [OF False, of key "value" i tomb slot st] step show ?thesis
      by (auto simp: SetRead request_failed_def simp del: set_call_step.simps)
  qed
next
  case (SetWrite p count)
  have target: "place_target (tab.place_of (slots st) key) = Some p" and keys: "key_ok key" "key_ok value" "fits key value"
    using ok by (simp_all add: SetWrite)
  show ?thesis
  proof (cases "answer = Arrived")
    case True
    have "rdma_map (put_slot p (prepared key value count) st) = (rdma_map st)(key \<mapsto> value)"
      using change_map(2) [OF st, of "Put key value p count"] target keys by simp
    then have "bounded_set key value (rdma_map st) = Inr (rdma_map (put_slot p (prepared key value count) st))"
      by (simp add: bounded_set_place [OF st keys(3)] target)
    with True step show ?thesis
      by (auto simp: SetWrite Let_def nth_append now intro!: exI [of _ "length moves"])
  next
    case False
    with step show ?thesis by (cases answer) (auto simp: SetWrite Let_def request_failed_def)
  qed
next
  case (SetDone r)
  with step have "now' = now" "slot' = slot" by simp_all
  moreover have "takes_effect c (SetCall key value) now slot moves ms" using pr by (simp add: SetDone)
  from takes_effect_more [OF this now(1)]
  have "takes_effect c (SetCall key value) now slot (moves @ [Act c answer]) (ms @ [rdma_map st'])" .
  ultimately show ?thesis unfolding SetDone by (simp only: progress.simps)
qed (use step pr ok in auto)

lemma progress_other:
  assumes st: "store_inv st" "change_ok st ch" and pr: "progress c r now slot st moves ms"
    and len: "length ms = Suc (length moves)"
  shows "progress c r now slot (changed ch st) (moves @ [m]) (ms @ [m'])"
proof (cases "(c, r, now, slot, st, moves, ms)" rule: progress.cases)
  case (1 c key counting i slot st moves ms)
  with pr here_change [OF assms(1,2)] show ?thesis by auto
next
  case (2 c key counting p slot st moves ms)
  with pr show ?thesis by auto
qed (use pr takes_effect_more [OF _ len] in \<open>simp_all del: takes_effect.simps\<close>)

lemma progress_start:
  assumes st: "store_inv st" and "request_ok r"
  shows "progress c r (start_call r) slot st [] [rdma_map st]"
proof (cases r)
  case (GetCall key counting)
  then show ?thesis using here_first [OF st, of key] by (cases "rdma_map st key") (auto simp: get_at_def rdma_sizes)
next
  case (SetCall key v)
  consider "length key \<ge> RDMA_KEY_MAX" | "length key < RDMA_KEY_MAX" "length v \<ge> RDMA_VALUE_MAX" | "fits key v"
    unfolding fits_def by linarith
  then show ?thesis
    using SetCall by cases (auto simp: bounded_set_def set_at_def rdma_sizes fits_def)
qed

lemma act_result:
  assumes "c < length (clients s)"
    and "call_step (call (clients s ! c)) answer (pc (clients s ! c), local_slot (clients s ! c), table s) = (now', slot', st')"
  shows "os_move_step (Act c answer) s
     = s\<lparr>table := st', clients := (clients s)[c := (clients s ! c)\<lparr>pc := now', local_slot := slot'\<rparr>]\<rparr>"
  using assms by simp

lemma call_progress:
  assumes s1: "sys_ok s1" and c: "c < length (clients s1)" "clients s1 ! c = cl\<lparr>call := r, pc := start_call r\<rparr>"
    and "request_ok r"
    and "list_all move_ok during" and "single_writer during s1" and "\<forall>r'. Invoke c r' \<notin> set during"
  shows "call (clients (os_run during s1) ! c) = r
     \<and> progress c r (pc (clients (os_run during s1) ! c)) (local_slot (clients (os_run during s1) ! c))
         (table (os_run during s1)) during (moments during s1)"
  using assms(5-7)
proof (induction during rule: rev_induct)
  case Nil
  have "store_inv (table s1)" using s1 by (simp add: sys_ok_def)
  with c progress_start [OF _ assms(4)] show ?case by simp
next
  case (snoc m during)
  let ?s = "os_run during s1"
  let ?cl = "clients ?s ! c"
  have prem: "list_all move_ok during" "move_ok m" "single_writer during s1" "single_writer [m] ?s"
    "\<forall>r'. Invoke c r' \<notin> set during" "\<forall>r'. m \<noteq> Invoke c r'"
    using snoc.prems by (auto simp: single_writer_append)
  have ok: "sys_ok ?s" by (rule os_run_ok [OF s1 prem(1,3)])
  note ih = snoc.IH [OF prem(1,3,5)]
  have st: "store_inv (table ?s)" and cok: "client_ok (table ?s) r (pc ?cl)"
    using ok ih c(1) by (auto simp: sys_ok_def)
  have c': "c < length (clients ?s)" using c(1) by simp
  have len: "length (moments during s1) = Suc (length during)" by simp
  show ?case
  proof (cases "\<exists>answer. m = Act c answer")
    case True
    then obtain answer where m: "m = Act c answer" by blast
    obtain now' slot' st' where step: "call_step r answer (pc ?cl, local_slot ?cl, table ?s) = (now', slot', st')"
      by (metis prod_cases3)
    have s': "os_run (during @ [m]) s1
       = ?s\<lparr>table := st', clients := (clients ?s)[c := ?cl\<lparr>pc := now', local_slot := slot'\<rparr>]\<rparr>"
      using act_result [OF c', of answer now' slot' st'] step ih by (simp add: m del: os_move_step.simps)
    have "progress c r now' slot' st' (during @ [m]) (moments during s1 @ [rdma_map st'])"
    proof (cases r)
      case (GetCall key counting)
      with cok ih step have "client_ok (table ?s) (GetCall key counting) (pc ?cl)"
        "progress c (GetCall key counting) (pc ?cl) (local_slot ?cl) (table ?s) during (moments during s1)"
        "get_call_step key counting answer (pc ?cl) (local_slot ?cl) (table ?s) = (now', slot', st')" by simp_all
      from progress_get [OF st this moments_now len] show ?thesis unfolding m GetCall .
    next
      case (SetCall key v)
      with cok ih step have "client_ok (table ?s) (SetCall key v) (pc ?cl)"
        "progress c (SetCall key v) (pc ?cl) (local_slot ?cl) (table ?s) during (moments during s1)"
        "set_call_step key v answer (pc ?cl) (local_slot ?cl) (table ?s) = (now', slot', st')" by simp_all
      from progress_set [OF st this len moments_last] show ?thesis unfolding m SetCall .
    qed
    then show ?thesis using ih c' by (simp add: moments_snoc s' del: os_run_simps progress.simps)
  next
    case False
    then have same: "clients (os_run (during @ [m]) s1) ! c = ?cl"
      using move_other [of c m ?s] prem(6) by (cases m) auto
    obtain ch where "moved ?s m ch" using move_step_ok(2) [OF ok prem(2,4)] by blast
    then have ch: "table (os_run (during @ [m]) s1) = changed ch (table ?s)" "change_ok (table ?s) ch"
      by (simp_all add: moved_def)
    show ?thesis
      using ih progress_other [OF st ch(2) _ len, of c r] unfolding same ch(1) moments_snoc by blast
  qed
qed

subsection \<open>Own steps\<close>

fun steps_left :: "os_pc \<Rightarrow> nat" where
  "steps_left (GetRead i) = Suc (RDMA_NUM_SLOTS - i)"
| "steps_left (SetRead i tomb) = Suc (RDMA_NUM_SLOTS - i)"
| "steps_left (GetCount p) = 1"
| "steps_left (SetWrite p count) = 1"
| "steps_left now = 0"

fun in_table :: "os_request \<Rightarrow> os_pc \<Rightarrow> bool" where
  "in_table (GetCall key counting) (GetRead i) = (i < RDMA_NUM_SLOTS)"
| "in_table (GetCall key counting) (GetCount p) = True"
| "in_table (SetCall key value) (SetRead i tomb) = (i < RDMA_NUM_SLOTS)"
| "in_table (SetCall key value) (SetWrite p count) = True"
| "in_table r now = (\<not> busy now)"

lemma at_steps:
  "in_table (GetCall key counting) (get_at i)" "in_table (SetCall key value) (set_at i tomb)"
  "i < RDMA_NUM_SLOTS \<Longrightarrow> steps_left (get_at (Suc i)) < Suc (RDMA_NUM_SLOTS - i)"
  "i < RDMA_NUM_SLOTS \<Longrightarrow> steps_left (set_at (Suc i) tomb) < Suc (RDMA_NUM_SLOTS - i)"
  "steps_left (get_at 0) \<le> Suc RDMA_NUM_SLOTS" "steps_left (set_at 0 tomb) \<le> Suc RDMA_NUM_SLOTS"
  by (auto simp: get_at_def set_at_def split: option.split)

lemma call_step_left:
  assumes "in_table r now" and "call_step r answer (now, slot, st) = (now', slot', st')"
  shows "in_table r now' \<and> steps_left now' \<le> steps_left now - 1"
proof (cases r)
  case (GetCall key counting)
  with assms show ?thesis
    by (cases now; cases answer) (auto simp: at_steps less_Suc_eq_le [symmetric] split: if_splits)
next
  case (SetCall key v)
  with assms show ?thesis
    by (cases now; cases answer)
      (auto simp: at_steps less_Suc_eq_le [symmetric] Let_def set_read_step split: if_splits option.split)
qed

lemma busy_left: "in_table r now \<Longrightarrow> busy now \<Longrightarrow> 0 < steps_left now"
  by (cases now) auto

lemma start_steps: "in_table r (start_call r)" "steps_left (start_call r) \<le> Suc RDMA_NUM_SLOTS"
  by (cases r; simp add: at_steps)+

definition own_steps :: "nat \<Rightarrow> os_move list \<Rightarrow> nat" where
  "own_steps c moves = length (filter (\<lambda>m. case m of Act d answer \<Rightarrow> d = c | _ \<Rightarrow> False) moves)"

lemma own_steps_left:
  assumes "c < length (clients s)" and "in_table (call (clients s ! c)) (pc (clients s ! c))"
    and "\<forall>r'. Invoke c r' \<notin> set moves"
  shows "in_table (call (clients (os_run moves s) ! c)) (pc (clients (os_run moves s) ! c))
     \<and> steps_left (pc (clients (os_run moves s) ! c)) \<le> steps_left (pc (clients s ! c)) - own_steps c moves"
  using assms
proof (induction moves arbitrary: s)
  case (Cons m moves)
  let ?s = "os_move_step m s"
  have step: "in_table (call (clients ?s ! c)) (pc (clients ?s ! c))
     \<and> steps_left (pc (clients ?s ! c)) \<le> steps_left (pc (clients s ! c)) - own_steps c [m]"
  proof (cases "\<exists>answer. m = Act c answer")
    case True
    then obtain answer where m: "m = Act c answer" by blast
    obtain now' slot' st' where res: "call_step (call (clients s ! c)) answer
        (pc (clients s ! c), local_slot (clients s ! c), table s) = (now', slot', st')" by (metis prod_cases3)
    then show ?thesis
      using act_result [OF Cons.prems(1) res] call_step_left [OF Cons.prems(2) res] Cons.prems(1)
      by (simp add: m own_steps_def del: os_move_step.simps)
  next
    case False
    moreover have "m \<noteq> Invoke c r'" for r' using Cons.prems(3) by auto
    ultimately have "clients ?s ! c = clients s ! c" using move_other [of c m s] by (cases m) (auto simp del: os_move_step.simps)
    with Cons.prems(2) False show ?thesis by (cases m) (auto simp: own_steps_def simp del: os_move_step.simps)
  qed
  have "own_steps c (m # moves) = own_steps c [m] + own_steps c moves" by (simp add: own_steps_def)
  with Cons.IH [of ?s] step Cons.prems show ?case by (auto simp del: os_move_step.simps)
qed (simp add: own_steps_def)

text \<open>Clients that are in no call.\<close>

lemma idle_ok:
  assumes "store_inv (table s)" and "list_all (\<lambda>cl. \<not> busy (pc cl)) (clients s)"
  shows "sys_ok s"
proof -
  have "client_ok (table s) (call (clients s ! d)) (pc (clients s ! d))" "\<not> writing (pc (clients s ! d))"
    if "d < length (clients s)" for d
  proof -
    have "\<not> busy (pc (clients s ! d))" using assms(2) that by (simp add: list_all_length)
    then show "client_ok (table s) (call (clients s ! d)) (pc (clients s ! d))" "\<not> writing (pc (clients s ! d))"
      by (cases "pc (clients s ! d)"; simp)+
  qed
  then show ?thesis using assms(1) by (auto simp: sys_ok_def)
qed

end
