(* ===== verification/OneSidedConcurrent.thy ===== *)
theory OneSidedConcurrent
  imports OneSidedInterleaving
begin

section \<open>Several one-sided clients: the properties\<close>

text \<open>
  What \<open>one_sided_get\<close> and \<open>one_sided_set\<close> (\<open>src/client/rdma_client.cpp\<close>) promise when several clients
  use one table: they are runs of the machine of \<open>OneSidedMachine\<close>, wait-free, and linearizable under
  the single-writer assumption their comment states; without it a successful SET can be lost, and
  access counts can be lost even with it.
\<close>

subsection \<open>Properties\<close>

text \<open>
  C6: Every behaviour of \<open>one_sided_get\<close> and \<open>one_sided_set\<close> on a documented device, failures
  included, is a run of the machine: for some answers of the network the machine, started on the
  exported table, returns the same result, leaves the same table and, when a GET found its key, has
  the same slot in its buffer; on a device that never fails the answers are all completions.
\<close>
theorem one_sided_calls_are_runs:
  assumes "one_sided_session V c info lks remote idle" and "idle h" and "slot_lkey \<in> lks"
    and "atomic_lkey \<in> lks" and "8 dvd unat (qi_addr info)" and "misses local slot_size atomic_result 8"
  shows "(\<exists>r h' ans slot. one_sided_set V c info local slot_lkey key v h = Some (r, c, h')
       \<and> fold (call_step (SetCall key v)) ans (start_call (SetCall key v), slot0, exported info (remote h))
           = (SetDone r, slot, exported info (remote h'))
       \<and> (session_never_fails V c info lks idle \<longrightarrow> set ans \<subseteq> {Arrived}))
     \<and> (\<exists>ok h' ans slot. one_sided_get V c info local slot_lkey key counting atomic_result atomic_lkey h = Some (ok, c, h')
       \<and> fold (call_step (GetCall key counting)) ans (start_call (GetCall key counting), slot0, exported info (remote h))
           = (GetDone ok, slot, exported info (remote h'))
       \<and> (ok \<longrightarrow> slot = slot_at (host_mem h') local)
       \<and> (session_never_fails V c info lks idle \<longrightarrow> set ans \<subseteq> {Arrived}))"
proof
  show "\<exists>r h' ans slot. one_sided_set V c info local slot_lkey key v h = Some (r, c, h')
       \<and> fold (call_step (SetCall key v)) ans (start_call (SetCall key v), slot0, exported info (remote h))
           = (SetDone r, slot, exported info (remote h'))
       \<and> (session_never_fails V c info lks idle \<longrightarrow> set ans \<subseteq> {Arrived})"
  proof (cases "fits key v")
    case True
    then have "start_call (SetCall key v) = set_at 0 None"
      "one_sided_set V c info local slot_lkey key v h = set_probe V info local slot_lkey key v (fnv1a key) 0 False 0 c h"
      by (simp_all add: fits_def one_sided_set_def)
    with set_at_is_run [OF assms(1-3) True, where tomb = None and i = 0] show ?thesis by (simp add: tomb_addr_def)
  next
    case False
    then have "\<exists>e. start_call (SetCall key v) = SetDone (Inl e)
      \<and> one_sided_set V c info local slot_lkey key v h = Some (Inl e, c, h)"
      by (cases "RDMA_KEY_MAX \<le> length key") (simp_all add: fits_def one_sided_set_def)
    then obtain e where "start_call (SetCall key v) = SetDone (Inl e)"
      "one_sided_set V c info local slot_lkey key v h = Some (Inl e, c, h)" by blast
    then show ?thesis by (intro exI [of _ "Inl e"] exI [of _ h] exI [of _ "[]"] exI [of _ slot0]) simp
  qed
next
  from get_at_is_run [OF assms, where i = 0 and counting = counting]
  show "\<exists>ok h' ans slot. one_sided_get V c info local slot_lkey key counting atomic_result atomic_lkey h = Some (ok, c, h')
       \<and> fold (call_step (GetCall key counting)) ans (start_call (GetCall key counting), slot0, exported info (remote h))
           = (GetDone ok, slot, exported info (remote h'))
       \<and> (ok \<longrightarrow> slot = slot_at (host_mem h') local)
       \<and> (session_never_fails V c info lks idle \<longrightarrow> set ans \<subseteq> {Arrived})"
    by (simp add: one_sided_get_def)
qed

theorem one_sided_calls_are_runs_witness:
  "\<exists>h' slot. one_sided_set sim_verbs sim_ctx zero_info 65536 1 ''a'' ''1'' (sim_peer (\<lambda>_. NUL)) = Some (Inr (), sim_ctx, h')
     \<and> fold (call_step (SetCall ''a'' ''1'')) [Arrived, Arrived] (start_call (SetCall ''a'' ''1''), zero_slot, RdmaStore_init)
         = (SetDone (Inr ()), slot, exported zero_info (sim_remote (nic h')))"
proof -
  have al: "8 dvd unat (qi_addr zero_info)" by (simp add: zero_info_def)
  obtain r h' ans slot where run: "one_sided_set sim_verbs sim_ctx zero_info 65536 1 ''a'' ''1'' (sim_peer (\<lambda>_. NUL)) = Some (r, sim_ctx, h')"
    and machine: "fold (call_step (SetCall ''a'' ''1'')) ans (start_call (SetCall ''a'' ''1''), zero_slot, RdmaStore_init)
         = (SetDone r, slot, exported zero_info (sim_remote (nic h')))" and arr: "set ans \<subseteq> {Arrived}"
    using one_sided_calls_are_runs [OF sim_session(1) sim_peer(2) [of "\<lambda>_. NUL"] _ _ al sim_buffers, where slot_lkey = 1
        and atomic_lkey = 1 and key = "''a''" and v = "''1''" and ?slot0.0 = zero_slot, THEN conjunct1]
      sim_session(2) by (auto simp: zero_mem_exported simp del: start_call.simps)
  have empty: "occupied (slots RdmaStore_init ! tab.pos ''a'' 0) = 0"
    by (simp add: RdmaStore_init_def zero_slot_def)
  have start: "start_call (SetCall ''a'' ''1'') = SetRead 0 None" by (simp add: set_at_def rdma_sizes)
  let ?p = "tab.pos ''a'' 0" and ?s = "prepared ''a'' ''1'' 0"
  have one: "call_step (SetCall ''a'' ''1'') Arrived (SetRead 0 None, zero_slot, RdmaStore_init)
     = (SetWrite ?p 0, slots RdmaStore_init ! ?p, RdmaStore_init)"
    by (simp add: set_read_step empty del: set_call_step.simps)
  have two: "call_step (SetCall ''a'' ''1'') Arrived (SetWrite ?p 0, slot0, st) = (SetDone (Inr ()), ?s, put_slot ?p ?s st)" for slot0 st
    by (simp add: Let_def)
  have rest: "fold (call_step (SetCall ''a'' ''1'')) xs (SetDone q, x) = (SetDone q, x)" for xs q x
    by (induction xs) (cases x, simp)+
  have shape: "ans = [] \<or> ans = [Arrived] \<or> (\<exists>xs. ans = Arrived # Arrived # xs)"
    using arr by (cases ans; cases "tl ans") auto
  have "fold (call_step (SetCall ''a'' ''1'')) [Arrived, Arrived] (SetRead 0 None, zero_slot, RdmaStore_init)
      = (SetDone r, slot, exported zero_info (sim_remote (nic h'))) \<and> r = Inr ()"
    using machine shape unfolding start
    by (elim disjE exE) (auto simp: one two rest simp del: call_step.simps)
  with run show ?thesis unfolding start by blast
qed

text \<open>
  C7: Linearizability of the one-sided operations under the single-writer assumption, any number of
  clients and any request of any call failing: at every point of the run the table is well-formed,
  and a call that has ended took effect at one moment between its start and its end. A GET answers
  with the value or the absence of the key at such a moment; a SET that reports success is the
  atomic update of the bounded map by one request of its client; the errors of a SET are the bounded
  map's. Only a call one of whose own requests failed may say less (a GET that reports absence, a
  SET that reports an error).
\<close>
theorem one_sided_calls_linearizable:
  assumes "store_inv (table s0)" and "list_all (\<lambda>cl. \<not> busy (pc cl)) (clients s0)"
    and "list_all move_ok (earlier @ Invoke c r # during)"
    and "single_writer (earlier @ Invoke c r # during) s0"
    and "c < length (clients s0)" and "\<not> busy (pc (clients (os_run earlier s0) ! c))"
    and "\<forall>r'. Invoke c r' \<notin> set during"
  shows "let s1 = os_run (earlier @ [Invoke c r]) s0; s = os_run during s1; cl = clients s ! c in
     store_inv (table s)
     \<and> (busy (pc cl) \<or> takes_effect c r (pc cl) (local_slot cl) during (moments during s1))"
proof -
  let ?s0 = "os_run earlier s0" and ?s1 = "os_run (earlier @ [Invoke c r]) s0"
  have s0: "sys_ok s0" by (rule idle_ok [OF assms(1,2)])
  have moves: "list_all move_ok (earlier @ [Invoke c r])" "single_writer (earlier @ [Invoke c r]) s0"
    "list_all move_ok during" "single_writer during ?s1" "request_ok r"
    using assms(3,4) by (auto simp: single_writer_append)
  have s1: "sys_ok ?s1" by (rule os_run_ok [OF s0 moves(1,2)])
  have c: "c < length (clients ?s1)" "clients ?s1 ! c = (clients ?s0 ! c)\<lparr>call := r, pc := start_call r\<rparr>"
    using assms(5,6) by simp_all
  note pr = call_progress [OF s1 c moves(5,3,4) assms(7)]
  have ok: "sys_ok (os_run during ?s1)" by (rule os_run_ok [OF s1 moves(3,4)])
  then have "client_ok (table (os_run during ?s1)) r (pc (clients (os_run during ?s1) ! c))"
    using pr c(1) by (auto simp: sys_ok_def)
  with pr ok show ?thesis unfolding Let_def sys_ok_def by (blast intro: progress_effect)
qed

text \<open>Two clients at an empty table, and their example run: a SET, and a GET that starts before its
write.\<close>

definition two_clients :: "RdmaStore \<Rightarrow> os_system" where
  "two_clients st = \<lparr>table = st, clients = replicate 2
     \<lparr>call = GetCall [] False, pc = OsIdle, local_slot = zero_slot\<rparr>\<rparr>"

lemma two_clients [simp]: "length (clients (two_clients st)) = 2" "table (two_clients st) = st"
  "list_all (\<lambda>cl. \<not> busy (pc cl)) (clients (two_clients st))" "\<not> list_ex (writing \<circ> pc) (clients (two_clients st))"
  by (simp_all add: two_clients_def eval_nat_numeral)

text \<open>The moves at an empty home slot, as updates of the two clients.\<close>

abbreviation pair_of :: "os_request \<Rightarrow> os_pc \<Rightarrow> RdmaSlot \<Rightarrow> os_request \<Rightarrow> os_pc \<Rightarrow> RdmaSlot \<Rightarrow> RdmaStore \<Rightarrow> os_system" where
  "pair_of r0 pc0 s0 r1 pc1 s1 st \<equiv> \<lparr>table = st, clients =
     [\<lparr>call = r0, pc = pc0, local_slot = s0\<rparr>, \<lparr>call = r1, pc = pc1, local_slot = s1\<rparr>]\<rparr>"

lemma two_clients_pair: "two_clients st = pair_of (GetCall [] False) OsIdle zero_slot (GetCall [] False) OsIdle zero_slot st"
  by (simp add: two_clients_def eval_nat_numeral)

lemma pair_invoke:
  "\<not> busy pc0 \<Longrightarrow> os_move_step (Invoke 0 r) (pair_of r0 pc0 s0 r1 pc1 s1 st) = pair_of r (start_call r) s0 r1 pc1 s1 st"
  "\<not> busy pc1 \<Longrightarrow> os_move_step (Invoke (Suc 0) r) (pair_of r0 pc0 s0 r1 pc1 s1 st) = pair_of r0 pc0 s0 r (start_call r) s1 st"
  by simp_all

lemma pair_act:
  "call_step r0 answer (pc0, s0, st) = (pc', s', st') \<Longrightarrow>
     os_move_step (Act 0 answer) (pair_of r0 pc0 s0 r1 pc1 s1 st) = pair_of r0 pc' s' r1 pc1 s1 st'"
  "call_step r1 answer (pc1, s1, st) = (pc', s', st') \<Longrightarrow>
     os_move_step (Act (Suc 0) answer) (pair_of r0 pc0 s0 r1 pc1 s1 st) = pair_of r0 pc0 s0 r1 pc' s' st'"
  by simp_all

lemma start_fits: "fits key value \<Longrightarrow> start_call (SetCall key value) = SetRead 0 None"
  by (simp add: fits_def set_at_def rdma_sizes)

lemma start_get: "start_call (GetCall key counting) = GetRead 0"
  by (simp add: get_at_def rdma_sizes)

lemma set_steps:
  "occupied (slots st ! tab.pos key 0) = 0 \<Longrightarrow>
     call_step (SetCall key value) Arrived (SetRead 0 None, s, st) = (SetWrite (tab.pos key 0) 0, slots st ! tab.pos key 0, st)"
  "call_step (SetCall key value) Arrived (SetWrite p count, s, st)
     = (SetDone (Inr ()), prepared key value count, put_slot p (prepared key value count) st)"
  by (simp_all add: set_read_step Let_def del: set_call_step.simps(1))

theorem one_sided_calls_linearizable_witness:
  "let s1 = os_run [Invoke 0 (SetCall ''a'' ''1'')] (two_clients RdmaStore_init);
      during = [Invoke 1 (GetCall ''a'' False), Act 0 Arrived, Act 1 Arrived, Act 0 Arrived];
      s = os_run during s1
   in pc (clients s ! 0) = SetDone (Inr ()) \<and> pc (clients s ! 1) = GetDone False
     \<and> (\<exists>k<4. during ! k = Act 0 Arrived
          \<and> bounded_set ''a'' ''1'' (moments during s1 ! k) = Inr (moments during s1 ! Suc k))"
proof -
  let ?during = "[Invoke 1 (GetCall ''a'' False), Act 0 Arrived, Act 1 Arrived, Act 0 Arrived]"
  let ?s1 = "os_run ([] @ [Invoke 0 (SetCall ''a'' ''1'')]) (two_clients RdmaStore_init)"
  have empty: "occupied (slots RdmaStore_init ! tab.pos ''a'' 0) = 0" by (simp add: RdmaStore_init_def zero_slot_def)
  have fit: "fits ''a'' ''1''" by (simp add: fits_def rdma_sizes)
  have get: "call_step (GetCall ''a'' False) Arrived (GetRead 0, zero_slot, RdmaStore_init)
     = (GetDone False, slots RdmaStore_init ! tab.pos ''a'' 0, RdmaStore_init)" by (simp add: empty)
  note eval = two_clients_pair pair_invoke pair_act start_fits [OF fit] start_get
    set_steps(1) [OF empty] set_steps(2) get
  have s1: "?s1 = pair_of (SetCall ''a'' ''1'') (SetRead 0 None) zero_slot (GetCall [] False) OsIdle zero_slot RdmaStore_init"
    by (simp add: eval del: os_move_step.simps start_call.simps call_step.simps)
  have fin: "pc (clients (os_run ?during ?s1) ! 0) = SetDone (Inr ())" "pc (clients (os_run ?during ?s1) ! 1) = GetDone False"
    unfolding s1 by (simp_all add: eval del: os_move_step.simps start_call.simps call_step.simps)
  have start: "store_inv (table (two_clients RdmaStore_init))" and size: "0 < length (clients (two_clients RdmaStore_init))"
    and ok: "list_all move_ok ([] @ Invoke 0 (SetCall ''a'' ''1'') # ?during)"
    and alone: "single_writer ([] @ Invoke 0 (SetCall ''a'' ''1'') # ?during) (two_clients RdmaStore_init)"
    and idle: "\<not> busy (pc (clients (os_run [] (two_clients RdmaStore_init)) ! 0))"
    and none: "\<forall>r'. Invoke 0 r' \<notin> set ?during"
    by (simp_all add: store_inv_init key_ok_ab two_clients_pair del: os_move_step.simps)
  have "takes_effect 0 (SetCall ''a'' ''1'') (pc (clients (os_run ?during ?s1) ! 0)) (local_slot (clients (os_run ?during ?s1) ! 0))
     ?during (moments ?during ?s1)"
    using one_sided_calls_linearizable [OF start two_clients(3) ok alone size idle none, unfolded Let_def, THEN conjunct2]
    unfolding fin(1) busy.simps simp_thms .
  then have "\<exists>k<4. ?during ! k = Act 0 Arrived
     \<and> bounded_set ''a'' ''1'' (moments ?during ?s1 ! k) = Inr (moments ?during ?s1 ! Suc k)"
    unfolding fin(1) takes_effect.simps by (elim exE conjE) (rule exI, intro conjI; simp only: list.size; simp)
  with fin show ?thesis unfolding Let_def append.simps by blast
qed

text \<open>
  C8: What the single-writer assumption keeps, at every move of every run: the table stays
  well-formed, and its contents change only when a client in a SET makes the request that ends its
  call, and then to the update with that call's key and value. GETs, whatever they count, and
  requests that fail before they reach the server change nothing.
\<close>
theorem table_changes_only_by_set:
  assumes "store_inv (table s0)" and "list_all (\<lambda>cl. \<not> busy (pc cl)) (clients s0)"
    and "list_all move_ok (moves @ [m])" and "single_writer (moves @ [m]) s0"
  shows "let s = os_run moves s0; s' = os_run (moves @ [m]) s0 in
     store_inv (table s')
     \<and> (rdma_map (table s') = rdma_map (table s)
        \<or> (\<exists>c answer key value. m = Act c answer \<and> c < length (clients s)
             \<and> call (clients s ! c) = SetCall key value
             \<and> busy (pc (clients s ! c)) \<and> \<not> busy (pc (clients s' ! c))
             \<and> rdma_map (table s') = (rdma_map (table s))(key \<mapsto> value)))"
proof -
  let ?s = "os_run moves s0"
  have prem: "list_all move_ok moves" "single_writer moves s0" "move_ok m" "single_writer [m] ?s"
    using assms(3,4) by (simp_all add: single_writer_append)
  have ok: "sys_ok ?s" by (rule os_run_ok [OF idle_ok [OF assms(1,2)] prem(1,2)])
  obtain ch where ch: "moved ?s m ch" using move_step_ok(2) [OF ok prem(3,4)] by blast
  have st: "store_inv (table ?s)" using ok by (simp add: sys_ok_def)
  have tab: "table (os_run (moves @ [m]) s0) = changed ch (table ?s)" "change_ok (table ?s) ch"
    using ch by (simp_all add: moved_def)
  have busy: "busy now" if "writing now" for now using that by (cases now) simp_all
  show ?thesis
  proof (cases ch)
    case (Put key v p count)
    with ch obtain c answer where "m = Act c answer" "c < length (clients ?s)" "call (clients ?s ! c) = SetCall key v"
      "busy (pc (clients ?s ! c))" "\<not> busy (pc (clients (os_move_step m ?s) ! c))"
      by (auto simp: moved_def busy simp del: os_move_step.simps)
    with change_map [OF st tab(2)] show ?thesis
      unfolding Let_def tab(1) by (auto simp: Put simp del: os_move_step.simps)
  qed (use change_map [OF st tab(2)] in \<open>simp_all only: Let_def tab(1) table_change.case simp_thms\<close>)
qed

theorem table_changes_only_by_set_witness:
  "let s = os_run [Invoke 0 (SetCall ''a'' ''1''), Act 0 Arrived] (two_clients RdmaStore_init);
       s' = os_run [Invoke 0 (SetCall ''a'' ''1''), Act 0 Arrived, Act 0 Arrived] (two_clients RdmaStore_init)
   in store_inv (table s') \<and> rdma_map (table s) = Map.empty
     \<and> rdma_map (table s') \<in> {Map.empty, [''a'' \<mapsto> ''1'']}"
proof -
  let ?moves = "[Invoke 0 (SetCall ''a'' ''1''), Act 0 Arrived]" and ?s0 = "two_clients RdmaStore_init"
  have empty: "occupied (slots RdmaStore_init ! tab.pos ''a'' 0) = 0" by (simp add: RdmaStore_init_def zero_slot_def)
  have fit: "fits ''a'' ''1''" by (simp add: fits_def rdma_sizes)
  have s: "os_run ?moves ?s0 = pair_of (SetCall ''a'' ''1'') (SetWrite (tab.pos ''a'' 0) 0) (slots RdmaStore_init ! tab.pos ''a'' 0)
      (GetCall [] False) OsIdle zero_slot RdmaStore_init"
    by (simp add: two_clients_pair pair_invoke pair_act start_fits [OF fit] set_steps(1) [OF empty]
        del: os_move_step.simps start_call.simps call_step.simps)
  have start: "store_inv (table ?s0)" and ok: "list_all move_ok (?moves @ [Act 0 Arrived])"
    and alone: "single_writer (?moves @ [Act 0 Arrived]) ?s0"
    by (simp_all add: store_inv_init key_ok_ab two_clients_pair del: os_move_step.simps)
  from table_changes_only_by_set [OF start two_clients(3) ok alone, unfolded Let_def]
  have inv: "store_inv (table (os_run (?moves @ [Act 0 Arrived]) ?s0))"
    and "rdma_map (table (os_run (?moves @ [Act 0 Arrived]) ?s0)) = Map.empty
     \<or> (\<exists>key value. call (clients (os_run ?moves ?s0) ! 0) = SetCall key value
          \<and> rdma_map (table (os_run (?moves @ [Act 0 Arrived]) ?s0)) = [key \<mapsto> value])"
    unfolding s by (auto simp: rdma_map_init)
  then have "rdma_map (table (os_run (?moves @ [Act 0 Arrived]) ?s0)) \<in> {Map.empty, [''a'' \<mapsto> ''1'']}"
    unfolding s by auto
  with inv show ?thesis unfolding Let_def append.simps by (simp only: s os_system.simps rdma_map_init)
qed

text \<open>
  C9: Wait-freedom: whatever the other clients do and whatever the table holds, a call ends after at
  most 4097 requests of its own client (a probe of every slot and one write or one counter update).
\<close>
theorem one_sided_calls_wait_free:
  assumes "c < length (clients s)" and "\<not> busy (pc (clients s ! c))"
    and "\<forall>r'. Invoke c r' \<notin> set during"
    and "length (filter (\<lambda>m. case m of Act d answer \<Rightarrow> d = c | _ \<Rightarrow> False) during) > RDMA_NUM_SLOTS"
  shows "\<not> busy (pc (clients (os_run (Invoke c r # during) s) ! c))"
proof -
  let ?s1 = "os_move_step (Invoke c r) s"
  have s1: "clients ?s1 ! c = (clients s ! c)\<lparr>call := r, pc := start_call r\<rparr>" using assms(1,2) by simp
  have c: "c < length (clients ?s1)" and tab: "in_table (call (clients ?s1 ! c)) (pc (clients ?s1 ! c))"
    using assms(1) start_steps(1) by (simp_all add: s1 del: os_move_step.simps)
  note left = own_steps_left [OF c tab assms(3)]
  have "steps_left (pc (clients ?s1 ! c)) \<le> Suc RDMA_NUM_SLOTS" unfolding s1 using start_steps(2) by simp
  then have "steps_left (pc (clients (os_run during ?s1) ! c)) = 0"
    using left assms(4) by (simp add: own_steps_def)
  then show ?thesis using busy_left [OF left [THEN conjunct1]] by (auto simp del: os_move_step.simps)
qed

theorem one_sided_calls_wait_free_witness:
  "\<not> busy (pc (clients (os_run (Invoke 0 (SetCall ''a'' ''1'') # replicate 5000 (Act 0 Arrived)) (two_clients RdmaStore_init)) ! 0))"
  by (rule one_sided_calls_wait_free) (simp_all add: two_clients_pair RDMA_NUM_SLOTS_def)

text \<open>
  C10: Without the single-writer assumption success is no promise: two clients that set different keys
  with the same home slot, both reading it while it is empty, both report success, and the first
  key is not in the table.
\<close>
theorem overlapping_sets_lose_a_key:
  assumes "store_inv (table s)" and "clients s = [cl0, cl1]" and "\<not> busy (pc cl0)" and "\<not> busy (pc cl1)"
    and "key_ok k0" and "key_ok v0" and "fits k0 v0" and "key_ok k1" and "key_ok v1" and "fits k1 v1"
    and "k0 \<noteq> k1" and "fnv1a k0 = fnv1a k1" and "occupied (slots (table s) ! fnv1a k0) = 0"
  shows "let s' = os_run [Invoke 0 (SetCall k0 v0), Invoke 1 (SetCall k1 v1),
               Act 0 Arrived, Act 1 Arrived, Act 0 Arrived, Act 1 Arrived] s
     in pc (clients s' ! 0) = SetDone (Inr ()) \<and> pc (clients s' ! 1) = SetDone (Inr ())
        \<and> rdma_map (table s') k0 = None \<and> rdma_map (table s') = (rdma_map (table s))(k1 \<mapsto> v1)"
proof -
  let ?p = "tab.pos k1 0" and ?st = "table s"
  have home: "tab.pos k 0 = fnv1a k" for k
    using slot_index_less [of k] by (simp add: tab.pos_def fnv1a_slot_index)
  have p: "tab.pos k0 0 = ?p" by (simp add: home assms(12))
  have empty: "occupied (slots ?st ! ?p) = 0" using assms(12,13) by (simp add: home)
  then have e: "slot_status_of (slots ?st ! ?p) = Empty" by (simp add: slot_status_cases(1))
  have place: "place_target (tab.place_of (slots ?st) k1) = Some ?p"
    using e by (simp add: tab.place_of_def tab.place_from_step tab.N_pos tab.holds_def)
  have absent: "rdma_map ?st k0 = None"
    using e p by (simp add: rdma_map_def tab.contents_def tab.lookup_def tab.lookup_from_step tab.N_pos)
  obtain r0 pc0 s0 r1 pc1 s1 where cls: "cl0 = \<lparr>call = r0, pc = pc0, local_slot = s0\<rparr>" "cl1 = \<lparr>call = r1, pc = pc1, local_slot = s1\<rparr>"
    by (metis os_client.surjective old.unit.exhaust)
  have s: "s = pair_of r0 pc0 s0 r1 pc1 s1 ?st" and idle: "\<not> busy pc0" "\<not> busy pc1"
    using assms(2-4) cls by simp_all
  have run: "os_run [Invoke 0 (SetCall k0 v0), Invoke 1 (SetCall k1 v1),
      Act 0 Arrived, Act 1 Arrived, Act 0 Arrived, Act 1 Arrived] (pair_of r0 pc0 s0 r1 pc1 s1 ?st)
     = pair_of (SetCall k0 v0) (SetDone (Inr ())) (prepared k0 v0 0) (SetCall k1 v1) (SetDone (Inr ())) (prepared k1 v1 0)
         (put_slot ?p (prepared k1 v1 0) ?st)"
    using set_steps(1) [of ?st k0] set_steps(1) [of ?st k1] empty idle
    by (simp add: p pair_invoke pair_act start_fits assms(7,10) set_steps(2) put_slot_def
        del: os_move_step.simps start_call.simps call_step.simps)
  have "rdma_map (put_slot ?p (prepared k1 v1 0) ?st) = (rdma_map ?st)(k1 \<mapsto> v1)"
    using place_prepared(2) [OF assms(1,8,9,10) place, where st' = "put_slot ?p (prepared k1 v1 0) ?st"] by (simp add: put_slot_def)
  with absent assms(11) show ?thesis unfolding Let_def run [unfolded s [symmetric]] by simp
qed

theorem overlapping_sets_lose_a_key_witness:
  "let s' = os_run [Invoke 0 (SetCall ''ng'' ''1''), Invoke 1 (SetCall ''aaa'' ''2''),
               Act 0 Arrived, Act 1 Arrived, Act 0 Arrived, Act 1 Arrived] (two_clients RdmaStore_init)
     in pc (clients s' ! 0) = SetDone (Inr ()) \<and> rdma_map (table s') = [''aaa'' \<mapsto> ''2'']"
proof -
  have idle: "\<not> busy (pc \<lparr>call = GetCall [] False, pc = OsIdle, local_slot = zero_slot\<rparr>)" by simp
  have keys: "key_ok ''ng''" "key_ok ''aaa''" "key_ok ''2''" by (simp_all add: key_ok_def)
  have fit: "fits ''ng'' ''1''" "fits ''aaa'' ''2''" by (simp_all add: fits_def rdma_sizes)
  have same: "fnv1a ''ng'' = fnv1a ''aaa''" by (simp add: fnv1a_def RDMA_NUM_SLOTS_def of_char_def)
  have "fnv1a ''ng'' < RDMA_NUM_SLOTS" by (simp add: fnv1a_slot_index slot_index_less)
  then have empty: "occupied (slots (table (two_clients RdmaStore_init)) ! fnv1a ''ng'') = 0"
    by (simp add: RdmaStore_init_def zero_slot_def)
  have start: "store_inv (table (two_clients RdmaStore_init))" by (simp add: store_inv_init)
  have cls: "clients (two_clients RdmaStore_init) = [\<lparr>call = GetCall [] False, pc = OsIdle, local_slot = zero_slot\<rparr>,
      \<lparr>call = GetCall [] False, pc = OsIdle, local_slot = zero_slot\<rparr>]" by (simp add: two_clients_pair)
  have diff: "''ng'' \<noteq> ''aaa''" by simp
  from overlapping_sets_lose_a_key [OF start cls idle idle keys(1) key_ok_ab(2) fit(1) keys(2,3) fit(2) diff same empty]
  show ?thesis by (simp only: Let_def two_clients(2) rdma_map_init)
qed

text \<open>
  C11: The access counts are not protected even by a single writer: a counting GET whose
  fetch-and-add falls between the probe and the write of a SET of the same key succeeds, the SET
  succeeds, and the count the slot ends with is the one the SET had read.
\<close>
theorem set_erases_concurrent_count:
  assumes "store_inv (table s)" and "clients s = [cl0, cl1]" and "\<not> busy (pc cl0)" and "\<not> busy (pc cl1)"
    and "key_ok key" and "fits key value"
    and "occupied (slots (table s) ! fnv1a key) = 1" and "slot_key_of (slots (table s) ! fnv1a key) = key"
  shows "let moves = [Invoke 0 (SetCall key value), Act 0 Arrived, Invoke 1 (GetCall key True),
               Act 1 Arrived, Act 1 Arrived, Act 0 Arrived]; s' = os_run moves s
     in single_writer moves s \<and> pc (clients s' ! 0) = SetDone (Inr ()) \<and> pc (clients s' ! 1) = GetDone True
        \<and> access_count (slots (table s') ! fnv1a key) = access_count (slots (table s) ! fnv1a key)"
proof -
  let ?p = "tab.pos key 0" and ?st = "table s"
  let ?n = "access_count (slots ?st ! ?p)"
  have home: "fnv1a key = ?p"
    using slot_index_less [of key] by (simp add: tab.pos_def fnv1a_slot_index)
  have ok: "slot_ok (slots ?st ! ?p)" by (rule store_inv_slot [OF assms(1)]) simp
  have hit: "occupied (slots ?st ! ?p) = 1" "slot_key_equals (slot_key (slots ?st ! ?p)) key"
    using assms(7,8) ok by (simp_all add: home slot_key_equals_ok)
  obtain r0 pc0 s0 r1 pc1 s1 where cls: "cl0 = \<lparr>call = r0, pc = pc0, local_slot = s0\<rparr>" "cl1 = \<lparr>call = r1, pc = pc1, local_slot = s1\<rparr>"
    by (metis os_client.surjective old.unit.exhaust)
  have s: "s = pair_of r0 pc0 s0 r1 pc1 s1 ?st" and idle: "\<not> busy pc0" "\<not> busy pc1"
    using assms(2-4) cls by simp_all
  have read: "call_step (SetCall key value) Arrived (SetRead 0 None, s0, ?st) = (SetWrite ?p ?n, slots ?st ! ?p, ?st)"
    "call_step (GetCall key True) Arrived (GetRead 0, s1, ?st) = (GetCount ?p, slots ?st ! ?p, ?st)"
    "call_step (GetCall key True) Arrived (GetCount ?p, slot0, ?st) = (GetDone True, slot0, bump_count ?p ?st)" for slot0
    using hit by (simp_all add: set_read_step del: set_call_step.simps)
  note eval = pair_invoke pair_act idle start_fits [OF assms(6)] start_get read set_steps(2)
  have run: "os_run [Invoke 0 (SetCall key value), Act 0 Arrived, Invoke 1 (GetCall key True),
      Act 1 Arrived, Act 1 Arrived, Act 0 Arrived] (pair_of r0 pc0 s0 r1 pc1 s1 ?st)
     = pair_of (SetCall key value) (SetDone (Inr ())) (prepared key value ?n) (GetCall key True) (GetDone True) (slots ?st ! ?p)
         (put_slot ?p (prepared key value ?n) (bump_count ?p ?st))"
    by (simp add: eval del: os_move_step.simps start_call.simps call_step.simps)
  have quiet: "\<not> writing now" if "\<not> busy now" for now using that by (cases now) simp_all
  have "single_writer [Invoke 0 (SetCall key value), Act 0 Arrived, Invoke 1 (GetCall key True),
      Act 1 Arrived, Act 1 Arrived, Act 0 Arrived] (pair_of r0 pc0 s0 r1 pc1 s1 ?st)"
    using idle by (simp add: quiet del: os_move_step.simps)
  moreover have "slots (put_slot ?p (prepared key value ?n) (bump_count ?p ?st)) ! ?p = prepared key value ?n"
    using store_inv_length [OF assms(1)] by (simp add: put_slot_def bump_count_def)
  ultimately show ?thesis unfolding Let_def home run [unfolded s [symmetric]] unfolding s [symmetric]
    by (simp add: prepared_def del: single_writer.simps)
qed

theorem set_erases_concurrent_count_witness:
  "let st = put_slot (tab.pos ''a'' 0) (prepared ''a'' ''1'' 0) RdmaStore_init;
       s' = os_run [Invoke 0 (SetCall ''a'' ''2''), Act 0 Arrived, Invoke 1 (GetCall ''a'' True),
               Act 1 Arrived, Act 1 Arrived, Act 0 Arrived] (two_clients st)
     in pc (clients s' ! 1) = GetDone True \<and> access_count (slots (table s') ! fnv1a ''a'') = 0"
proof -
  let ?p = "tab.pos ''a'' 0" and ?st = "put_slot (tab.pos ''a'' 0) (prepared ''a'' ''1'' 0) RdmaStore_init"
  have fit: "fits ''a'' ''1''" "fits ''a'' ''2''" by (simp_all add: fits_def rdma_sizes)
  have home: "?p = fnv1a ''a''" using slot_index_less [of "''a''"] by (simp add: tab.pos_def fnv1a_slot_index)
  have "slot_status_of (slots RdmaStore_init ! ?p) = Empty"
    by (simp add: RdmaStore_init_def zero_slot_def slot_status_of_def)
  then have place: "place_target (tab.place_of (slots RdmaStore_init) ''a'') = Some ?p"
    by (simp add: tab.place_of_def tab.place_from_step tab.N_pos tab.holds_def)
  have st: "store_inv (table (two_clients ?st))"
    using place_prepared(1) [OF store_inv_init key_ok_ab fit(1) place, where st' = ?st] by (simp add: put_slot_def)
  have slot: "slots ?st ! fnv1a ''a'' = prepared ''a'' ''1'' 0"
    using tab.pos_less [of "''a''" 0] unfolding home by (simp add: put_slot_def RdmaStore_init_def)
  have idle: "\<not> busy (pc \<lparr>call = GetCall [] False, pc = OsIdle, local_slot = zero_slot\<rparr>)" by simp
  have cls: "clients (two_clients ?st) = [\<lparr>call = GetCall [] False, pc = OsIdle, local_slot = zero_slot\<rparr>,
      \<lparr>call = GetCall [] False, pc = OsIdle, local_slot = zero_slot\<rparr>]" by (simp add: two_clients_pair)
  have occ: "occupied (slots (table (two_clients ?st)) ! fnv1a ''a'') = 1"
    and key: "slot_key_of (slots (table (two_clients ?st)) ! fnv1a ''a'') = ''a''"
    and count: "access_count (slots (table (two_clients ?st)) ! fnv1a ''a'') = 0"
    unfolding two_clients(2) slot using prepared_facts(3) [OF fit(1) key_ok_ab] by (simp_all add: prepared_def)
  from set_erases_concurrent_count [OF st cls idle idle key_ok_ab(1) fit(2) occ key]
  show ?thesis unfolding Let_def count by blast
qed

end
