(* ===== verification/TcpServerProps.thy ===== *)
theory TcpServerProps
  imports TcpServer
begin

section \<open>Properties of the TCP server\<close>

text \<open>
  What every reachable state of the server of \<open>src/server/main.cpp\<close> satisfies, whatever the kernel
  delivers: the log of executed commands is a sequential run of the store, each connection's bytes
  are answered in order and independently of how they were cut, and every descriptor is closed
  exactly once; and the end-of-stream path that drops buffered commands.
\<close>

subsection \<open>The answers a byte stream is due\<close>

text \<open>The complete lines of a byte stream, and the lines up to the first \<open>QUIT\<close>.\<close>

function lines_of :: "string \<Rightarrow> string list" where
  "lines_of s = (case find_char NL s of None \<Rightarrow> [] | Some n \<Rightarrow> take n s # lines_of (drop (n + 1) s))"
  by pat_completeness auto
termination
  by (relation "measure length") (auto dest: find_char_Some_iff [THEN iffD1])

declare lines_of.simps [simp del]

fun until_quit :: "string list \<Rightarrow> string list" where
  "until_quit [] = []"
| "until_quit (l # ls) = (if quit_line l then [l] else l # until_quit ls)"

definition due :: "string \<Rightarrow> KeyValueStore \<Rightarrow> string" where
  "due stream store = concat (fst (serve_all (until_quit (lines_of stream)) store))"

lemma lines_of_line: "NL \<notin> set l \<Longrightarrow> lines_of (l @ NL # rest) = l # lines_of rest"
  by (subst lines_of.simps) simp

lemma lines_of_rest: "NL \<notin> set rest \<Longrightarrow> lines_of rest = []"
  by (subst lines_of.simps) simp

lemma lines_of_consumed:
  "\<forall>e\<in>set es. NL \<notin> set (fst e) \<Longrightarrow>
     lines_of (concat (map (\<lambda>e. fst e @ [NL]) es) @ rest) = map fst es @ lines_of rest"
  by (induction es) (simp_all add: lines_of_line)

lemma until_quit_append: "no_quit es \<Longrightarrow> until_quit (map fst es @ ls) = map fst es @ until_quit ls"
  by (induction es) (simp_all add: no_quit_def)

lemma until_quit_prefix:
  assumes "no_quit (butlast es)"
  shows "prefix (map fst es) (until_quit (map fst es @ ls))"
proof (cases es rule: rev_cases)
  case (snoc es' e)
  with assms have "until_quit (map fst es @ ls) = map fst es' @ until_quit (fst e # ls)"
    using until_quit_append [of es' "fst e # ls"] by simp
  with snoc show ?thesis by simp
qed simp

lemma serve_all_prefix:
  "prefix xs ys \<Longrightarrow> prefix (concat (fst (serve_all xs s))) (concat (fst (serve_all ys s)))"
  by (auto simp: prefix_def serve_all_append split: prod.splits)

lemma conn_ok_butlast: "conn_ok c \<Longrightarrow> no_quit (butlast (executed c)) \<and> prefix (sent c) (answers c)"
  by (cases "phase_of c") (auto simp: conn_ok_def dest: butlast_subset intro: prefixI [OF sym])

text \<open>A connection that is the only one to have executed commands: its responses are those of the
sequential run.\<close>

lemma sole_client_answers:
  assumes inv: "server_inv server_fd s" and i: "i < length (conns s)" and sole: "\<forall>e\<in>set (log s). fst e = i"
  shows "answers (conns s ! i) = concat (fst (serve_all (map fst (executed (conns s ! i))) empty_store))"
proof -
  have "log_of i s = map snd (log s)" using sole by (simp add: log_of_def filter_True)
  then have ex: "executed (conns s ! i) = map snd (log s)" using inv i by (simp add: server_inv_def)
  have "serve_all (log_lines s) empty_store = (log_responses s, kv s)" using inv by (simp add: server_inv_def)
  moreover have "log_lines s = map fst (executed (conns s ! i))" "log_responses s = map snd (executed (conns s ! i))"
    by (simp_all add: ex log_lines_def log_responses_def)
  ultimately show ?thesis by (simp add: answers_def)
qed

lemma map_option_SomeE:
  assumes "map_option f x = Some y"
  obtains s where "x = Some s" and "f s = y"
  using assms by (cases x) auto

lemma example_state:
  obtains s where "server_reachable 3 s"
    and "view s = ([(''SET a 1'' @ [NL] @ ''GET a'' @ [NL], ''OK'' @ [NL] @ ''VALUE 1'' @ [NL], AwaitRead, [])],
           [(0, ''SET a 1'', ''OK'' @ [NL]), (0, ''GET a'', ''VALUE 1'' @ [NL])])"
proof -
  obtain s where run: "run_events example_events (server_init 3) = Some s"
    and view: "view s = ([(''SET a 1'' @ [NL] @ ''GET a'' @ [NL], ''OK'' @ [NL] @ ''VALUE 1'' @ [NL], AwaitRead, [])],
           [(0, ''SET a 1'', ''OK'' @ [NL]), (0, ''GET a'', ''VALUE 1'' @ [NL])])"
    using example_run by (rule map_option_SomeE)
  show ?thesis by (rule that [OF run_events_reachable [OF run server_start] view])
qed

lemma example_conns:
  assumes "view s = ([(rc, st, ph, ib)], lg)"
  shows "length (conns s) = 1" "received (conns s ! 0) = rc" "sent (conns s ! 0) = st"
    "phase_of (conns s ! 0) = ph" "log s = lg"
  using assms by (auto simp: view_def map_eq_Cons_conv)

subsection \<open>Properties\<close>

text \<open>
  C19: Commands of all connections are executed one at a time: in every reachable state the store and
  every response sent or still to be sent are those of running all executed lines in log order on
  the empty store, and each connection executed its own lines in its own order.
\<close>
theorem tcp_log_is_sequential:
  assumes "server_reachable server_fd s" and "i < length (conns s)"
  shows "serve_all (log_lines s) empty_store = (log_responses s, kv s)
       \<and> executed (conns s ! i) = log_of i s
       \<and> prefix (sent (conns s ! i)) (concat (map snd (log_of i s)))"
proof -
  have inv: "server_inv server_fd s" by (rule server_reachable_inv [OF assms(1)])
  then have "conn_ok (conns s ! i)" "executed (conns s ! i) = log_of i s"
    using assms(2) by (simp_all add: server_inv_def)
  with conn_ok_butlast [of "conns s ! i"] inv show ?thesis by (simp add: server_inv_def answers_def)
qed

theorem tcp_log_is_sequential_witness:
  "\<exists>s. server_reachable 3 s \<and> log s = [(0, ''SET a 1'', ''OK'' @ [NL]), (0, ''GET a'', ''VALUE 1'' @ [NL])]
     \<and> serve_all (log_lines s) empty_store = (log_responses s, kv s)"
proof -
  obtain s where r: "server_reachable 3 s"
    and v: "view s = ([(''SET a 1'' @ [NL] @ ''GET a'' @ [NL], ''OK'' @ [NL] @ ''VALUE 1'' @ [NL], AwaitRead, [])],
           [(0, ''SET a 1'', ''OK'' @ [NL]), (0, ''GET a'', ''VALUE 1'' @ [NL])])"
    by (rule example_state)
  note c = example_conns [OF v]
  have "0 < length (conns s)" using c(1) by simp
  note run = tcp_log_is_sequential [OF r this, THEN conjunct1]
  show ?thesis by (rule exI [of _ s]) (intro conjI r c(5) run)
qed

text \<open>
  C20: What a lone client is sent depends only on the concatenation of what it sent, not on how the
  kernel cut the bytes or interrupted the calls: the output is always a prefix of the answers due to
  its complete lines up to the first \<open>QUIT\<close>, and all of them once the server waits for input again.
\<close>
theorem tcp_output_independent_of_chunking:
  assumes "server_reachable server_fd s" and "i < length (conns s)" and "\<forall>e\<in>set (log s). fst e = i"
  shows "prefix (sent (conns s ! i)) (due (received (conns s ! i)) empty_store)
       \<and> (phase_of (conns s ! i) = AwaitRead \<longrightarrow> sent (conns s ! i) = due (received (conns s ! i)) empty_store)"
proof -
  let ?c = "conns s ! i"
  have inv: "server_inv server_fd s" by (rule server_reachable_inv [OF assms(1)])
  then have ok: "conn_ok ?c" using assms(2) by (simp add: server_inv_def)
  then have lines: "lines_of (received ?c) = map fst (executed ?c) @ lines_of (inbound ?c)"
    by (simp add: conn_ok_def stream_ok_def consumed_def lines_of_consumed)
  note ans = sole_client_answers [OF inv assms(2,3)]
  have "prefix (answers ?c) (due (received ?c) empty_store)"
    unfolding ans due_def lines
    by (intro serve_all_prefix until_quit_prefix conn_ok_butlast [OF ok, THEN conjunct1])
  moreover have "sent ?c = due (received ?c) empty_store" if "phase_of ?c = AwaitRead"
  proof -
    have "sent ?c = answers ?c" "no_quit (executed ?c)" "lines_of (inbound ?c) = []"
      using ok that by (simp_all add: conn_ok_def lines_of_rest)
    then show ?thesis
      using until_quit_append [of "executed ?c" "[]"] by (simp add: ans due_def lines)
  qed
  ultimately show ?thesis using conn_ok_butlast [OF ok] prefix_order.trans by blast
qed

theorem tcp_output_independent_of_chunking_witness:
  "due (''SET a 1'' @ [NL] @ ''GET a'' @ [NL]) empty_store = ''OK'' @ [NL] @ ''VALUE 1'' @ [NL]"
proof -
  obtain s where r: "server_reachable 3 s"
    and v: "view s = ([(''SET a 1'' @ [NL] @ ''GET a'' @ [NL], ''OK'' @ [NL] @ ''VALUE 1'' @ [NL], AwaitRead, [])],
           [(0, ''SET a 1'', ''OK'' @ [NL]), (0, ''GET a'', ''VALUE 1'' @ [NL])])"
    by (rule example_state)
  note c = example_conns [OF v]
  have "0 < length (conns s)" "\<forall>e\<in>set (log s). fst e = 0" using c by simp_all
  from tcp_output_independent_of_chunking [OF r this] show ?thesis using c by simp
qed

text \<open>
  While the server waits for more input from a connection, every complete line it has received
  has been answered and at most an incomplete line is buffered.
\<close>
theorem tcp_waits_only_when_drained:
  assumes "server_reachable server_fd s" and "i < length (conns s)" and "phase_of (conns s ! i) = AwaitRead"
  shows "NL \<notin> set (inbound (conns s ! i))
       \<and> received (conns s ! i) = concat (map (\<lambda>e. fst e @ [NL]) (log_of i s)) @ inbound (conns s ! i)
       \<and> sent (conns s ! i) = concat (map snd (log_of i s))"
  using server_reachable_inv [OF assms(1)] assms(2,3)
  by (auto simp: server_inv_def conn_ok_def stream_ok_def consumed_def answers_def)

theorem tcp_waits_only_when_drained_witness:
  "\<exists>s. server_reachable 3 s \<and> sent (conns s ! 0) = ''OK'' @ [NL] @ ''VALUE 1'' @ [NL]
     \<and> concat (map snd (log_of 0 s)) = ''OK'' @ [NL] @ ''VALUE 1'' @ [NL]"
proof -
  obtain s where r: "server_reachable 3 s"
    and v: "view s = ([(''SET a 1'' @ [NL] @ ''GET a'' @ [NL], ''OK'' @ [NL] @ ''VALUE 1'' @ [NL], AwaitRead, [])],
           [(0, ''SET a 1'', ''OK'' @ [NL]), (0, ''GET a'', ''VALUE 1'' @ [NL])])"
    by (rule example_state)
  note c = example_conns [OF v]
  have "0 < length (conns s)" using c by simp
  from tcp_waits_only_when_drained [OF r this c(4)] r c(3) show ?thesis by (intro exI [of _ s]) simp
qed

text \<open>
  Descriptors: in every reachable state the open descriptors are exactly the listening socket
  and one per connection that is not closed, all different. So a closed connection's descriptor is
  closed (no leak), no descriptor is closed twice, and a reused number belongs to one connection.
\<close>
theorem tcp_descriptors_owned_once:
  assumes "server_reachable server_fd s"
  shows "open_fds s = set (live_fds server_fd (conns s)) \<and> distinct (live_fds server_fd (conns s))"
  using server_reachable_inv [OF assms] by (simp add: server_inv_def)

theorem tcp_descriptors_owned_once_witness:
  "\<exists>s. server_reachable 3 s \<and> length (conns s) = 1 \<and> open_fds s = set (live_fds 3 (conns s))"
proof -
  obtain s where r: "server_reachable 3 s"
    and v: "view s = ([(''SET a 1'' @ [NL] @ ''GET a'' @ [NL], ''OK'' @ [NL] @ ''VALUE 1'' @ [NL], AwaitRead, [])],
           [(0, ''SET a 1'', ''OK'' @ [NL]), (0, ''GET a'', ''VALUE 1'' @ [NL])])"
    by (rule example_state)
  show ?thesis using tcp_descriptors_owned_once [OF r] r example_conns(1) [OF v] by blast
qed

text \<open>
  One visit of the inner loop to \<open>recv\<close>: the results that keep it there (data, interruptions) and the
  bytes they bring.
\<close>

definition keeps_reading :: "recv_result \<Rightarrow> bool" where
  "keeps_reading r = (case r of RecvData bytes \<Rightarrow> bytes \<noteq> [] \<and> length bytes \<le> 4096 | RecvEintr \<Rightarrow> True | _ \<Rightarrow> False)"

definition recv_bytes :: "recv_result list \<Rightarrow> string" where
  "recv_bytes rs = concat (map (\<lambda>r. case r of RecvData bytes \<Rightarrow> bytes | _ \<Rightarrow> []) rs)"

definition recvs_of :: "nat \<Rightarrow> recv_result list \<Rightarrow> server_event list" where
  "recvs_of i rs = map (\<lambda>r. EvClient i (Recv r)) rs"

lemma run_events_append:
  "run_events (xs @ ys) s = (case run_events xs s of None \<Rightarrow> None | Some s \<Rightarrow> run_events ys s)"
  by (induction xs arbitrary: s) (auto split: option.split)

lemma recvs_only_buffer:
  assumes "i < length (conns s)" and "phase_of (conns s ! i) = AtRecv" and "\<forall>r\<in>set rs. keeps_reading r"
  shows "run_events (recvs_of i rs) s = Some (s\<lparr>conns := (conns s)[i := (conns s ! i)
      \<lparr>inbound := inbound (conns s ! i) @ recv_bytes rs, received := received (conns s ! i) @ recv_bytes rs\<rparr>]\<rparr>)"
  using assms
proof (induction rs arbitrary: s)
  case Nil
  then show ?case by (simp add: recvs_of_def recv_bytes_def)
next
  case (Cons r rs)
  let ?b = "case r of RecvData bytes \<Rightarrow> bytes | _ \<Rightarrow> []"
  let ?s = "s\<lparr>conns := (conns s)[i := (conns s ! i)\<lparr>inbound := inbound (conns s ! i) @ ?b, received := received (conns s ! i) @ ?b\<rparr>]\<rparr>"
  have step: "run_event (EvClient i (Recv r)) s = Some ?s"
    using Cons.prems by (auto simp: conn_step_def keeps_reading_def split: recv_result.splits)
  have "run_events (recvs_of i rs) ?s = Some (?s\<lparr>conns := (conns ?s)[i := (conns ?s ! i)
      \<lparr>inbound := inbound (conns ?s ! i) @ recv_bytes rs, received := received (conns ?s ! i) @ recv_bytes rs\<rparr>]\<rparr>)"
    using Cons.prems by (intro Cons.IH) simp_all
  then show ?case using step Cons.prems(1) by (simp add: recvs_of_def recv_bytes_def)
qed

text \<open>
  C38: The end-of-stream path drops work. Take any connection at \<open>recv\<close>, in any state of the server,
  and any further data (cut in any way, with any interruptions) that completes a line. If the next
  \<open>recv\<close> reports the end of the stream, the connection is closed with nothing executed, the store,
  the log and every other connection unchanged and no byte sent, whatever commands are buffered; if
  it reports that the socket is empty, the first of the very same lines is executed on the store.
\<close>
theorem tcp_eof_drops_buffered_commands:
  assumes "i < length (conns s)" and "phase_of (conns s ! i) = AtRecv" and "\<forall>r\<in>set rs. keeps_reading r"
    and "find_char NL (inbound (conns s ! i) @ recv_bytes rs) = Some n"
  shows "(\<exists>s'. run_events (recvs_of i (rs @ [RecvEof])) s = Some s' \<and> kv s' = kv s \<and> log s' = log s
        \<and> conns s' = (conns s)[i := (conns s ! i)\<lparr>inbound := inbound (conns s ! i) @ recv_bytes rs,
            received := received (conns s ! i) @ recv_bytes rs, phase_of := Closed\<rparr>])
     \<and> (\<exists>s' line response quit. line = take n (inbound (conns s ! i) @ recv_bytes rs)
        \<and> run_events (recvs_of i (rs @ [RecvAgain])) s = Some s'
        \<and> serve_line (kv s) line = (response, quit, kv s') \<and> log s' = log s @ [(i, line, response)]
        \<and> phase_of (conns s' ! i) = AtSend response 0 quit)"
proof -
  have split: "recvs_of i (rs @ [r]) = recvs_of i rs @ recvs_of i [r]" for r by (simp add: recvs_of_def)
  note run = recvs_only_buffer [OF assms(1-3)]
  obtain response quit store' where line: "serve_line (kv s) (take n (inbound (conns s ! i) @ recv_bytes rs)) = (response, quit, store')"
    by (rule prod_cases3)
  show ?thesis
    using assms(1,2,4) line
    by (simp add: split run_events_append run) (simp add: recvs_of_def conn_step_def process_lines_step)
qed

theorem tcp_eof_drops_buffered_commands_witness:
  "\<exists>s s'. server_reachable 3 s \<and> run_events (recvs_of 0 [RecvData (''SET a 1'' @ [NL] @ ''GET a'' @ [NL]), RecvEof]) s = Some s'
     \<and> kv s' = empty_store \<and> sent (conns s' ! 0) = [] \<and> phase_of (conns s' ! 0) = Closed
     \<and> due (received (conns s' ! 0)) empty_store \<noteq> []"
proof -
  let ?text = "''SET a 1'' @ [NL] @ ''GET a'' @ [NL]"
  let ?s = "(server_init 3)\<lparr>accepting := AtAccept, conns := [new_conn 7], open_fds := {7, 3}\<rparr>"
  have run: "run_events [EvListen, EvAccept (Accepted 7 True)] (server_init 3) = Some ?s" by (simp add: server_init_def)
  have conn: "conns ?s ! 0 = new_conn 7" by simp
  have line: "find_char NL (inbound (conns ?s ! 0) @ recv_bytes [RecvData ?text]) = Some 7"
    by (simp add: new_conn_def recv_bytes_def)
  have reads: "\<forall>r\<in>set [RecvData ?text]. keeps_reading r" by (simp add: keeps_reading_def)
  have due: "due ?text empty_store \<noteq> []" by code_simp
  from tcp_eof_drops_buffered_commands [OF _ _ reads line] obtain s' where
    "run_events (recvs_of 0 [RecvData ?text, RecvEof]) ?s = Some s'" "kv s' = kv ?s"
    "conns s' = (conns ?s)[0 := (conns ?s ! 0)\<lparr>inbound := inbound (conns ?s ! 0) @ recv_bytes [RecvData ?text],
            received := received (conns ?s ! 0) @ recv_bytes [RecvData ?text], phase_of := Closed\<rparr>]"
    by (auto simp: new_conn_def)
  moreover from this(3) have "conns s' ! 0 = (new_conn 7)\<lparr>inbound := ?text, received := ?text, phase_of := Closed\<rparr>"
    by (simp add: conn new_conn_def recv_bytes_def)
  ultimately show ?thesis
    using run_events_reachable [OF run server_start] due
    by (intro exI [of _ ?s] exI [of _ s'])  (simp add: server_init_def new_conn_def)
qed

end
