(* ===== verification/SimKernel.thy ===== *)
theory SimKernel
  imports SocketLaws "HOL-Library.AList"
begin

section \<open>A simulated kernel\<close>

text \<open>
  A concrete \<open>kernel\<close> for the socket laws: descriptors are numbered upwards from 3, ports can be
  taken, addresses can refuse, hosts resolve to fixed candidate lists. What \<open>send\<close> and \<open>recv\<close> do to
  the connection is a parameter, so a peer can be put behind it.
\<close>

record 'x ksim =
  ks_socks :: "(int \<times> sock) list"
  ks_lists :: nat
  ks_hosts :: "(string \<times> addrinfo list) list"
  ks_dead :: "string list"
  ks_taken :: "u16 list"
  ks_conn :: 'x

definition ks_table :: "'x ksim \<Rightarrow> int \<Rightarrow> sock option" where
  "ks_table w = map_of (ks_socks w)"

definition ks_fresh :: "'x ksim \<Rightarrow> int" where
  "ks_fresh w = fold max (map fst (ks_socks w)) 2 + 1"

definition ks_open :: "addr_family \<Rightarrow> 'x ksim \<Rightarrow> int \<times> 'x ksim" where
  "ks_open fam w = (ks_fresh w, w\<lparr>ks_socks := AList.update (ks_fresh w) (new_sock fam 2) (ks_socks w)\<rparr>)"

definition ks_set :: "(sock \<Rightarrow> sock) \<Rightarrow> bool \<Rightarrow> int \<Rightarrow> 'x ksim \<Rightarrow> int \<times> 'x ksim" where
  "ks_set f allowed fd w =
     (case ks_table w fd of
        None \<Rightarrow> (-1, w)
      | Some s \<Rightarrow> if allowed then (0, w\<lparr>ks_socks := AList.update fd (f s) (ks_socks w)\<rparr>) else (-1, w))"

definition ks_io :: "('x \<Rightarrow> 'r \<times> 'x) \<Rightarrow> 'x ksim \<Rightarrow> 'r \<times> 'x ksim" where
  "ks_io f w = (let (r, x) = f (ks_conn w) in (r, w\<lparr>ks_conn := x\<rparr>))"

definition sim_kernel :: "(string \<Rightarrow> 'x \<Rightarrow> write_result \<times> 'x) \<Rightarrow> (nat \<Rightarrow> 'x \<Rightarrow> read_result \<times> 'x) \<Rightarrow> 'x ksim kernel" where
  "sim_kernel snd_x rcv_x = \<lparr>
     sys_socket = (\<lambda>fam ty pr. ks_open fam),
     sys_reuseaddr = (\<lambda>fd v. ks_set (\<lambda>s. s\<lparr>sk_reuse := (v \<noteq> 0)\<rparr>) True fd),
     sys_bind = (\<lambda>fd sa w. ks_set (\<lambda>s. s\<lparr>sk_bound := Some sa\<rparr>) (sin_port sa \<notin> set (ks_taken w)) fd w),
     sys_listen = (\<lambda>fd n. ks_set (\<lambda>s. s\<lparr>sk_backlog := Some n\<rparr>) True fd),
     sys_connect = (\<lambda>fd a w. ks_set (\<lambda>s. s\<lparr>sk_peer := Some a\<rparr>) (a \<notin> set (ks_dead w)) fd w),
     sys_accept = (\<lambda>fd w. let (c, w) = ks_open AF_INET w in (AcceptedFd c, w)),
     sys_getfl = (\<lambda>fd w. (case ks_table w fd of None \<Rightarrow> -1 | Some s \<Rightarrow> sk_flags s, w)),
     sys_setfl = (\<lambda>fd n. ks_set (\<lambda>s. s\<lparr>sk_flags := n\<rparr>) True fd),
     sys_close = (\<lambda>fd w. w\<lparr>ks_socks := AList.delete fd (ks_socks w)\<rparr>),
     sys_getaddrinfo = (\<lambda>h p fam ty w.
       (case map_of (ks_hosts w) h of
          None \<Rightarrow> ((-2, []), w)
        | Some l \<Rightarrow> ((0, l), w\<lparr>ks_lists := Suc (ks_lists w)\<rparr>))),
     sys_freeaddrinfo = (\<lambda>l w. w\<lparr>ks_lists := ks_lists w - 1\<rparr>),
     sys_recv = (\<lambda>fd n. ks_io (rcv_x n)),
     sys_send = (\<lambda>fd bs. ks_io (snd_x bs)),
     sys_read = (\<lambda>fd n. ks_io (rcv_x n)),
     sys_write = (\<lambda>fd bs. ks_io (snd_x bs))\<rparr>"

lemma fold_max_ge: "(a::int) \<le> fold max xs a \<and> (\<forall>x\<in>set xs. x \<le> fold max xs a)"
proof (induction xs arbitrary: a)
  case (Cons x xs)
  from Cons [of "max x a"] show ?case by auto
qed simp

lemma ks_fresh: "3 \<le> ks_fresh w" "ks_table w (ks_fresh w) = None"
proof -
  note ge = fold_max_ge [of 2 "map fst (ks_socks w)"]
  show "3 \<le> ks_fresh w" using ge by (simp add: ks_fresh_def)
  show "ks_table w (ks_fresh w) = None"
    using ge by (force simp: ks_table_def map_of_eq_None_iff ks_fresh_def)
qed

lemma ks_open_opens: "ks_open fam w = (fd, w') \<Longrightarrow> 0 \<le> fd \<and> opens ks_table fd w w' \<and> ks_lists w' = ks_lists w"
  using ks_fresh [of w]
  by (auto simp: ks_open_def opens_def ks_table_def update_conv' intro!: exI [of _ "2::int"])

lemma ks_set_sets: "sets ks_table ks_lists fd f w (ks_set f allowed fd w)"
  by (auto simp: sets_def ks_set_def ks_table_def update_conv' split: option.split)

lemma sim_kernel_table: "kernel_table (sim_kernel snd_x rcv_x) ks_table ks_lists"
  unfolding kernel_table_def
  by (auto simp: sim_kernel_def ks_set_sets ks_table_def delete_conv' Let_def
      split: option.split prod.split dest!: ks_open_opens)

end
