(* ===== verification/TcpSession.thy ===== *)
theory TcpSession
  imports TcpClient TcpServerProps SimKernel
begin

section \<open>Client and server together\<close>

text \<open>
  What a client is due from a connection of the server in a settled state, and the model of the
  server's connection handler behind a simulated connection, on which \<open>line_service\<close> is interpreted;
  and the lemmas on the server's progress towards answering what it has received.
\<close>

subsection \<open>Responses are single lines\<close>

definition plain_store :: "KeyValueStore \<Rightarrow> bool" where
  "plain_store store \<longleftrightarrow> (\<forall>k v. kv_map store k = Some v \<longrightarrow> NL \<notin> set v)"

lemma tolower_NL: "tolower c = NL \<longleftrightarrow> c = NL"
proof -
  have "(of_char (tolower c) :: nat) = 10 \<longleftrightarrow> (of_char c :: nat) = 10"
    by (auto simp: tolower_def Let_def)
  moreover have "x = NL \<longleftrightarrow> (of_char x :: nat) = 10" for x
    using of_char_eq_iff [of x NL, where 'a = nat] by simp
  ultimately show ?thesis by simp
qed

lemma lower_copy_NL: "NL \<in> set (lower_copy s) \<longleftrightarrow> NL \<in> set s"
proof -
  have "NL \<in> set (lower_copy s) \<longleftrightarrow> (\<exists>c\<in>set s. tolower c = NL)" by (simp add: lower_copy_def image_iff eq_commute [of NL])
  then show ?thesis by (simp add: tolower_NL)
qed

lemma parse_words_plain:
  assumes "NL \<notin> set command" and "NL \<notin> set remainder"
  shows "NL \<notin> set (req_value (parse_words command remainder)) \<and> NL \<notin> set (req_error (parse_words command remainder))"
  using assms set_trim_left_subset [of "drop (Suc n) remainder" for n]
  by (auto simp: parse_words_def split: option.split dest: in_set_dropD set_trim_left_subset [THEN subsetD])

lemma parse_request_plain:
  assumes "NL \<notin> set line"
  shows "NL \<notin> set (req_value (parse_request line)) \<and> NL \<notin> set (req_error (parse_request line))"
proof -
  have t: "NL \<notin> set (trim line)" using assms set_trim_subset [of line] by auto
  show ?thesis
  proof (cases line rule: parse_request_cases)
    case (args n)
    have "NL \<notin> set (take n (trim line))" using t by (auto dest: in_set_takeD)
    moreover have "NL \<notin> set (trim_left (drop (Suc n) (trim line)))"
      using t set_trim_left_subset [of "drop (Suc n) (trim line)"] by (auto dest: in_set_dropD)
    ultimately show ?thesis unfolding args(4) by (intro parse_words_plain) (simp_all add: lower_copy_NL)
  qed (use t in \<open>simp_all add: parse_words_plain lower_copy_NL\<close>)
qed

lemma handle_request_plain:
  assumes "plain_store store" and "NL \<notin> set (req_value request)" and "NL \<notin> set (req_error request)"
    and "handle_request store request = (response, store')"
  shows "NL \<notin> set (response_body response) \<and> plain_store store'"
  using assms
  by (auto simp: handle_request_def plain_store_def kv_get_map Let_def split: RequestType.splits option.splits prod.splits if_splits)
    (metis fun_upd_apply kv_erase_map option.distinct(1) snd_conv)+

lemma serve_line_one:
  assumes "serve_line store line = (r, q, store')" and "plain_store store" and "NL \<notin> set line"
  obtains resp where "r = resp @ [NL]" and "NL \<notin> set resp" and "plain_store store'" and "q = quit_line line"
proof -
  obtain response where h: "handle_request store (parse_request line) = (response, store')" and r: "r = serialize_response response"
    using assms(1) by (auto simp: serve_line_def Let_def split: prod.splits)
  note p = parse_request_plain [OF assms(3)]
  note one = handle_request_plain [OF assms(2) p [THEN conjunct1] p [THEN conjunct2] h]
  show ?thesis
    by (rule that [of "response_body response"])
      (use one r serve_line_response [OF assms(1)] in \<open>simp_all add: serialize_body\<close>)
qed

lemma serve_all_plain:
  "plain_store store \<Longrightarrow> \<forall>l\<in>set ls. NL \<notin> set l \<Longrightarrow> plain_store (snd (serve_all ls store))"
proof (induction ls arbitrary: store)
  case (Cons l ls)
  obtain r q store1 where s: "serve_line store l = (r, q, store1)" by (cases "serve_line store l")
  from s Cons.prems(1) have "plain_store store1" by (rule serve_line_one) (use Cons.prems in simp_all)
  with Cons show ?case by (simp add: s prod.case_eq_if)
qed simp

subsection \<open>The far end as a function of the bytes sent\<close>

text \<open>The streams after which the server still answers: complete lines without a \<open>QUIT\<close>.\<close>

definition line_stream :: "string list \<Rightarrow> string" where
  "line_stream ls = concat (map (\<lambda>l. l @ [NL]) ls)"

definition answering :: "string \<Rightarrow> bool" where
  "answering s \<longleftrightarrow> (\<exists>ls. s = line_stream ls \<and> (\<forall>l\<in>set ls. NL \<notin> set l \<and> \<not> quit_line l))"

lemma lines_of_stream: "\<forall>l\<in>set ls. NL \<notin> set l \<Longrightarrow> lines_of (line_stream ls @ rest) = ls @ lines_of rest"
  by (induction ls) (simp_all add: line_stream_def lines_of_line)

lemma until_quit_none: "\<forall>l\<in>set ls. \<not> quit_line l \<Longrightarrow> until_quit (ls @ ms) = ls @ until_quit ms"
  by (induction ls) simp_all

lemma due_line:
  assumes "\<forall>l\<in>set ls. NL \<notin> set l \<and> \<not> quit_line l" and "NL \<notin> set line"
  shows "due (line_stream ls @ line @ [NL]) store
       = due (line_stream ls) store @ fst (serve_line (snd (serve_all ls store)) line)"
proof -
  have "lines_of (line_stream ls @ line @ [NL]) = ls @ [line]"
    using lines_of_stream [of ls "line @ [NL]"] lines_of_line [OF assms(2), of "[]"] lines_of_rest [of "[]"] assms(1) by simp
  moreover have "lines_of (line_stream ls) = ls"
    using lines_of_stream [of ls "[]"] lines_of_rest [of "[]"] assms(1) by simp
  moreover have "until_quit (ls @ [line]) = ls @ [line]" "until_quit ls = ls"
    using until_quit_none [of ls "[line]"] until_quit_none [of ls "[]"] assms(1) by simp_all
  ultimately show ?thesis by (simp add: due_def serve_all_append split: prod.split)
qed

lemma answering_line:
  assumes "plain_store store" and "answering s" and "NL \<notin> set line"
  shows "\<exists>resp. NL \<notin> set resp \<and> due (s @ line @ [NL]) store = due s store @ resp @ [NL]"
proof -
  obtain ls where s: "s = line_stream ls" and ls: "\<forall>l\<in>set ls. NL \<notin> set l \<and> \<not> quit_line l"
    using assms(2) by (auto simp: answering_def)
  obtain r q store' where one: "serve_line (snd (serve_all ls store)) line = (r, q, store')"
    by (cases "serve_line (snd (serve_all ls store)) line")
  have "plain_store (snd (serve_all ls store))" using serve_all_plain [OF assms(1)] ls by blast
  with one obtain resp where "r = resp @ [NL]" "NL \<notin> set resp" by (rule serve_line_one) (use assms(3) in simp_all)
  then show ?thesis using due_line [OF ls assms(3), of store] by (simp add: s one)
qed

lemma answering_Nil [simp]: "answering []"
  by (auto simp: answering_def line_stream_def intro: exI [of _ "[]"])

lemma answering_more:
  assumes "answering s" and "NL \<notin> set line" and "\<not> quit_line line"
  shows "answering (s @ line @ [NL])"
proof -
  obtain ls where "s = line_stream ls" "\<forall>l\<in>set ls. NL \<notin> set l \<and> \<not> quit_line l" using assms(1) by (auto simp: answering_def)
  then show ?thesis unfolding answering_def
    by (intro exI [of _ "ls @ [line]"]) (use assms in \<open>auto simp: line_stream_def\<close>)
qed

subsection \<open>Running one connection until it waits or ends\<close>

text \<open>\<open>flush\<close>: the kernel takes every response whole.\<close>

definition send_rest :: "conn \<times> KeyValueStore \<Rightarrow> (conn \<times> KeyValueStore) option" where
  "send_rest cs =
     (case phase_of (fst cs) of
        AtSend serialized offset quit \<Rightarrow> client_step (Send (SendBytes (length serialized - offset))) cs
      | _ \<Rightarrow> None)"

lemma process_lines_shrinks:
  "phase_of (fst (process_lines (c, store))) = AwaitRead
   \<or> length (inbound (fst (process_lines (c, store)))) < length (inbound c)"
  by (auto simp: process_lines_step split: option.splits prod.splits dest: find_char_Some_iff [THEN iffD1])

lemma send_rest_shrinks:
  assumes "send_rest cs = Some cs'"
  shows "(case phase_of (fst cs') of AtSend s k q \<Rightarrow> length (inbound (fst cs')) < length (inbound (fst cs)) | _ \<Rightarrow> True)"
proof (cases "phase_of (fst cs)")
  case (AtSend s k q)
  obtain c store where cs: "cs = (c, store)" by (cases cs)
  show ?thesis
    using assms AtSend process_lines_shrinks [of "c\<lparr>sent := sent c @ drop k s\<rparr>" store]
    by (auto simp: cs send_rest_def Let_def split: phase.splits if_splits)
qed (use assms in \<open>simp_all add: send_rest_def\<close>)

function flush :: "conn \<times> KeyValueStore \<Rightarrow> conn \<times> KeyValueStore" where
  "flush cs = (case send_rest cs of None \<Rightarrow> cs | Some cs' \<Rightarrow> flush cs')"
  by pat_completeness auto
termination
proof (relation "measure (\<lambda>cs. 2 * length (inbound (fst cs)) + (case phase_of (fst cs) of AtSend s k q \<Rightarrow> 1 | _ \<Rightarrow> 0))")
  fix cs cs' assume step: "send_rest cs = Some cs'"
  then have "case phase_of (fst cs) of AtSend s k q \<Rightarrow> True | _ \<Rightarrow> False"
    by (auto simp: send_rest_def split: phase.splits)
  moreover have "length (inbound (fst cs')) \<le> length (inbound (fst cs))"
    using step by (cases cs) (auto simp: send_rest_def process_lines_step Let_def
        split: phase.splits if_splits option.splits prod.splits)
  ultimately show "(cs', cs) \<in> measure (\<lambda>cs. 2 * length (inbound (fst cs)) + (case phase_of (fst cs) of AtSend s k q \<Rightarrow> 1 | _ \<Rightarrow> 0))"
    using send_rest_shrinks [OF step] by (auto split: phase.splits)
qed simp

declare flush.simps [simp del]

subsection \<open>What flushing achieves\<close>

definition ends_quit :: "conn \<Rightarrow> bool" where
  "ends_quit c \<longleftrightarrow> executed c \<noteq> [] \<and> quit_line (fst (last (executed c)))"

text \<open>A response flagged as the last one is that of a \<open>QUIT\<close>.\<close>

definition quit_ok :: "conn \<Rightarrow> bool" where
  "quit_ok c \<longleftrightarrow> (case phase_of c of AtSend s k q \<Rightarrow> q \<longrightarrow> ends_quit c | AwaitWrite s k q \<Rightarrow> q \<longrightarrow> ends_quit c | _ \<Rightarrow> True)"

definition replays :: "conn \<times> KeyValueStore \<Rightarrow> conn \<times> KeyValueStore \<Rightarrow> bool" where
  "replays = (\<lambda>(c, store) (c', store'). \<exists>new. executed c' = executed c @ new
     \<and> serve_all (map fst new) store = (map snd new, store'))"

lemma replays_refl [simp]: "replays cs cs"
  by (cases cs) (simp add: replays_def)

lemma replays_trans: "replays a b \<Longrightarrow> replays b c \<Longrightarrow> replays a c"
  by (cases a; cases b; cases c) (auto simp: replays_def serve_all_append)

lemma client_step_replays: "client_step ev cs = Some cs' \<Longrightarrow> replays cs cs'"
proof -
  assume "client_step ev cs = Some cs'"
  then have "client_step ev (fst cs, snd cs) = Some (fst cs', snd cs')" by simp
  from client_step_executes [OF this] show ?thesis by (cases cs; cases cs') (auto simp: replays_def)
qed

lemma process_lines_facts:
  "quit_ok (fst (process_lines (c, store))) \<and> received (fst (process_lines (c, store))) = received c
   \<and> (case phase_of (fst (process_lines (c, store))) of AtSend s k q \<Rightarrow> True | AwaitRead \<Rightarrow> True | _ \<Rightarrow> False)"
  by (auto simp: process_lines_step quit_ok_def ends_quit_def split: option.splits prod.splits dest: serve_line_response)

lemma client_step_quit_ok:
  assumes "client_step ev (c, store) = Some (c', store')" and "quit_ok c"
  shows "quit_ok c'"
proof -
  have process: "quit_ok c2" if "process_lines (c1, store) = (c2, store2)" for c1 c2 store2
    using process_lines_facts [of c1 store] that by simp
  show ?thesis
    using assms
    by (auto simp: Let_def quit_ok_def ends_quit_def
        split: phase.splits os_event.splits recv_result.splits send_result.splits if_splits
        dest: process [unfolded quit_ok_def ends_quit_def])
qed

definition settled :: "conn \<Rightarrow> bool" where
  "settled c \<longleftrightarrow> phase_of c = AwaitRead \<or> phase_of c = Closed \<and> sent c = answers c \<and> ends_quit c"

definition sending :: "conn \<Rightarrow> bool" where
  "sending c \<longleftrightarrow> (case phase_of c of AtSend s k q \<Rightarrow> True | _ \<Rightarrow> False)"

lemma send_rest_facts:
  assumes step: "send_rest (c, store) = Some (c', store')" and "conn_ok c" and "quit_ok c"
  shows "conn_ok c' \<and> quit_ok c' \<and> received c' = received c \<and> (settled c' \<or> sending c') \<and> replays (c, store) (c', store')"
proof (cases "phase_of c")
  case (AtSend s k q)
  then have cl: "client_step (Send (SendBytes (length s - k))) (c, store) = Some (c', store')"
    using step by (simp add: send_rest_def)
  have ok: "conn_ok c'" "quit_ok c'" "replays (c, store) (c', store')"
    using client_step_ok [OF cl assms(2)] client_step_quit_ok [OF cl assms(3)] client_step_replays [OF cl] by simp_all
  have off: "k < length s" "sent c @ drop k s = answers c" using assms(2) AtSend by (simp_all add: conn_ok_def)
  show ?thesis
  proof (cases q)
    case True
    then have "c' = c\<lparr>sent := sent c @ drop k s, phase_of := Closed\<rparr>" using cl AtSend off by (auto simp: Let_def)
    moreover have "ends_quit c" using assms(3) AtSend True by (simp add: quit_ok_def)
    ultimately show ?thesis using ok off by (simp add: settled_def ends_quit_def answers_def)
  next
    case False
    then have "c' = fst (process_lines (c\<lparr>sent := sent c @ drop k s\<rparr>, store))"
      using cl AtSend off by (cases "process_lines (c\<lparr>sent := sent c @ drop k s\<rparr>, store)") (simp add: Let_def)
    with process_lines_facts [of "c\<lparr>sent := sent c @ drop k s\<rparr>" store] ok show ?thesis
      by (auto simp: settled_def sending_def split: phase.splits)
  qed
qed (use step in \<open>simp_all add: send_rest_def\<close>)

lemma sending_send_rest: "conn_ok (fst cs) \<Longrightarrow> sending (fst cs) \<Longrightarrow> send_rest cs \<noteq> None"
  by (cases cs) (auto simp: send_rest_def sending_def conn_ok_def Let_def split: phase.splits)

lemma flush_facts:
  "conn_ok (fst cs) \<Longrightarrow> quit_ok (fst cs) \<Longrightarrow> settled (fst cs) \<or> sending (fst cs) \<Longrightarrow>
     conn_ok (fst (flush cs)) \<and> quit_ok (fst (flush cs)) \<and> received (fst (flush cs)) = received (fst cs)
     \<and> settled (fst (flush cs)) \<and> replays cs (flush cs)"
proof (induction cs rule: flush.induct)
  case (1 cs)
  show ?case
  proof (cases "send_rest cs")
    case None
    then have "flush cs = cs" by (simp add: flush.simps)
    moreover have "settled (fst cs)" using None 1(2,4) sending_send_rest by blast
    ultimately show ?thesis using 1 by simp
  next
    case (Some cs')
    have "send_rest (fst cs, snd cs) = Some (fst cs', snd cs')" using Some by simp
    from send_rest_facts [OF this 1(2,3)]
    have f: "conn_ok (fst cs') \<and> quit_ok (fst cs') \<and> received (fst cs') = received (fst cs)
        \<and> (settled (fst cs') \<or> sending (fst cs')) \<and> replays cs cs'" by simp
    with 1(1) [OF Some] have "conn_ok (fst (flush cs')) \<and> quit_ok (fst (flush cs')) \<and> received (fst (flush cs')) = received (fst cs)
        \<and> settled (fst (flush cs')) \<and> replays cs' (flush cs')" by simp
    moreover have "flush cs = flush cs'" using Some by (simp add: flush.simps)
    ultimately show ?thesis using f replays_trans by metis
  qed
qed

text \<open>Bytes arriving at a connection that waits for them.\<close>

definition deliver :: "string \<Rightarrow> conn \<times> KeyValueStore \<Rightarrow> conn \<times> KeyValueStore" where
  "deliver bs cs =
     (case Option.bind (client_step Readable cs) (client_step (Recv (RecvData bs))) of
        None \<Rightarrow> cs
      | Some cs' \<Rightarrow> (case client_step (Recv RecvAgain) cs' of None \<Rightarrow> cs | Some cs'' \<Rightarrow> flush cs''))"

lemma deliver_facts:
  assumes "conn_ok c" and "quit_ok c" and "phase_of c = AwaitRead" and "bs \<noteq> []" and "length bs \<le> 4096"
  shows "conn_ok (fst (deliver bs (c, store))) \<and> quit_ok (fst (deliver bs (c, store)))
       \<and> received (fst (deliver bs (c, store))) = received c @ bs
       \<and> settled (fst (deliver bs (c, store))) \<and> replays (c, store) (deliver bs (c, store))"
proof -
  let ?c1 = "c\<lparr>phase_of := AtRecv\<rparr>"
  let ?c2 = "?c1\<lparr>inbound := inbound c @ bs, received := received c @ bs\<rparr>"
  let ?cs = "process_lines (?c2, store)"
  have s1: "client_step Readable (c, store) = Some (?c1, store)" using assms(3) by simp
  have s2: "client_step (Recv (RecvData bs)) (?c1, store) = Some (?c2, store)" using assms(4,5) by simp
  have s3: "client_step (Recv RecvAgain) (?c2, store) = Some (fst ?cs, snd ?cs)" by simp
  have "conn_ok ?c2" by (rule client_step_ok [OF s2 client_step_ok [OF s1 assms(1)]])
  with s3 have ok: "conn_ok (fst ?cs)" by (rule client_step_ok)
  note f = process_lines_facts [of ?c2 store]
  have "settled (fst ?cs) \<or> sending (fst ?cs)" using f by (auto simp: settled_def sending_def split: phase.splits)
  note fl = flush_facts [OF ok conjunct1 [OF f] this]
  have r12: "replays (c, store) (?c2, store)"
    by (rule replays_trans [OF client_step_replays [OF s1] client_step_replays [OF s2]])
  have "replays (c, store) ?cs" using replays_trans [OF r12 client_step_replays [OF s3]] by simp
  then have "replays (c, store) (flush ?cs)" by (rule replays_trans) (use fl in blast)
  moreover have "deliver bs (c, store) = flush ?cs" using s1 s2 s3 by (simp add: deliver_def del: client_step.simps)
  moreover have "received (fst ?cs) = received c @ bs" using f by simp
  ultimately show ?thesis using fl by simp
qed

subsection \<open>The server behind a simulated connection\<close>

text \<open>\<open>peer_chunks\<close> is the schedule: 0 interrupts the call, a positive number bounds how much it moves.\<close>

record peer =
  peer_conn :: conn
  peer_store :: KeyValueStore
  peer_sent :: string
  peer_got :: string
  peer_chunks :: "nat list"

definition peer_accept :: "string \<Rightarrow> peer \<Rightarrow> peer" where
  "peer_accept bs x =
     (if phase_of (peer_conn x) = AwaitRead then
        x\<lparr>peer_conn := fst (deliver bs (peer_conn x, peer_store x)),
          peer_store := snd (deliver bs (peer_conn x, peer_store x)), peer_sent := peer_sent x @ bs\<rparr>
      else x\<lparr>peer_sent := peer_sent x @ bs\<rparr>)"

definition peer_send :: "string \<Rightarrow> peer \<Rightarrow> write_result \<times> peer" where
  "peer_send bs x =
     (case peer_chunks x of
        [] \<Rightarrow> (let k = min 4096 (length bs) in (Wrote k, peer_accept (take k bs) x))
      | n # ns \<Rightarrow>
          if n = 0 then (WriteFail EINTR, x\<lparr>peer_chunks := ns\<rparr>)
          else let k = min n (min 4096 (length bs)) in (Wrote k, peer_accept (take k bs) (x\<lparr>peer_chunks := ns\<rparr>)))"

definition peer_coming :: "peer \<Rightarrow> string" where
  "peer_coming x = drop (length (peer_got x)) (sent (peer_conn x))"

definition peer_recv :: "nat \<Rightarrow> peer \<Rightarrow> read_result \<times> peer" where
  "peer_recv n x =
     (if peer_coming x = [] \<or> n = 0 then (ReadEof, x)
      else case peer_chunks x of
        0 # ns \<Rightarrow> (ReadFail EINTR, x\<lparr>peer_chunks := ns\<rparr>)
      | _ \<Rightarrow> (ReadBytes (take n (peer_coming x)), x\<lparr>peer_got := peer_got x @ take n (peer_coming x)\<rparr>))"

abbreviation peer_kernel :: "peer ksim kernel" where
  "peer_kernel \<equiv> sim_kernel peer_send peer_recv"

text \<open>The server has consumed what was sent, or has ended with a \<open>QUIT\<close>.\<close>

definition peer_ok :: "KeyValueStore \<Rightarrow> peer \<Rightarrow> bool" where
  "peer_ok st0 x \<longleftrightarrow>
     conn_ok (peer_conn x) \<and> quit_ok (peer_conn x) \<and> settled (peer_conn x)
     \<and> serve_all (map fst (executed (peer_conn x))) st0 = (map snd (executed (peer_conn x)), peer_store x)
     \<and> (if phase_of (peer_conn x) = AwaitRead then received (peer_conn x) = peer_sent x
        else prefix (received (peer_conn x)) (peer_sent x))
     \<and> prefix (peer_got x) (sent (peer_conn x))"

lemma ends_quit_until:
  assumes "ends_quit c" and "no_quit (butlast (executed c))"
  shows "until_quit (map fst (executed c) @ ls) = map fst (executed c)"
proof -
  obtain es e where "executed c = es @ [e]" "quit_line (fst e)"
    using assms(1) by (cases "executed c" rule: rev_cases) (auto simp: ends_quit_def)
  with assms(2) until_quit_append [of es "fst e # ls"] show ?thesis by simp
qed

lemma settled_due:
  assumes ok: "conn_ok c" and "settled c" and run: "serve_all (map fst (executed c)) st0 = (map snd (executed c), st1)"
    and "if phase_of c = AwaitRead then received c = input else prefix (received c) input"
  shows "sent c = due input st0"
proof -
  have ans: "answers c = concat (fst (serve_all (map fst (executed c)) st0))" by (simp add: run answers_def)
  obtain more where more: "input = received c @ more" using assms(4) by (auto simp: prefix_def split: if_splits)
  have lines: "lines_of input = map fst (executed c) @ lines_of (inbound c @ more)"
    using ok by (simp add: more conn_ok_def stream_ok_def consumed_def lines_of_consumed)
  show ?thesis
  proof (cases "phase_of c = AwaitRead")
    case True
    then have "more = []" "sent c = answers c" "no_quit (executed c)" "NL \<notin> set (inbound c)"
      using assms more by (simp_all add: conn_ok_def)
    then show ?thesis using until_quit_append [of "executed c" "[]"]
      by (simp add: due_def lines lines_of_rest ans)
  next
    case False
    then have "sent c = answers c" "ends_quit c" using assms(2) by (simp_all add: settled_def)
    then show ?thesis using ends_quit_until [of c] conn_ok_butlast [OF ok] by (simp add: due_def lines ans)
  qed
qed

lemma peer_ok_due: "peer_ok st0 x \<Longrightarrow> sent (peer_conn x) = due (peer_sent x) st0"
  by (rule settled_due) (simp_all add: peer_ok_def)

lemma peer_ok_got:
  assumes "peer_ok st0 x"
  obtains rest where "sent (peer_conn x) = peer_got x @ rest"
  using assms by (simp add: peer_ok_def prefix_def) blast

lemma peer_ok_prefix: "peer_ok st0 x \<Longrightarrow> peer_got x @ peer_coming x = due (peer_sent x) st0"
  by (rule peer_ok_got [of st0 x]) (simp_all add: peer_ok_due [symmetric] peer_coming_def)

lemma peer_accept_ok:
  assumes ok: "peer_ok st0 x" and "bs \<noteq> []" and "length bs \<le> 4096"
  shows "peer_ok st0 (peer_accept bs x)" "peer_sent (peer_accept bs x) = peer_sent x @ bs" "peer_got (peer_accept bs x) = peer_got x"
proof -
  show "peer_sent (peer_accept bs x) = peer_sent x @ bs" "peer_got (peer_accept bs x) = peer_got x"
    by (simp_all add: peer_accept_def)
  show "peer_ok st0 (peer_accept bs x)"
  proof (cases "phase_of (peer_conn x) = AwaitRead")
    case True
    let ?c = "peer_conn x" and ?d = "deliver bs (peer_conn x, peer_store x)"
    have c: "conn_ok ?c" "quit_ok ?c" "settled ?c" "received ?c = peer_sent x" "prefix (peer_got x) (sent ?c)"
      "serve_all (map fst (executed ?c)) st0 = (map snd (executed ?c), peer_store x)"
      using ok True by (simp_all add: peer_ok_def)
    note d = deliver_facts [OF c(1,2) True assms(2,3), of "peer_store x"]
    obtain new where new: "executed (fst ?d) = executed ?c @ new" "serve_all (map fst new) (peer_store x) = (map snd new, snd ?d)"
      using d by (auto simp: replays_def split: prod.splits)
    have "answers (fst ?d) = answers ?c @ concat (map snd new)" by (simp add: answers_def new)
    moreover have "sent (fst ?d) = answers (fst ?d)" "sent ?c = answers ?c"
      using d c True by (auto simp: settled_def conn_ok_def)
    ultimately have "prefix (peer_got x) (sent (fst ?d))" using c(5) by (simp add: prefix_prefix)
    then show ?thesis using d c new True by (simp add: peer_ok_def peer_accept_def serve_all_append)
  next
    case False
    then show ?thesis using ok by (auto simp: peer_ok_def peer_accept_def prefix_def)
  qed
qed

lemma peer_ok_chunks [simp]: "peer_ok st0 (x\<lparr>peer_chunks := ns\<rparr>) = peer_ok st0 x"
  by (simp add: peer_ok_def)

lemma peer_send_law:
  "send_law (\<lambda>w. peer_ok st0 (ks_conn w)) (\<lambda>w bs. sys_send peer_kernel fd bs w) (\<lambda>w. peer_sent (ks_conn w))
     (\<lambda>w. length (peer_chunks (ks_conn w))) (\<lambda>w. peer_got (ks_conn w))"
  unfolding send_law_def
proof (intro allI impI)
  fix bs :: string and w :: "peer ksim"
  assume ok: "peer_ok st0 (ks_conn w)" and bs: "bs \<noteq> []"
  have acc: "peer_ok st0 (peer_accept (take k bs) x) \<and> peer_sent (peer_accept (take k bs) x) = peer_sent x @ take k bs
      \<and> peer_got (peer_accept (take k bs) x) = peer_got x" if "peer_ok st0 x" "0 < k" "k \<le> 4096" for k x
    using peer_accept_ok [OF that(1), of "take k bs"] bs that by simp
  show "case sys_send peer_kernel fd bs w of
        (Wrote n, w') \<Rightarrow> peer_ok st0 (ks_conn w') \<and> peer_got (ks_conn w') = peer_got (ks_conn w) \<and> 0 < n \<and> n \<le> length bs
          \<and> peer_sent (ks_conn w') = peer_sent (ks_conn w) @ take n bs
      | (WriteFail e, w') \<Rightarrow> peer_ok st0 (ks_conn w') \<and> peer_got (ks_conn w') = peer_got (ks_conn w)
          \<and> peer_sent (ks_conn w') = peer_sent (ks_conn w)
          \<and> (e = EINTR \<longrightarrow> length (peer_chunks (ks_conn w')) < length (peer_chunks (ks_conn w)))"
    using ok bs
    by (auto simp: sim_kernel_def ks_io_def peer_send_def Let_def acc split: list.split)
qed

lemma peer_recv_law:
  "recv_law (\<lambda>w. peer_ok st0 (ks_conn w)) (\<lambda>w n. sys_recv peer_kernel fd n w) (\<lambda>w. peer_coming (ks_conn w))
     (\<lambda>w. length (peer_chunks (ks_conn w))) (\<lambda>w. peer_sent (ks_conn w))"
proof -
  have got: "peer_ok st0 (x\<lparr>peer_got := peer_got x @ take n (peer_coming x)\<rparr>)
      \<and> peer_coming x = take n (peer_coming x) @ peer_coming (x\<lparr>peer_got := peer_got x @ take n (peer_coming x)\<rparr>)"
    if "peer_ok st0 x" for x n
  proof -
    obtain rest where rest: "sent (peer_conn x) = peer_got x @ rest" using peer_ok_got [OF \<open>peer_ok st0 x\<close>] by blast
    then have "prefix (peer_got x @ take n (peer_coming x)) (sent (peer_conn x))"
      by (simp add: peer_coming_def take_is_prefix)
    with that show ?thesis by (auto simp: peer_ok_def peer_coming_def rest min_def)
  qed
  have chunks: "peer_coming (x\<lparr>peer_chunks := ns\<rparr>) = peer_coming x" for x ns by (simp add: peer_coming_def)
  show ?thesis
    unfolding recv_law_def
    using got
    by (auto simp: sim_kernel_def ks_io_def peer_recv_def chunks split: list.split nat.split)
qed

lemma peer_reliable:
  "send_reliable (\<lambda>w. peer_ok st0 (ks_conn w)) (\<lambda>w bs. sys_send peer_kernel fd bs w)"
  "recv_reliable (\<lambda>w. peer_ok st0 (ks_conn w)) (\<lambda>w n. sys_recv peer_kernel fd n w) (\<lambda>w. peer_coming (ks_conn w))"
  by (auto simp: send_reliable_def recv_reliable_def sim_kernel_def ks_io_def peer_send_def peer_recv_def Let_def
      split: list.splits nat.splits if_splits)

text \<open>A store whose values are single lines, as any sequence of commands produces.\<close>

definition tame :: "KeyValueStore \<Rightarrow> KeyValueStore" where
  "tame store = (if plain_store store then store else empty_store)"

lemma plain_tame: "plain_store (tame store)"
  by (simp add: tame_def plain_store_def)

interpretation session: line_service peer_kernel fd "\<lambda>w. peer_ok (tame st0) (ks_conn w)"
    "\<lambda>w. peer_sent (ks_conn w)" "\<lambda>w. peer_got (ks_conn w)" "\<lambda>w. peer_coming (ks_conn w)"
    "\<lambda>w. length (peer_chunks (ks_conn w))" "\<lambda>s. due s (tame st0)" answering
  for fd st0
  by unfold_locales
    (use peer_send_law peer_recv_law peer_reliable peer_ok_prefix answering_line [OF plain_tame] answering_more in blast)+

end
