(* ===== verification/TcpSessionProps.thy ===== *)
theory TcpSessionProps
  imports TcpSession
begin

section \<open>Properties of client and server together\<close>

text \<open>
  The user of \<open>src/client/main.cpp\<close> sees the answers of the server's command handler, whatever the
  connection does to the bytes; and the server of \<open>src/server/main.cpp\<close> can always answer what it
  has received.
\<close>

subsection \<open>What the user should see\<close>

fun dialogue :: "string list \<Rightarrow> KeyValueStore \<Rightarrow> string list" where
  "dialogue [] store = [''> '']"
| "dialogue (line # stdin) store =
     ''> '' # (if line = [] then dialogue stdin store
               else (let (r, quit, store) = serve_line store line in
                 filter (\<lambda>c. c \<noteq> CR) r # (if quit then [] else dialogue stdin store)))"

lemma transcript_dialogue:
  assumes L: "line_service K fd good sent_bytes got coming patience (\<lambda>s. due s store) answering"
    and "\<forall>l\<in>set ls. NL \<notin> set l \<and> \<not> quit_line l" and "\<forall>line\<in>set stdin. NL \<notin> set line"
  shows "line_service.transcript (\<lambda>s. due s store) (line_stream ls) stdin = dialogue stdin (snd (serve_all ls store))"
  using assms(2,3)
proof (induction stdin arbitrary: ls)
  case Nil
  then show ?case by (simp add: line_service.transcript.simps [OF L])
next
  case (Cons line stdin)
  let ?st = "snd (serve_all ls store)"
  obtain r q st1 where one: "serve_line ?st line = (r, q, st1)" by (cases "serve_line ?st line")
  have q: "q = quit_line line" using serve_line_response [OF one] by simp
  have nl: "NL \<notin> set line" using Cons.prems by simp
  have resp: "line_service.response (\<lambda>s. due s store) (line_stream ls) line = filter (\<lambda>c. c \<noteq> CR) r"
    using due_line [OF Cons.prems(1) nl, of store] by (simp add: line_service.response_def [OF L] one)
  have more: "line_stream ls @ line @ [NL] = line_stream (ls @ [line])" by (simp add: line_stream_def)
  have st1: "snd (serve_all (ls @ [line]) store) = st1" by (simp add: serve_all_append one prod.case_eq_if)
  show ?case
  proof (cases "line = [] \<or> quit_line line")
    case True
    then show ?thesis
      using Cons.IH [OF Cons.prems(1)] Cons.prems(2) by (auto simp: line_service.transcript.simps [OF L] one q resp)
  next
    case False
    have "line_service.transcript (\<lambda>s. due s store) (line_stream (ls @ [line])) stdin = dialogue stdin st1"
      using Cons.IH [of "ls @ [line]"] Cons.prems False st1 by simp
    then show ?thesis using False by (simp add: line_service.transcript.simps [OF L] one q resp more)
  qed
qed

subsection \<open>The server at the far end\<close>

text \<open>
  A client that has sent \<open>input\<close> is due \<open>output\<close> from connection \<open>i\<close> of the server, which has got through
  the input (it waits for more, or has answered a \<open>QUIT\<close>). \<open>s\<close> is any reachable state of the server:
  however the bytes were cut, whatever calls were interrupted, partial or suspended. The other
  clients' commands, which have left \<open>store\<close>, came before.
\<close>

definition far_end :: "nat \<Rightarrow> nat \<Rightarrow> KeyValueStore \<Rightarrow> string \<Rightarrow> string \<Rightarrow> bool" where
  "far_end server_fd i store input output \<longleftrightarrow>
     (\<exists>s others. server_reachable server_fd s \<and> i < length (conns s) \<and> settled (conns s ! i)
        \<and> log s = others @ map (\<lambda>e. (i, e)) (executed (conns s ! i))
        \<and> snd (serve_all (map (\<lambda>e. fst (snd e)) others) empty_store) = store
        \<and> (if phase_of (conns s ! i) = AwaitRead then received (conns s ! i) = input
           else prefix (received (conns s ! i)) input)
        \<and> output = sent (conns s ! i))"

lemma log_lines_plain:
  assumes "server_inv server_fd s"
  shows "\<forall>l\<in>set (log_lines s). NL \<notin> set l"
proof (intro ballI)
  fix l assume "l \<in> set (log_lines s)"
  then obtain i r where e: "(i, l, r) \<in> set (log s)" by (auto simp: log_lines_def)
  then have i: "i < length (conns s)" using assms by (auto simp: server_inv_def)
  then have "executed (conns s ! i) = log_of i s" "stream_ok (conns s ! i)" using assms by (simp_all add: server_inv_def conn_ok_def)
  moreover have "(l, r) \<in> set (log_of i s)" using e by (force simp: log_of_def)
  ultimately show "NL \<notin> set l" by (force simp: stream_ok_def)
qed

lemma far_end_due:
  assumes "far_end server_fd i store input output"
  shows "output = due input store" and "plain_store store"
proof -
  obtain s others where s: "server_reachable server_fd s" "i < length (conns s)" "settled (conns s ! i)"
      "log s = others @ map (\<lambda>e. (i, e)) (executed (conns s ! i))"
      "snd (serve_all (map (\<lambda>e. fst (snd e)) others) empty_store) = store"
    and io: "if phase_of (conns s ! i) = AwaitRead then received (conns s ! i) = input else prefix (received (conns s ! i)) input"
      "output = sent (conns s ! i)"
    using assms unfolding far_end_def by blast
  have inv: "server_inv server_fd s" by (rule server_reachable_inv [OF s(1)])
  let ?c = "conns s ! i" and ?before = "map (\<lambda>e. fst (snd e)) others"
  have "serve_all (?before @ map fst (executed ?c)) empty_store = (map (\<lambda>e. snd (snd e)) others @ map snd (executed ?c), kv s)"
    using inv s(4) by (simp add: server_inv_def log_lines_def log_responses_def comp_def)
  moreover obtain rs where rs: "serve_all ?before empty_store = (rs, store)" using s(5) by (metis prod.collapse)
  moreover obtain rs' st where rs': "serve_all (map fst (executed ?c)) store = (rs', st)" by (metis prod.collapse)
  moreover have "length rs = length others" using length_serve_all [of ?before empty_store] rs by simp
  ultimately have "serve_all (map fst (executed ?c)) store = (map snd (executed ?c), kv s)"
    by (simp add: serve_all_append append_eq_append_conv)
  moreover have "conn_ok ?c" using inv s(2) by (simp add: server_inv_def)
  ultimately show "output = due input store" using settled_due [OF _ s(3)] io by simp
  have "plain_store empty_store" by (simp add: plain_store_def)
  moreover have "\<forall>l\<in>set ?before. NL \<notin> set l"
    using log_lines_plain [OF inv] by (simp add: log_lines_def s(4))
  ultimately show "plain_store store" unfolding s(5) [symmetric] by (rule serve_all_plain)
qed

text \<open>Setting up the connection does not touch what goes over it.\<close>

lemma ks_socket_conn:
  "ks_conn (snd (sys_socket (sim_kernel f g) fam ty pr w)) = ks_conn w"
  "ks_conn (snd (sys_connect (sim_kernel f g) fd a w)) = ks_conn w"
  "ks_conn (close_socket (sim_kernel f g) fd w) = ks_conn w"
  by (simp_all add: sim_kernel_def ks_open_def ks_set_def close_socket_def split: option.split)

lemma try_candidates_conn: "ks_conn (snd (try_candidates (sim_kernel f g) cands fd w)) = ks_conn w"
proof (induction cands arbitrary: fd w)
  case (Cons cand cands)
  obtain c w1 where s: "sys_socket (sim_kernel f g) (ai_family cand) (ai_socktype cand) (ai_protocol cand) w = (c, w1)"
    by (cases "sys_socket (sim_kernel f g) (ai_family cand) (ai_socktype cand) (ai_protocol cand) w")
  obtain r w2 where co: "sys_connect (sim_kernel f g) c (ai_addr cand) w1 = (r, w2)"
    by (cases "sys_connect (sim_kernel f g) c (ai_addr cand) w1")
  have "ks_conn w1 = ks_conn w" "ks_conn w2 = ks_conn w1"
    using ks_socket_conn(1) [of f g "ai_family cand" "ai_socktype cand" "ai_protocol cand" w]
      ks_socket_conn(2) [of f g c "ai_addr cand" w1] by (simp_all add: s co)
  then show ?case by (simp add: s co Cons ks_socket_conn)
qed simp

lemma create_client_socket_conn: "ks_conn (snd (create_client_socket (sim_kernel f g) host port w)) = ks_conn w"
  using try_candidates_conn [of f g]
  by (auto simp: create_client_socket_def sim_kernel_def prod.case_eq_if split: option.split)

subsection \<open>Progress\<close>

lemma reachable_quit_ok: "server_reachable server_fd s \<Longrightarrow> \<forall>c\<in>set (conns s). quit_ok c"
proof (induction rule: server_reachable.induct)
  case (server_next s s')
  from server_next(2) show ?case
  proof (cases rule: server_step.cases)
    case (accept r)
    with server_next(3) show ?thesis
      by (cases r) (auto simp: new_conn_def quit_ok_def split: if_splits)
  next
    case (client i ev)
    then obtain c store where i: "i < length (conns s)" and c: "client_step ev (conns s ! i, kv s) = Some (c, store)"
      and s': "conns s' = (conns s)[i := c]"
      by (auto simp: conn_step_def Let_def split: if_splits option.splits)
    have "quit_ok c" by (rule client_step_quit_ok [OF c]) (use server_next(3) i in simp)
    with server_next(3) show ?thesis by (auto simp: s' dest: set_update_subset_insert [THEN subsetD])
  qed (use server_next(3) in simp)
qed (simp add: server_init_def)

text \<open>\<open>s'\<close> is reached from \<open>s\<close> by steps of connection \<open>i\<close> alone, which is then \<open>cs\<close>.\<close>

definition conn_reaches :: "nat \<Rightarrow> server \<Rightarrow> conn \<times> KeyValueStore \<Rightarrow> server \<Rightarrow> bool" where
  "conn_reaches i s cs s' \<longleftrightarrow> server_step\<^sup>*\<^sup>* s s' \<and> conns s' = (conns s)[i := fst cs] \<and> kv s' = snd cs"

lemma conn_reaches_step:
  assumes "i < length (conns s)" and "client_step ev (conns s ! i, kv s) = Some cs"
  obtains s' where "conn_reaches i s cs s'"
proof -
  obtain c store where cs: "cs = (c, store)" by (cases cs)
  obtain s' where step: "conn_step i ev s = Some s'" "conns s' = (conns s)[i := c]" "kv s' = store"
    using assms by (simp add: conn_step_def cs Let_def)
  then show ?thesis using that [of s'] by (auto simp: conn_reaches_def cs intro: r_into_rtranclp server_step.client)
qed

lemma conn_reaches_trans:
  "conn_reaches i s cs s' \<Longrightarrow> conn_reaches i s' cs' s'' \<Longrightarrow> conn_reaches i s cs' s''"
  by (auto simp: conn_reaches_def)

lemma conn_reaches_self: "conn_reaches i s (conns s ! i, kv s) s"
  by (simp add: conn_reaches_def)

lemma flush_reaches:
  "i < length (conns s) \<Longrightarrow> cs = (conns s ! i, kv s) \<Longrightarrow> \<exists>s'. conn_reaches i s (flush cs) s'"
proof (induction cs arbitrary: s rule: flush.induct)
  case (1 cs)
  show ?case
  proof (cases "send_rest cs")
    case None
    then have "flush cs = (conns s ! i, kv s)" using 1(3) by (subst flush.simps) simp
    then show ?thesis using conn_reaches_self by metis
  next
    case (Some cs')
    then obtain ev where "client_step ev (conns s ! i, kv s) = Some cs'"
      using 1(3) by (auto simp: send_rest_def simp del: client_step.simps split: phase.splits)
    with 1(2) obtain s1 where s1: "conn_reaches i s cs' s1" by (rule conn_reaches_step)
    then have "i < length (conns s1)" "cs' = (conns s1 ! i, kv s1)" using 1(2) by (simp_all add: conn_reaches_def)
    from 1(1) [OF Some this] obtain s2 where "conn_reaches i s1 (flush cs') s2" by blast
    moreover have "flush cs = flush cs'" using Some by (subst flush.simps) simp
    ultimately show ?thesis using conn_reaches_trans [OF s1] by metis
  qed
qed

text \<open>One step brings an open connection to a place from which flushing settles it.\<close>

lemma open_conn_step:
  assumes "conn_ok c" and "quit_ok c" and "phase_of c \<noteq> Closed"
  shows "settled c \<or> sending c
       \<or> (\<exists>ev cs. client_step ev (c, store) = Some cs \<and> received (fst cs) = received c \<and> (settled (fst cs) \<or> sending (fst cs)))"
proof (cases "phase_of c")
  case AtRecv
  have "client_step (Recv RecvAgain) (c, store) = Some (process_lines (c, store))" using AtRecv by simp
  moreover have "settled (fst (process_lines (c, store))) \<or> sending (fst (process_lines (c, store)))"
    "received (fst (process_lines (c, store))) = received c"
    using process_lines_facts [of c store] by (auto simp: settled_def sending_def split: phase.splits)
  ultimately show ?thesis by blast
next
  case (AwaitWrite r k q)
  then have "client_step Writable (c, store) = Some (c\<lparr>phase_of := AtSend r k q\<rparr>, store)" by simp
  then show ?thesis by (intro disjI2 exI conjI) (auto simp: sending_def)
qed (use assms in \<open>simp_all add: settled_def sending_def\<close>)

lemma open_conn_reaches:
  assumes reach: "server_reachable server_fd s" and i: "i < length (conns s)" and "phase_of (conns s ! i) \<noteq> Closed"
  obtains s' where "server_step\<^sup>*\<^sup>* s s'" and "conns s' = (conns s)[i := conns s' ! i]"
    and "settled (conns s' ! i)" and "received (conns s' ! i) = received (conns s ! i)"
proof -
  let ?c = "conns s ! i"
  have ok: "conn_ok ?c" "quit_ok ?c"
    using server_reachable_inv [OF reach] reachable_quit_ok [OF reach] i by (simp_all add: server_inv_def)
  obtain cs s1 where s1: "conn_reaches i s cs s1" and mid: "settled (fst cs) \<or> sending (fst cs)" "received (fst cs) = received ?c"
    and cok: "conn_ok (fst cs)" "quit_ok (fst cs)"
  proof (cases "settled ?c \<or> sending ?c")
    case True
    then show thesis using that [OF conn_reaches_self] ok by simp
  next
    case False
    with open_conn_step [OF ok assms(3), of "kv s"] obtain ev cs where step: "client_step ev (?c, kv s) = Some cs"
      and f: "received (fst cs) = received ?c" "settled (fst cs) \<or> sending (fst cs)" by blast
    from step have step': "client_step ev (?c, kv s) = Some (fst cs, snd cs)" by simp
    obtain s1 where "conn_reaches i s cs s1" by (rule conn_reaches_step [OF i step])
    then show thesis using that f client_step_ok [OF step' ok(1)] client_step_quit_ok [OF step' ok(2)] by blast
  qed
  have "i < length (conns s1)" "cs = (conns s1 ! i, kv s1)" using s1 i by (simp_all add: conn_reaches_def)
  from flush_reaches [OF this] obtain s2 where "conn_reaches i s1 (flush cs) s2" by blast
  then have s2: "conn_reaches i s (flush cs) s2" by (rule conn_reaches_trans [OF s1])
  note fl = flush_facts [OF cok mid(1)]
  show ?thesis
    by (rule that [of s2]) (use s2 fl mid(2) i in \<open>auto simp: conn_reaches_def\<close>)
qed

lemma reaches_reachable: "server_step\<^sup>*\<^sup>* s s' \<Longrightarrow> server_reachable server_fd s \<Longrightarrow> server_reachable server_fd s'"
  by (induction rule: rtranclp_induct) (auto intro: server_next)

subsection \<open>Properties\<close>

text \<open>
  C23: End to end over TCP: the interactive client, connected to the server, shows for each command
  the user types the answer of the server's command handler on the store as it then stands, in order,
  up to \<open>QUIT\<close> or the end of the input, and exits successfully. Every carriage return is removed from
  the answers. The kernel is any one that carries the bytes as a stream: it may cut the transfers of
  either side and interrupt the calls of either side finitely often, but it does not fail, and it
  delivers to the client what the server, in any of its reachable states, has for it; no other client
  executes a command during the session.
\<close>
theorem client_session_shows_server_answers:
  assumes "send_law good (\<lambda>w bs. sys_send K fd bs w) sent_bytes patience got" and "send_reliable good (\<lambda>w bs. sys_send K fd bs w)"
    and "recv_law good (\<lambda>w n. sys_recv K fd n w) coming patience sent_bytes" and "recv_reliable good (\<lambda>w n. sys_recv K fd n w) coming"
    and far: "\<And>w. good w \<Longrightarrow> far_end server_fd i store (sent_bytes w) (got w @ coming w)"
    and "create_client_socket K host 9090 w = (fd, w0)" and "fd \<ge> 0" and "good w0" and "sent_bytes w0 = []"
    and "\<forall>line\<in>set stdin. NL \<notin> set line"
  shows "\<exists>w'. client_main K [host] stdin w =
    Some (EXIT_SUCCESS, [''connected to '' @ host @ '':9090'' @ [NL],
      ''type commands like: SET key value | GET key | DEL key | QUIT'' @ [NL]] @ dialogue stdin store, w')"
proof -
  let ?banner = "[''connected to '' @ host @ '':9090'' @ [NL],
      ''type commands like: SET key value | GET key | DEL key | QUIT'' @ [NL]]"
  have plain: "plain_store store" using far_end_due(2) [OF far [OF assms(8)]] .
  have L: "line_service K fd good sent_bytes got coming patience (\<lambda>s. due s store) answering"
    by unfold_locales (use assms(1-4) far_end_due(1) [OF far] answering_line [OF plain] answering_more in blast)+
  have "got w0 @ coming w0 = due [] store" using far_end_due(1) [OF far [OF assms(8)]] assms(9) by simp
  then have "line_service.idle good sent_bytes coming answering w0"
    using assms(8,9) by (simp add: line_service.idle_def [OF L] due_def lines_of_rest)
  from line_service.client_loop_transcript [OF L this assms(10), of ?banner]
  obtain w' where "client_loop K fd stdin ?banner w0 = Some (?banner @ dialogue stdin store, w')"
    using transcript_dialogue [OF L, of "[]" stdin] assms(9,10) by (auto simp: line_stream_def)
  moreover have "to_string 9090 = ''9090''" by (simp add: to_string.simps digit_char_def char_of_def bit_Suc_0_iff)
  ultimately have "client_main K [host] stdin w = Some (EXIT_SUCCESS, ?banner @ dialogue stdin store, close_socket K fd w')"
    using assms(6,7) by (simp add: client_main_def to_port_def)
  then show ?thesis by (rule exI)
qed

text \<open>The simulated connection: behind it is a reachable state of the server.\<close>

definition peer_live :: "peer \<Rightarrow> bool" where
  "peer_live x \<longleftrightarrow> (\<exists>s. server_reachable 3 s \<and> conns s = [peer_conn x] \<and> kv s = peer_store x)"

lemma deliver_reaches:
  assumes "i < length (conns s)" and "phase_of (conns s ! i) = AwaitRead" and "bs \<noteq> []" and "length bs \<le> 4096"
  shows "\<exists>s'. conn_reaches i s (deliver bs (conns s ! i, kv s)) s'"
proof -
  let ?c = "conns s ! i"
  let ?c1 = "?c\<lparr>phase_of := AtRecv\<rparr>"
  let ?c2 = "?c1\<lparr>inbound := inbound ?c @ bs, received := received ?c @ bs\<rparr>"
  let ?cs = "process_lines (?c2, kv s)"
  have s1: "client_step Readable (?c, kv s) = Some (?c1, kv s)" using assms(2) by simp
  have s2: "client_step (Recv (RecvData bs)) (?c1, kv s) = Some (?c2, kv s)" using assms(3,4) by simp
  have s3: "client_step (Recv RecvAgain) (?c2, kv s) = Some ?cs" by simp
  have moved: "i < length (conns t) \<and> cs = (conns t ! i, kv t)" if "conn_reaches i u cs t" "i < length (conns u)" for u cs t
    using that by (simp add: conn_reaches_def)
  obtain t1 where t1: "conn_reaches i s (?c1, kv s) t1" by (rule conn_reaches_step [OF assms(1) s1])
  note i1 = moved [OF t1 assms(1)]
  then have "client_step (Recv (RecvData bs)) (conns t1 ! i, kv t1) = Some (?c2, kv s)" using s2 by (simp only: i1 [THEN conjunct2, symmetric])
  then obtain t2 where t2: "conn_reaches i t1 (?c2, kv s) t2" using conn_reaches_step i1 by blast
  note i2 = moved [OF t2 i1 [THEN conjunct1]]
  then have "client_step (Recv RecvAgain) (conns t2 ! i, kv t2) = Some ?cs" using s3 by (simp only: i2 [THEN conjunct2, symmetric])
  then obtain t3 where t3: "conn_reaches i t2 ?cs t3" using conn_reaches_step i2 by blast
  note i3 = moved [OF t3 i2 [THEN conjunct1]]
  then obtain t4 where t4: "conn_reaches i t3 (flush ?cs) t4" using flush_reaches by blast
  have "deliver bs (?c, kv s) = flush ?cs" using s1 s2 s3 by (simp add: deliver_def del: client_step.simps)
  then show ?thesis using conn_reaches_trans [OF conn_reaches_trans [OF conn_reaches_trans [OF t1 t2] t3] t4] by auto
qed

lemma peer_accept_live:
  assumes "peer_live x" and "bs \<noteq> []" and "length bs \<le> 4096"
  shows "peer_live (peer_accept bs x)"
proof (cases "phase_of (peer_conn x) = AwaitRead")
  case True
  obtain s where s: "server_reachable 3 s" "conns s = [peer_conn x]" "kv s = peer_store x" using assms(1) by (auto simp: peer_live_def)
  obtain s' where "conn_reaches 0 s (deliver bs (peer_conn x, peer_store x)) s'"
    using deliver_reaches [of 0 s bs] assms(2,3) s True by auto
  then have "server_reachable 3 s'" "conns s' = [fst (deliver bs (peer_conn x, peer_store x))]" "kv s' = snd (deliver bs (peer_conn x, peer_store x))"
    using s reaches_reachable [of s s' 3] by (auto simp: conn_reaches_def)
  then show ?thesis using True by (auto simp: peer_live_def peer_accept_def)
qed (use assms(1) in \<open>simp add: peer_live_def peer_accept_def\<close>)

lemma peer_live_more [simp]:
  "peer_live (x\<lparr>peer_chunks := ns\<rparr>) = peer_live x" "peer_live (x\<lparr>peer_got := g\<rparr>) = peer_live x"
  by (simp_all add: peer_live_def)

lemma peer_calls_live:
  "peer_live x \<Longrightarrow> bs \<noteq> [] \<Longrightarrow> peer_live (snd (peer_send bs x))"
  "peer_live x \<Longrightarrow> peer_live (snd (peer_recv n x))"
  by (cases bs; auto simp: peer_send_def peer_recv_def Let_def intro!: peer_accept_live split: list.split nat.split)+

lemma peer_far_end:
  assumes "peer_ok empty_store x" and "peer_live x"
  shows "far_end 3 0 empty_store (peer_sent x) (peer_got x @ peer_coming x)"
proof -
  obtain s where s: "server_reachable 3 s" "conns s = [peer_conn x]" using assms(2) by (auto simp: peer_live_def)
  have inv: "server_inv 3 s" by (rule server_reachable_inv [OF s(1)])
  then have only: "\<forall>e\<in>set (log s). fst e = 0" and ex: "executed (peer_conn x) = map snd (filter (\<lambda>e. fst e = 0) (log s))"
    by (auto simp: server_inv_def s(2) log_of_def)
  have "filter (\<lambda>e. fst e = 0) (log s) = log s" using only by (simp add: filter_id_conv)
  then have "map (\<lambda>e. (0, e)) (executed (peer_conn x)) = log s"
    using only by (simp add: ex) (auto intro!: map_idI)
  moreover have "peer_got x @ peer_coming x = sent (peer_conn x)" using peer_ok_prefix [OF assms(1)] peer_ok_due [OF assms(1)] by simp
  ultimately show ?thesis
    unfolding far_end_def by (intro exI [of _ s] exI [of _ "[]"]) (use assms(1) s in \<open>auto simp: peer_ok_def\<close>)
qed

definition start_peer :: "KeyValueStore \<Rightarrow> nat list \<Rightarrow> peer" where
  "start_peer store ns = \<lparr>peer_conn = (new_conn 7)\<lparr>phase_of := AwaitRead\<rparr>, peer_store = store, peer_sent = [],
     peer_got = [], peer_chunks = ns\<rparr>"

lemma start_peer_ok: "peer_ok store (start_peer store ns)"
  by (simp add: start_peer_def peer_ok_def new_conn_def conn_ok_def stream_ok_def
      quit_ok_def settled_def answers_def consumed_def no_quit_def)

lemma start_peer_live: "peer_live (start_peer empty_store ns)"
proof -
  let ?s = "(server_init 3)\<lparr>accepting := AtAccept, conns := [(new_conn 7)\<lparr>phase_of := AwaitRead\<rparr>], open_fds := {7, 3}\<rparr>"
  have "run_events [EvListen, EvAccept (Accepted 7 True), EvClient 0 (Recv RecvAgain)] (server_init 3) = Some ?s"
    by (simp add: server_init_def conn_step_def new_conn_def process_lines_step)
  from run_events_reachable [OF this server_start] have "server_reachable 3 ?s" .
  moreover have "conns ?s = [peer_conn (start_peer empty_store ns)]" "kv ?s = peer_store (start_peer empty_store ns)"
    by (simp_all add: start_peer_def server_init_def)
  ultimately show ?thesis unfolding peer_live_def by blast
qed

definition example_world :: "nat list \<Rightarrow> peer ksim" where
  "example_world ns = \<lparr>ks_socks = [], ks_lists = 0,
     ks_hosts = [(''localhost'', [\<lparr>ai_family = AF_INET, ai_socktype = SOCK_STREAM, ai_protocol = 6, ai_addr = ''127.0.0.1''\<rparr>])],
     ks_dead = [], ks_taken = [], ks_conn = start_peer empty_store ns\<rparr>"

lemma example_dialogue:
  "dialogue [''SET a 1'', [], ''GET a'', ''QUIT'', ''GET a''] empty_store
     = [''> '', ''OK'' @ [NL], ''> '', ''> '', ''VALUE 1'' @ [NL], ''> '', ''BYE'' @ [NL]]"
  by code_simp

definition live_world :: "peer ksim \<Rightarrow> bool" where
  "live_world = (\<lambda>w. peer_ok empty_store (ks_conn w) \<and> peer_live (ks_conn w))"

lemma reliable_and:
  "send_reliable g f \<Longrightarrow> send_reliable (\<lambda>w. g w \<and> h w) f"
  "recv_reliable g f' coming \<Longrightarrow> recv_reliable (\<lambda>w. g w \<and> h w) f' coming"
  by (auto simp: send_reliable_def recv_reliable_def)

lemma live_world_laws:
  "send_law live_world (\<lambda>w bs. sys_send peer_kernel fd bs w) (\<lambda>w. peer_sent (ks_conn w))
     (\<lambda>w. length (peer_chunks (ks_conn w))) (\<lambda>w. peer_got (ks_conn w))"
  "send_reliable live_world (\<lambda>w bs. sys_send peer_kernel fd bs w)"
  "recv_law live_world (\<lambda>w n. sys_recv peer_kernel fd n w) (\<lambda>w. peer_coming (ks_conn w))
     (\<lambda>w. length (peer_chunks (ks_conn w))) (\<lambda>w. peer_sent (ks_conn w))"
  "recv_reliable live_world (\<lambda>w n. sys_recv peer_kernel fd n w) (\<lambda>w. peer_coming (ks_conn w))"
proof -
  have keep: "peer_live (ks_conn w')" if "peer_live (ks_conn w)" "bs \<noteq> []" "sys_send peer_kernel fd bs w = (r, w')" for bs w r w'
    using peer_calls_live(1) [OF that(1,2)] that(3) by (auto simp: sim_kernel_def ks_io_def split: prod.splits)
  have keep': "peer_live (ks_conn w')" if "peer_live (ks_conn w)" "sys_recv peer_kernel fd n w = (r, w')" for n w r w'
    using peer_calls_live(2) [OF that(1), of n] that(2) by (auto simp: sim_kernel_def ks_io_def split: prod.splits)
  show "send_law live_world (\<lambda>w bs. sys_send peer_kernel fd bs w) (\<lambda>w. peer_sent (ks_conn w))
     (\<lambda>w. length (peer_chunks (ks_conn w))) (\<lambda>w. peer_got (ks_conn w))"
    unfolding live_world_def by (rule send_law_and [OF peer_send_law]) (rule keep)
  show "send_reliable live_world (\<lambda>w bs. sys_send peer_kernel fd bs w)"
    unfolding live_world_def by (rule reliable_and(1) [OF peer_reliable(1)])
  show "recv_law live_world (\<lambda>w n. sys_recv peer_kernel fd n w) (\<lambda>w. peer_coming (ks_conn w))
     (\<lambda>w. length (peer_chunks (ks_conn w))) (\<lambda>w. peer_sent (ks_conn w))"
    unfolding live_world_def by (rule recv_law_and [OF peer_recv_law]) (rule keep')
  show "recv_reliable live_world (\<lambda>w n. sys_recv peer_kernel fd n w) (\<lambda>w. peer_coming (ks_conn w))"
    unfolding live_world_def by (rule reliable_and(2) [OF peer_reliable(2)])
qed

theorem client_session_shows_server_answers_witness:
  "\<exists>w'. client_main peer_kernel [''localhost''] [''SET a 1'', [], ''GET a'', ''QUIT'', ''GET a''] (example_world [0, 3, 1, 0, 2])
     = Some (EXIT_SUCCESS, [''connected to '' @ ''localhost'' @ '':9090'' @ [NL],
      ''type commands like: SET key value | GET key | DEL key | QUIT'' @ [NL]]
      @ [''> '', ''OK'' @ [NL], ''> '', ''> '', ''VALUE 1'' @ [NL], ''> '', ''BYE'' @ [NL]], w')"
proof -
  let ?w = "example_world [0, 3, 1, 0, 2]"
  let ?up = "snd (create_client_socket peer_kernel ''localhost'' 9090 ?w)"
  have lines: "\<forall>line\<in>set [''SET a 1'', [], ''GET a'', ''QUIT'', ''GET a'']. NL \<notin> set line" by simp
  have conn: "ks_conn ?up = start_peer empty_store [0, 3, 1, 0, 2]"
    unfolding create_client_socket_conn by (simp add: example_world_def)
  have fd: "fst (create_client_socket peer_kernel ''localhost'' 9090 ?w) = 3"
    by (simp add: create_client_socket_def sim_kernel_def ks_open_def ks_fresh_def ks_set_def ks_table_def example_world_def Let_def)
  then have run: "create_client_socket peer_kernel ''localhost'' 9090 ?w = (3, ?up)" by (metis prod.collapse)
  have far: "far_end 3 0 empty_store (peer_sent (ks_conn w)) (peer_got (ks_conn w) @ peer_coming (ks_conn w))" if "live_world w" for w
    using peer_far_end that by (simp add: live_world_def)
  have start: "live_world ?up" unfolding live_world_def conn by (intro conjI start_peer_ok start_peer_live)
  have unsent: "peer_sent (ks_conn ?up) = []" unfolding conn by (simp add: start_peer_def)
  have nonneg: "(3 :: int) \<ge> 0" by simp
  show ?thesis
    using client_session_shows_server_answers [where K = peer_kernel and fd = 3 and good = live_world
        and sent_bytes = "\<lambda>w. peer_sent (ks_conn w)" and patience = "\<lambda>w. length (peer_chunks (ks_conn w))"
        and got = "\<lambda>w. peer_got (ks_conn w)" and coming = "\<lambda>w. peer_coming (ks_conn w)",
        OF live_world_laws far run nonneg start unsent lines]
    unfolding example_dialogue .
qed

text \<open>
  C24: Progress of the TCP server: in every reachable state, any connection that is still open can,
  with the help of the kernel alone (no further input, no other connection moving), get to a state
  in which every response due has been sent in full, and either no complete line of it is left
  unprocessed and the server waits for input, or its \<open>QUIT\<close> has been answered and it is closed.
\<close>
theorem tcp_server_can_always_answer:
  assumes "server_reachable server_fd s" and "i < length (conns s)" and "phase_of (conns s ! i) \<noteq> Closed"
  shows "\<exists>s'. server_step\<^sup>*\<^sup>* s s' \<and> conns s' = (conns s)[i := conns s' ! i]
       \<and> received (conns s' ! i) = received (conns s ! i)
       \<and> sent (conns s' ! i) = concat (map snd (log_of i s'))
       \<and> (phase_of (conns s' ! i) = AwaitRead \<and> NL \<notin> set (inbound (conns s' ! i))
          \<or> phase_of (conns s' ! i) = Closed \<and> log_of i s' \<noteq> [] \<and> quit_line (fst (last (log_of i s'))))"
proof -
  obtain s' where s': "server_step\<^sup>*\<^sup>* s s'" "conns s' = (conns s)[i := conns s' ! i]"
    "settled (conns s' ! i)" "received (conns s' ! i) = received (conns s ! i)"
    by (rule open_conn_reaches [OF assms])
  have "server_inv server_fd s'" by (rule server_reachable_inv [OF reaches_reachable [OF s'(1) assms(1)]])
  moreover have "i < length (conns s')" using assms(2) s'(2) by (metis length_list_update)
  ultimately have "conn_ok (conns s' ! i)" "executed (conns s' ! i) = log_of i s'" by (simp_all add: server_inv_def)
  with s' show ?thesis
    by (intro exI [of _ s']) (auto simp: settled_def conn_ok_def answers_def ends_quit_def)
qed

theorem tcp_server_can_always_answer_witness:
  "\<exists>s s'. server_reachable 3 s \<and> server_step\<^sup>*\<^sup>* s s' \<and> phase_of (conns s ! 0) = AtRecv
     \<and> received (conns s' ! 0) = ''SET a 1'' @ [NL]
     \<and> sent (conns s' ! 0) = concat (map snd (log_of 0 s'))"
proof -
  let ?evs = "[EvListen, EvAccept (Accepted 7 True), EvClient 0 (Recv (RecvData (''SET a 1'' @ [NL])))]"
  have "map_option view (run_events ?evs (server_init 3)) = Some ([(''SET a 1'' @ [NL], [], AtRecv, ''SET a 1'' @ [NL])], [])"
    by code_simp
  then obtain s where run: "run_events ?evs (server_init 3) = Some s"
    and v: "view s = ([(''SET a 1'' @ [NL], [], AtRecv, ''SET a 1'' @ [NL])], [])" by (rule map_option_SomeE)
  have r: "server_reachable 3 s" by (rule run_events_reachable [OF run server_start])
  note c = example_conns [OF v]
  have "0 < length (conns s)" "phase_of (conns s ! 0) \<noteq> Closed" using c by simp_all
  from tcp_server_can_always_answer [OF r this] r c show ?thesis by auto
qed

end
