(* ===== verification/EventLoop.thy ===== *)
theory EventLoop
  imports Prelude "HOL-Library.AList" "HOL-Library.Multiset"
begin

section \<open>The event loop (\<open>net::EventLoop\<close>)\<close>

text \<open>
  Models \<open>include/net/event_loop.hpp\<close> and \<open>src/net/event_loop.cpp\<close>: the ready queue, the two waiter
  maps, tasks and their ownership of a coroutine frame, and \<open>run\<close>. A \<open>std::unordered_map\<close> is an
  association list with distinct keys whose order is the iteration order, left arbitrary. What a
  resumed coroutine does to the loop (spawn tasks, suspend on a descriptor, stop the loop) is a list
  of actions given by the parameter \<open>resume\<close>, \<open>None\<close> when it never suspends; \<open>poll(2)\<close> is the parameter \<open>poll\<close>, which answers each
  entry with the flags that are set. Both loops of \<open>run\<close> are \<open>partial_function\<close>s, since a coroutine
  can keep them going forever.
\<close>

type_synonym handle = nat

type_synonym waiters = "(int \<times> handle) list"

datatype poll_flag = POLLIN | POLLOUT | POLLERR | POLLHUP | POLLNVAL

record pollfd =
  pfd_fd :: int
  pfd_events :: "poll_flag list"

record event_loop =
  ready :: "handle option list"
  read_waiters :: waiters
  write_waiters :: waiters
  stopping :: bool

definition event_loop_init :: event_loop where
  "event_loop_init = \<lparr>ready = [], read_waiters = [], write_waiters = [], stopping = False\<rparr>"

subsection \<open>Scheduling and suspension\<close>

definition schedule :: "handle option \<Rightarrow> event_loop \<Rightarrow> event_loop" where
  "schedule h l = l\<lparr>ready := ready l @ [h]\<rparr>"

definition stop :: "event_loop \<Rightarrow> event_loop" where
  "stop l = l\<lparr>stopping := True\<rparr>"

definition wait_read :: "int \<Rightarrow> handle \<Rightarrow> event_loop \<Rightarrow> event_loop" where
  "wait_read fd h l = l\<lparr>read_waiters := AList.update fd h (read_waiters l)\<rparr>"

definition wait_write :: "int \<Rightarrow> handle \<Rightarrow> event_loop \<Rightarrow> event_loop" where
  "wait_write fd h l = l\<lparr>write_waiters := AList.update fd h (write_waiters l)\<rparr>"

text \<open>\<open>Task::start\<close>: an empty task is ignored; otherwise the loop becomes the owner of the frame and
the task object gives it up. \<open>owner\<close> is the promise's \<open>loop\<close> pointer, per frame.\<close>

record task_env =
  the_loop :: event_loop
  owner :: "handle \<Rightarrow> bool"
  destroyed :: "handle list"

definition task_start :: "handle option \<Rightarrow> task_env \<Rightarrow> handle option \<times> task_env" where
  "task_start task e =
     (case task of
        None \<Rightarrow> (None, e)
      | Some h \<Rightarrow> (None, e\<lparr>owner := (owner e)(h := True), the_loop := schedule (Some h) (the_loop e)\<rparr>))"

definition spawn :: "handle option \<Rightarrow> task_env \<Rightarrow> handle option \<times> task_env" where
  "spawn task e = task_start task e"

definition task_drop :: "handle option \<Rightarrow> task_env \<Rightarrow> task_env" where
  "task_drop task e = (case task of None \<Rightarrow> e | Some h \<Rightarrow> e\<lparr>destroyed := destroyed e @ [h]\<rparr>)"

text \<open>Move assignment: destroy what the target owns, then take over the source's handle, unless both
are the same object.\<close>

definition task_move_assign :: "bool \<Rightarrow> handle option \<Rightarrow> handle option \<Rightarrow> task_env
    \<Rightarrow> handle option \<times> handle option \<times> task_env" where
  "task_move_assign same target source e =
     (if same then (target, source, e) else (source, None, task_drop target e))"

definition complete :: "handle \<Rightarrow> task_env \<Rightarrow> task_env" where
  "complete h e = e\<lparr>destroyed := destroyed e @ [h]\<rparr>"

text \<open>\<open>FinalAwaiter::await_suspend\<close>: the loop destroys the frame if it owns it, else the frame
destroys itself.\<close>

definition final_suspend :: "handle \<Rightarrow> task_env \<Rightarrow> task_env" where
  "final_suspend h e = (if owner e h then complete h e else e\<lparr>destroyed := destroyed e @ [h]\<rparr>)"

subsection \<open>The ready queue\<close>

datatype loop_action = DoSpawn "handle option" | DoWaitRead int handle | DoWaitWrite int handle | DoStop

fun do_action :: "loop_action \<Rightarrow> event_loop \<Rightarrow> event_loop" where
  "do_action (DoSpawn task) l = (case task of None \<Rightarrow> l | Some h \<Rightarrow> schedule (Some h) l)"
| "do_action (DoWaitRead fd h) l = wait_read fd h l"
| "do_action (DoWaitWrite fd h) l = wait_write fd h l"
| "do_action DoStop l = stop l"

definition do_actions :: "loop_action list \<Rightarrow> event_loop \<Rightarrow> event_loop" where
  "do_actions acts l = fold do_action acts l"

text \<open>\<open>is_done\<close> and \<open>resume\<close> are the coroutines' side: \<open>handle.done()\<close> and \<open>handle.resume()\<close>.\<close>

type_synonym 'w resumption = "handle \<Rightarrow> 'w \<Rightarrow> (loop_action list \<times> 'w) option"

definition run_front :: "(handle \<Rightarrow> 'w \<Rightarrow> bool) \<Rightarrow> 'w resumption
    \<Rightarrow> handle option \<Rightarrow> event_loop \<times> 'w \<Rightarrow> (event_loop \<times> 'w) option" where
  "run_front is_done resume h = (\<lambda>(l, w).
     case h of
       None \<Rightarrow> Some (l, w)
     | Some h \<Rightarrow>
         if \<not> is_done h w then
           (case resume h w of None \<Rightarrow> None | Some (acts, w) \<Rightarrow> Some (do_actions acts l, w))
         else Some (l, w))"

partial_function (option) drain_ready :: "(handle \<Rightarrow> 'w \<Rightarrow> bool) \<Rightarrow> 'w resumption
    \<Rightarrow> event_loop \<times> 'w \<Rightarrow> (event_loop \<times> 'w) option" where
  "drain_ready is_done resume lw =
     (case ready (fst lw) of
        [] \<Rightarrow> Some lw
      | h # rest \<Rightarrow>
          (case run_front is_done resume h ((fst lw)\<lparr>ready := rest\<rparr>, snd lw) of
             None \<Rightarrow> None
           | Some lw \<Rightarrow> drain_ready is_done resume lw))"

subsection \<open>Polling\<close>

definition read_pollfds :: "event_loop \<Rightarrow> pollfd list" where
  "read_pollfds l =
     map (\<lambda>(fd, h). \<lparr>pfd_fd = fd, pfd_events = [POLLIN] @ (if map_of (write_waiters l) fd \<noteq> None then [POLLOUT] else [])\<rparr>)
       (read_waiters l)"

definition write_pollfds :: "event_loop \<Rightarrow> pollfd list" where
  "write_pollfds l =
     map (\<lambda>(fd, h). \<lparr>pfd_fd = fd, pfd_events = [POLLOUT]\<rparr>)
       (filter (\<lambda>(fd, h). map_of (read_waiters l) fd = None) (write_waiters l))"

definition poll_fds :: "event_loop \<Rightarrow> pollfd list" where
  "poll_fds l = read_pollfds l @ write_pollfds l"

definition is_readable :: "poll_flag list \<Rightarrow> bool" where
  "is_readable revents \<longleftrightarrow> (\<exists>f\<in>set revents. f \<in> {POLLIN, POLLERR, POLLHUP, POLLNVAL})"

definition is_writable :: "poll_flag list \<Rightarrow> bool" where
  "is_writable revents \<longleftrightarrow> (\<exists>f\<in>set revents. f \<in> {POLLOUT, POLLERR, POLLHUP, POLLNVAL})"

text \<open>One entry of the loop over the polled descriptors: the woken handles so far and the maps.\<close>

definition wake_one :: "int \<times> poll_flag list \<Rightarrow> handle list \<times> event_loop \<Rightarrow> handle list \<times> event_loop" where
  "wake_one = (\<lambda>(fd, revents) (woken, l).
     if revents = [] then (woken, l)
     else
       let (woken, l) =
         (if is_readable revents then
            (case map_of (read_waiters l) fd of
               None \<Rightarrow> (woken, l)
             | Some h \<Rightarrow> (woken @ [h], l\<lparr>read_waiters := AList.delete fd (read_waiters l)\<rparr>))
          else (woken, l))
       in
         (if is_writable revents then
            (case map_of (write_waiters l) fd of
               None \<Rightarrow> (woken, l)
             | Some h \<Rightarrow> (woken @ [h], l\<lparr>write_waiters := AList.delete fd (write_waiters l)\<rparr>))
          else (woken, l)))"

definition dispatch :: "(int \<times> poll_flag list) list \<Rightarrow> event_loop \<Rightarrow> event_loop" where
  "dispatch results l =
     (let (woken, l) = fold wake_one results ([], l)
      in fold (\<lambda>h. schedule (Some h)) woken l)"

datatype poll_result = PollReady "(int \<times> poll_flag list) list" | PollEintr | PollFailed

datatype loop_exit = Returned | Threw string

partial_function (option) run_loop :: "(handle \<Rightarrow> 'w \<Rightarrow> bool) \<Rightarrow> 'w resumption
    \<Rightarrow> (pollfd list \<Rightarrow> 'w \<Rightarrow> poll_result \<times> 'w) \<Rightarrow> event_loop \<times> 'w \<Rightarrow> (loop_exit \<times> event_loop \<times> 'w) option" where
  "run_loop is_done resume poll lw =
     (if stopping (fst lw) then Some (Returned, lw)
      else
        (case drain_ready is_done resume lw of
           None \<Rightarrow> None
         | Some lw' \<Rightarrow>
             if stopping (fst lw') then Some (Returned, lw')
             else if read_waiters (fst lw') = [] \<and> write_waiters (fst lw') = [] then Some (Returned, lw')
             else if poll_fds (fst lw') = [] then Some (Returned, lw')
             else
               (case poll (poll_fds (fst lw')) (snd lw') of
                  (PollEintr, w) \<Rightarrow> run_loop is_done resume poll (fst lw', w)
                | (PollFailed, w) \<Rightarrow> Some (Threw ''poll failed'', fst lw', w)
                | (PollReady results, w) \<Rightarrow> run_loop is_done resume poll (dispatch results (fst lw'), w))))"

subsection \<open>Waiters and handles\<close>

definition waiters_ok :: "event_loop \<Rightarrow> bool" where
  "waiters_ok l \<longleftrightarrow> distinct (map fst (read_waiters l)) \<and> distinct (map fst (write_waiters l))"

text \<open>All coroutine handles the loop holds, with multiplicity.\<close>

definition ready_handles :: "event_loop \<Rightarrow> handle multiset" where
  "ready_handles l = mset (map the (filter (\<lambda>h. h \<noteq> None) (ready l)))"

definition waiting_handles :: "event_loop \<Rightarrow> handle multiset" where
  "waiting_handles l = mset (map snd (read_waiters l)) + mset (map snd (write_waiters l))"

definition held_handles :: "event_loop \<Rightarrow> handle multiset" where
  "held_handles l = ready_handles l + waiting_handles l"

lemma waiters_ok_ops [simp]:
  "waiters_ok (schedule h l) = waiters_ok l" "waiters_ok (stop l) = waiters_ok l"
  "waiters_ok l \<Longrightarrow> waiters_ok (wait_read fd g l)" "waiters_ok l \<Longrightarrow> waiters_ok (wait_write fd g l)"
  by (simp_all add: waiters_ok_def schedule_def stop_def wait_read_def wait_write_def distinct_update)

lemma delete_absent: "k \<notin> fst ` set xs \<Longrightarrow> AList.delete k xs = xs"
  by (induction xs) auto

lemma mset_delete:
  "distinct (map fst xs) \<Longrightarrow> map_of xs k = Some v \<Longrightarrow>
     add_mset v (mset (map snd (AList.delete k xs))) = mset (map snd xs)"
proof (induction xs)
  case (Cons x xs)
  then show ?case by (cases x) (auto simp: delete_absent split: if_splits)
qed simp

lemma mset_update:
  "distinct (map fst xs) \<Longrightarrow>
     mset (map snd (AList.update k v xs)) + (case map_of xs k of None \<Rightarrow> {#} | Some w \<Rightarrow> {#w#})
     = add_mset v (mset (map snd xs))"
proof (induction xs)
  case (Cons x xs)
  then show ?case by (cases x) (auto split: option.splits simp: map_of_eq_None_iff)
qed simp

lemma schedule_handles [simp]:
  "ready_handles (schedule (Some h) l) = add_mset h (ready_handles l)"
  "waiting_handles (schedule g l) = waiting_handles l"
  by (simp_all add: ready_handles_def waiting_handles_def schedule_def)

subsection \<open>Dispatch\<close>

lemma wake_one_facts:
  assumes "wake_one (fd, revents) (woken, l) = (woken', l')" and "waiters_ok l"
  shows "waiters_ok l'"
    "mset woken' + waiting_handles l' = mset woken + waiting_handles l"
    "ready l' = ready l" "stopping l' = stopping l"
    "map_of (read_waiters l') = (if is_readable revents then (map_of (read_waiters l))(fd := None) else map_of (read_waiters l))"
    "map_of (write_waiters l') = (if is_writable revents then (map_of (write_waiters l))(fd := None) else map_of (write_waiters l))"
proof -
  note defs = wake_one_def waiters_ok_def waiting_handles_def is_readable_def is_writable_def Let_def
  have none: "\<not> is_readable [] \<and> \<not> is_writable []" by (simp add: is_readable_def is_writable_def)
  have upd: "map_of xs fd = None \<Longrightarrow> (map_of xs)(fd := None) = map_of xs" for xs :: waiters by auto
  show "waiters_ok l'"
    using assms by (auto simp: wake_one_def waiters_ok_def Let_def distinct_delete split: if_splits option.splits)
  show "ready l' = ready l" "stopping l' = stopping l"
    using assms(1) by (auto simp: wake_one_def Let_def split: if_splits option.splits)
  show "map_of (read_waiters l') = (if is_readable revents then (map_of (read_waiters l))(fd := None) else map_of (read_waiters l))"
    using assms(1) none by (auto simp: wake_one_def Let_def delete_conv' upd split: if_splits option.splits)
  show "map_of (write_waiters l') = (if is_writable revents then (map_of (write_waiters l))(fd := None) else map_of (write_waiters l))"
    using assms(1) none by (auto simp: wake_one_def Let_def delete_conv' upd split: if_splits option.splits)
  have rd: "map_of (read_waiters l) fd = Some h \<Longrightarrow>
      add_mset h (mset (map snd (AList.delete fd (read_waiters l)))) = mset (map snd (read_waiters l))" for h
    using mset_delete [of "read_waiters l" fd h] assms(2) by (simp add: waiters_ok_def)
  have wr: "map_of (write_waiters l) fd = Some h \<Longrightarrow>
      add_mset h (mset (map snd (AList.delete fd (write_waiters l)))) = mset (map snd (write_waiters l))" for h
    using mset_delete [of "write_waiters l" fd h] assms(2) by (simp add: waiters_ok_def)
  show "mset woken' + waiting_handles l' = mset woken + waiting_handles l"
    using assms(1) rd wr
    by (auto simp: wake_one_def waiting_handles_def Let_def split: if_splits option.splits)
      (metis (no_types, lifting) union_mset_add_mset_left union_mset_add_mset_right)+
qed

definition woken_read :: "(int \<times> poll_flag list) list \<Rightarrow> int \<Rightarrow> bool" where
  "woken_read results fd \<longleftrightarrow> (\<exists>(fd', revents)\<in>set results. fd' = fd \<and> is_readable revents)"

definition woken_write :: "(int \<times> poll_flag list) list \<Rightarrow> int \<Rightarrow> bool" where
  "woken_write results fd \<longleftrightarrow> (\<exists>(fd', revents)\<in>set results. fd' = fd \<and> is_writable revents)"

lemma fold_wake_facts:
  assumes "fold wake_one results (woken, l) = (woken', l')" and "waiters_ok l"
  shows "waiters_ok l' \<and> mset woken' + waiting_handles l' = mset woken + waiting_handles l
    \<and> ready l' = ready l \<and> stopping l' = stopping l
    \<and> (\<forall>fd. map_of (read_waiters l') fd = (if woken_read results fd then None else map_of (read_waiters l) fd))
    \<and> (\<forall>fd. map_of (write_waiters l') fd = (if woken_write results fd then None else map_of (write_waiters l) fd))"
  using assms
proof (induction results arbitrary: woken l)
  case (Cons r results)
  obtain fd revents where r: "r = (fd, revents)" by (cases r)
  obtain woken1 l1 where one: "wake_one (fd, revents) (woken, l) = (woken1, l1)"
    by (cases "wake_one (fd, revents) (woken, l)")
  note facts = wake_one_facts [OF one Cons.prems(2)]
  have "fold wake_one results (woken1, l1) = (woken', l')" using Cons.prems(1) by (simp add: r one)
  from Cons.IH [OF this facts(1)] facts(2-6) show ?case
    by (auto simp: r woken_read_def woken_write_def)
qed (auto simp: woken_read_def woken_write_def)

lemma fold_schedule:
  "ready (fold (\<lambda>h. schedule (Some h)) hs l) = ready l @ map Some hs
   \<and> read_waiters (fold (\<lambda>h. schedule (Some h)) hs l) = read_waiters l
   \<and> write_waiters (fold (\<lambda>h. schedule (Some h)) hs l) = write_waiters l
   \<and> stopping (fold (\<lambda>h. schedule (Some h)) hs l) = stopping l"
  by (induction hs arbitrary: l) (simp_all add: schedule_def)

lemma poll_fds_empty: "poll_fds l = [] \<longleftrightarrow> read_waiters l = [] \<and> write_waiters l = []"
  by (auto simp: poll_fds_def read_pollfds_def write_pollfds_def)

lemma drain_ready_empties: "drain_ready is_done resume lw = Some lw' \<Longrightarrow> ready (fst lw') = []"
  by (erule drain_ready.raw_induct [where P = "\<lambda>_ _ _ lw'. ready (fst lw') = []", rotated]) (auto split: list.splits option.splits)

lemma run_loop_idle:
  assumes "run_loop is_done resume poll lw = Some y"
  shows "fst y = Returned \<longrightarrow> stopping (fst (snd y))
       \<or> (ready (fst (snd y)) = [] \<and> read_waiters (fst (snd y)) = [] \<and> write_waiters (fst (snd y)) = [])"
  using assms
  by (rule run_loop.raw_induct [where P = "\<lambda>_ _ _ _ y. fst y = Returned \<longrightarrow> stopping (fst (snd y))
       \<or> (ready (fst (snd y)) = [] \<and> read_waiters (fst (snd y)) = [] \<and> write_waiters (fst (snd y)) = [])", rotated])
    (auto split: if_splits option.splits prod.splits poll_result.splits
       simp: poll_fds_empty dest: drain_ready_empties)

text \<open>The only exception is the failed \<open>poll\<close>.\<close>

lemma run_loop_threw:
  assumes "run_loop is_done resume poll lw = Some (Threw e, lw')"
  shows "e = ''poll failed'' \<and> (\<exists>fds w. poll fds w = (PollFailed, snd lw'))"
proof -
  have "\<forall>e. fst y = Threw e \<longrightarrow> e = ''poll failed'' \<and> (\<exists>fds w. poll fds w = (PollFailed, snd (snd y)))"
    if "run_loop is_done resume poll lw = Some y" for y
    using that
    by (rule run_loop.raw_induct [where P = "\<lambda>_ _ poll _ y. \<forall>e. fst y = Threw e \<longrightarrow>
          e = ''poll failed'' \<and> (\<exists>fds w. poll fds w = (PollFailed, snd (snd y)))", rotated])
      (auto split: if_splits option.splits prod.splits poll_result.splits, blast+)
  from this [OF assms] show ?thesis by simp
qed

definition no_spawns :: "loop_action list \<Rightarrow> bool" where
  "no_spawns acts \<longleftrightarrow> (\<forall>a\<in>set acts. \<forall>t. a \<noteq> DoSpawn t)"

lemma do_actions_queue:
  "no_spawns acts \<Longrightarrow> do_actions acts (l\<lparr>ready := r\<rparr>) = (do_actions acts l)\<lparr>ready := r\<rparr>"
  unfolding do_actions_def no_spawns_def
proof (induction acts arbitrary: l)
  case (Cons a acts)
  then have "do_action a (l\<lparr>ready := r\<rparr>) = (do_action a l)\<lparr>ready := r\<rparr>"
    by (cases a) (simp_all add: wait_read_def wait_write_def stop_def)
  with Cons show ?case by simp
qed simp

text \<open>When every coroutine suspends or finishes, \<open>run_front\<close> is a total function.\<close>

definition front :: "(handle \<Rightarrow> 'w \<Rightarrow> bool) \<Rightarrow> (handle \<Rightarrow> 'w \<Rightarrow> loop_action list \<times> 'w)
    \<Rightarrow> handle option \<Rightarrow> event_loop \<times> 'w \<Rightarrow> event_loop \<times> 'w" where
  "front is_done resume h = (\<lambda>(l, w).
     case h of
       None \<Rightarrow> (l, w)
     | Some h \<Rightarrow>
         if \<not> is_done h w then (let (acts, w) = resume h w in (do_actions acts l, w)) else (l, w))"

lemma run_front_total:
  "(\<And>h w. resume h w = Some (total_resume h w)) \<Longrightarrow> run_front is_done resume h lw = Some (front is_done total_resume h lw)"
  by (auto simp: run_front_def front_def split: option.split prod.split)

lemma front_queue:
  assumes "\<And>h w. no_spawns (fst (resume h w))"
  shows "front is_done resume h (l\<lparr>ready := r\<rparr>, w)
       = (case front is_done resume h (l\<lparr>ready := []\<rparr>, w) of (l', w') \<Rightarrow> (l'\<lparr>ready := r\<rparr>, w'))"
proof -
  have "do_actions (fst (resume k w)) (l\<lparr>ready := r\<rparr>) = (do_actions (fst (resume k w)) (l\<lparr>ready := []\<rparr>))\<lparr>ready := r\<rparr>" for k
    using do_actions_queue [OF assms [of k w], where l = "l\<lparr>ready := []\<rparr>" and r = r] by simp
  then show ?thesis by (auto simp: front_def split: option.split prod.splits) (metis fst_conv)
qed

lemma front_ready:
  assumes "\<And>h w. no_spawns (fst (resume h w))"
  shows "ready (fst (front is_done resume h lw)) = ready (fst lw)"
proof -
  have "front is_done resume h lw = front is_done resume h ((fst lw)\<lparr>ready := ready (fst lw)\<rparr>, snd lw)" by simp
  also have "\<dots> = (case front is_done resume h ((fst lw)\<lparr>ready := []\<rparr>, snd lw) of
      (l', w') \<Rightarrow> (l'\<lparr>ready := ready (fst lw)\<rparr>, w'))" by (rule front_queue [OF assms])
  finally show ?thesis by (simp split: prod.splits)
qed

subsection \<open>The states \<open>run\<close> passes through\<close>

text \<open>At the head of the inner loop, and after \<open>poll\<close>.\<close>

inductive loop_visits :: "(handle \<Rightarrow> 'w \<Rightarrow> bool) \<Rightarrow> 'w resumption \<Rightarrow> (pollfd list \<Rightarrow> 'w \<Rightarrow> poll_result \<times> 'w)
    \<Rightarrow> event_loop \<times> 'w \<Rightarrow> event_loop \<Rightarrow> 'w \<Rightarrow> bool"
  for is_done resume poll lw where
  visit_start: "loop_visits is_done resume poll lw (fst lw) (snd lw)"
| visit_front: "loop_visits is_done resume poll lw l w \<Longrightarrow> ready l = h # rest \<Longrightarrow>
    run_front is_done resume h (l\<lparr>ready := rest\<rparr>, w) = Some (l', w') \<Longrightarrow> loop_visits is_done resume poll lw l' w'"
| visit_poll: "loop_visits is_done resume poll lw l w \<Longrightarrow> ready l = [] \<Longrightarrow> \<not> stopping l \<Longrightarrow>
    poll (poll_fds l) w = (r, w') \<Longrightarrow>
    loop_visits is_done resume poll lw (case r of PollReady results \<Rightarrow> dispatch results l | _ \<Rightarrow> l) w'"

lemma loop_visits_trans:
  "loop_visits is_done resume poll (l, w) l' w' \<Longrightarrow> loop_visits is_done resume poll lw l w \<Longrightarrow>
     loop_visits is_done resume poll lw l' w'"
  by (induction rule: loop_visits.induct) (auto intro: loop_visits.intros)

lemma drain_ready_visits:
  assumes "drain_ready is_done resume lw = Some lw'"
  shows "loop_visits is_done resume poll lw (fst lw') (snd lw')"
  using assms
proof (rule drain_ready.raw_induct [where P = "\<lambda>is_done resume lw lw'. loop_visits is_done resume poll lw (fst lw') (snd lw')", rotated])
  fix rec is_done and resume :: "'a resumption" and lw lw'
  assume ih: "\<And>is_done resume lw lw'. rec is_done resume lw = Some lw' \<Longrightarrow> loop_visits is_done resume poll lw (fst lw') (snd lw')"
    and body: "(case ready (fst lw) of [] \<Rightarrow> Some lw
      | h # rest \<Rightarrow> (case run_front is_done resume h ((fst lw)\<lparr>ready := rest\<rparr>, snd lw) of
             None \<Rightarrow> None | Some lw \<Rightarrow> rec is_done resume lw)) = Some lw'"
  show "loop_visits is_done resume poll lw (fst lw') (snd lw')"
  proof (cases "ready (fst lw)")
    case Nil
    with body show ?thesis by (auto intro: visit_start)
  next
    case (Cons h rest)
    then obtain l1 w1 where one: "run_front is_done resume h ((fst lw)\<lparr>ready := rest\<rparr>, snd lw) = Some (l1, w1)"
      and run: "rec is_done resume (l1, w1) = Some lw'"
      using body by (auto split: option.splits)
    from loop_visits_trans [OF ih [OF run] visit_front [OF visit_start Cons one]] show ?thesis .
  qed
qed

lemma run_loop_visits:
  assumes "run_loop is_done resume poll lw = Some (e, lw')"
  shows "loop_visits is_done resume poll lw (fst lw') (snd lw')"
proof -
  have "loop_visits is_done resume poll lw (fst (snd y)) (snd (snd y))" if "run_loop is_done resume poll lw = Some y" for y
    using that
  proof (rule run_loop.raw_induct [where P = "\<lambda>is_done resume poll lw y. loop_visits is_done resume poll lw (fst (snd y)) (snd (snd y))", rotated])
    fix rec is_done and resume :: "'a resumption" and poll and lw y
    assume ih: "\<And>is_done resume poll lw y. rec is_done resume poll lw = Some y \<Longrightarrow>
        loop_visits is_done resume poll lw (fst (snd y)) (snd (snd y))"
      and body: "(if stopping (fst lw) then Some (Returned, lw)
        else case drain_ready is_done resume lw of None \<Rightarrow> None
         | Some lw' \<Rightarrow>
             if stopping (fst lw') then Some (Returned, lw')
             else if read_waiters (fst lw') = [] \<and> write_waiters (fst lw') = [] then Some (Returned, lw')
             else if poll_fds (fst lw') = [] then Some (Returned, lw')
             else case poll (poll_fds (fst lw')) (snd lw') of
                  (PollEintr, w) \<Rightarrow> rec is_done resume poll (fst lw', w)
                | (PollFailed, w) \<Rightarrow> Some (Threw ''poll failed'', fst lw', w)
                | (PollReady results, w) \<Rightarrow> rec is_done resume poll (dispatch results (fst lw'), w)) = Some y"
    show "loop_visits is_done resume poll lw (fst (snd y)) (snd (snd y))"
    proof (cases "stopping (fst lw)")
      case True
      with body show ?thesis by (auto intro: visit_start)
    next
      case False
      then obtain l1 w1 where drained: "drain_ready is_done resume lw = Some (l1, w1)"
        using body by (auto split: option.splits)
      note here = drain_ready_visits [OF drained, of poll, unfolded fst_conv snd_conv]
      note empty = drain_ready_empties [OF drained, unfolded fst_conv]
      obtain r w2 where p: "poll (poll_fds l1) w1 = (r, w2)" by (cases "poll (poll_fds l1) w1")
      show ?thesis
      proof (cases "stopping l1 \<or> poll_fds l1 = []")
        case True
        then show ?thesis using body False drained here by (auto simp: poll_fds_empty split: if_splits)
      next
        case go: False
        then have "\<not> stopping l1" by simp
        note there = visit_poll [OF here empty this p]
        show ?thesis
        proof (cases r)
          case PollEintr
          then have "rec is_done resume poll (l1, w2) = Some y" using body False drained go p by (auto simp: poll_fds_empty)
          from loop_visits_trans [OF ih [OF this]] there show ?thesis by (simp add: PollEintr)
        next
          case PollFailed
          then show ?thesis using body False drained go p there by (auto simp: poll_fds_empty)
        next
          case (PollReady results)
          then have "rec is_done resume poll (dispatch results l1, w2) = Some y"
            using body False drained go p by (auto simp: poll_fds_empty)
          from loop_visits_trans [OF ih [OF this]] there show ?thesis by (simp add: PollReady)
        qed
      qed
    qed
  qed
  from this [OF assms] show ?thesis by simp
qed

lemma dispatch_handles:
  assumes "waiters_ok l"
  shows "held_handles (dispatch results l) = held_handles l"
    and "\<exists>woken. ready (dispatch results l) = ready l @ map Some woken"
    and "waiters_ok (dispatch results l)" and "stopping (dispatch results l) = stopping l"
    and "map_of (read_waiters (dispatch results l)) fd = (if woken_read results fd then None else map_of (read_waiters l) fd)"
    and "map_of (write_waiters (dispatch results l)) fd = (if woken_write results fd then None else map_of (write_waiters l) fd)"
proof -
  obtain woken l1 where w: "fold wake_one results ([], l) = (woken, l1)" by (cases "fold wake_one results ([], l)")
  note facts = fold_wake_facts [OF w assms]
  let ?d = "fold (\<lambda>h. schedule (Some h)) woken l1"
  have d: "dispatch results l = ?d" by (simp add: dispatch_def w)
  note sched = fold_schedule [of woken l1]
  have "ready_handles ?d = ready_handles l + mset woken"
    using sched facts by (simp add: ready_handles_def filter_map comp_def)
  moreover have "waiting_handles ?d = waiting_handles l1" using sched by (simp add: waiting_handles_def)
  ultimately show "held_handles (dispatch results l) = held_handles l"
    using facts by (simp add: d held_handles_def add.assoc)
  show "waiters_ok (dispatch results l)" using facts sched by (simp add: d waiters_ok_def)
  show "\<exists>woken. ready (dispatch results l) = ready l @ map Some woken" "stopping (dispatch results l) = stopping l"
    "map_of (read_waiters (dispatch results l)) fd = (if woken_read results fd then None else map_of (read_waiters l) fd)"
    "map_of (write_waiters (dispatch results l)) fd = (if woken_write results fd then None else map_of (write_waiters l) fd)"
    using facts sched by (auto simp: d)
qed

lemma dispatch_waiters:
  assumes "waiters_ok l"
  shows "set (read_waiters (dispatch results l)) \<subseteq> set (read_waiters l)"
    and "set (write_waiters (dispatch results l)) \<subseteq> set (write_waiters l)"
proof -
  note d = dispatch_handles [OF assms, of results]
  have sub: "set ys \<subseteq> set xs" if ok: "distinct (map fst ys)" and off: "\<And>fd. map_of ys fd = (if P fd then None else map_of xs fd)"
    for xs ys :: waiters and P
  proof
    fix x assume "x \<in> set ys"
    then have "map_of ys (fst x) = Some (snd x)" using map_of_is_SomeI [OF ok, of "fst x" "snd x"] by simp
    then have "map_of xs (fst x) = Some (snd x)" using off [of "fst x"] by (simp split: if_splits)
    then show "x \<in> set xs" using map_of_SomeD [of xs "fst x" "snd x"] by simp
  qed
  show "set (read_waiters (dispatch results l)) \<subseteq> set (read_waiters l)"
    using d(3) by (intro sub [OF _ d(5)]) (simp add: waiters_ok_def)
  show "set (write_waiters (dispatch results l)) \<subseteq> set (write_waiters l)"
    using d(3) by (intro sub [OF _ d(6)]) (simp add: waiters_ok_def)
qed

subsection \<open>What holds whenever coroutines keep it\<close>

text \<open>\<open>holds\<close> is kept by every resumption and by every poll.\<close>

locale loop_client =
  fixes is_done :: "handle \<Rightarrow> 'w \<Rightarrow> bool" and resume :: "'w resumption"
    and poll :: "pollfd list \<Rightarrow> 'w \<Rightarrow> poll_result \<times> 'w" and holds :: "event_loop \<Rightarrow> 'w \<Rightarrow> bool"
  assumes resumed: "holds l w \<Longrightarrow> ready l = h # rest \<Longrightarrow> run_front is_done resume h (l\<lparr>ready := rest\<rparr>, w) = Some (l', w') \<Longrightarrow> holds l' w'"
    and polled: "holds l w \<Longrightarrow> ready l = [] \<Longrightarrow> poll (poll_fds l) w = (r, w') \<Longrightarrow> holds l w'"
    and dispatched: "holds l w \<Longrightarrow> holds (dispatch results l) w"
begin

lemma visited: "loop_visits is_done resume poll lw l w \<Longrightarrow> holds (fst lw) (snd lw) \<Longrightarrow> holds l w"
  by (induction rule: loop_visits.induct) (auto intro: resumed polled dispatched split: poll_result.split)

lemma returned:
  assumes "run_loop is_done resume poll lw = Some (Returned, l', w')" and "holds (fst lw) (snd lw)"
  shows "holds l' w' \<and> (stopping l' \<or> held_handles l' = {#})"
  using run_loop_idle [OF assms(1)] visited [OF run_loop_visits [OF assms(1)] assms(2)]
  by (auto simp: held_handles_def ready_handles_def waiting_handles_def)

end

text \<open>When, besides, each resumption ends and lowers \<open>work\<close>, the ready queue always drains.\<close>

locale draining_client = loop_client +
  fixes work :: "event_loop \<Rightarrow> 'a \<Rightarrow> nat"
  assumes works: "holds l w \<Longrightarrow> ready l = h # rest \<Longrightarrow>
    \<exists>l' w'. run_front is_done resume h (l\<lparr>ready := rest\<rparr>, w) = Some (l', w') \<and> work l' w' < work l w"
begin

lemma drained:
  "holds l w \<Longrightarrow> \<exists>l' w'. drain_ready is_done resume (l, w) = Some (l', w') \<and> ready l' = [] \<and> holds l' w'"
proof (induction "work l w" arbitrary: l w rule: less_induct)
  case less
  show ?case
  proof (cases "ready l")
    case Nil
    with less.prems show ?thesis by (subst drain_ready.simps) simp
  next
    case (Cons h rest)
    from works [OF less.prems Cons] obtain l1 w1 where
      one: "run_front is_done resume h (l\<lparr>ready := rest\<rparr>, w) = Some (l1, w1)" and "work l1 w1 < work l w" by blast
    from less.hyps [OF this(2) resumed [OF less.prems Cons one]] show ?thesis
      by (subst drain_ready.simps) (simp add: Cons one)
  qed
qed

end

subsection \<open>Properties\<close>

text \<open>
  The poll set: every descriptor with a waiter occurs exactly once, asks for POLLIN exactly when
  a coroutine waits to read it and for POLLOUT exactly when one waits to write it, and no other
  descriptor or event is polled.
\<close>
theorem poll_fds_cover_waiters:
  assumes "waiters_ok l"
  shows "distinct (map pfd_fd (poll_fds l))
       \<and> pfd_fd ` set (poll_fds l) = dom (map_of (read_waiters l)) \<union> dom (map_of (write_waiters l))
       \<and> (\<forall>p\<in>set (poll_fds l).
            set (pfd_events p) = (if map_of (read_waiters l) (pfd_fd p) \<noteq> None then {POLLIN} else {})
              \<union> (if map_of (write_waiters l) (pfd_fd p) \<noteq> None then {POLLOUT} else {}))"
proof (intro conjI)
  have fds: "map pfd_fd (read_pollfds l) = map fst (read_waiters l)"
    "map pfd_fd (write_pollfds l) = map fst (filter (\<lambda>(fd, h). map_of (read_waiters l) fd = None) (write_waiters l))"
    by (auto simp: read_pollfds_def write_pollfds_def)
  have "distinct (map fst (filter (\<lambda>(fd, h). map_of (read_waiters l) fd = None) (write_waiters l)))"
    using assms by (simp add: waiters_ok_def distinct_map_filter)
  moreover have "set (map fst (read_waiters l))
      \<inter> set (map fst (filter (\<lambda>(fd, h). map_of (read_waiters l) fd = None) (write_waiters l))) = {}"
  proof -
    have "map_of (read_waiters l) fd \<noteq> None" if "(fd, h) \<in> set (read_waiters l)" for fd h
      using weak_map_of_SomeI [OF that] by simp
    then show ?thesis unfolding disjoint_iff set_map set_filter by fastforce
  qed
  ultimately show "distinct (map pfd_fd (poll_fds l))"
    using assms by (simp only: poll_fds_def map_append fds distinct_append waiters_ok_def simp_thms)
  have "pfd_fd ` set (poll_fds l) = set (map pfd_fd (poll_fds l))" by simp
  also have "\<dots> = dom (map_of (read_waiters l)) \<union> dom (map_of (write_waiters l))"
    by (auto simp del: set_map simp: poll_fds_def fds dom_map_of_conv_image_fst)
      (force simp: map_of_eq_None_iff image_iff)+
  finally show "pfd_fd ` set (poll_fds l) = dom (map_of (read_waiters l)) \<union> dom (map_of (write_waiters l))" .
  have rd: "map_of (read_waiters l) fd \<noteq> None" if "(fd, h) \<in> set (read_waiters l)" for fd h
    using weak_map_of_SomeI [OF that] by simp
  have wr: "map_of (write_waiters l) fd \<noteq> None" if "(fd, h) \<in> set (write_waiters l)" for fd h
    using weak_map_of_SomeI [OF that] by simp
  show "\<forall>p\<in>set (poll_fds l).
            set (pfd_events p) = (if map_of (read_waiters l) (pfd_fd p) \<noteq> None then {POLLIN} else {})
              \<union> (if map_of (write_waiters l) (pfd_fd p) \<noteq> None then {POLLOUT} else {})"
  proof
    fix p assume "p \<in> set (poll_fds l)"
    then consider (rd) fd h where "(fd, h) \<in> set (read_waiters l)"
        "p = \<lparr>pfd_fd = fd, pfd_events = [POLLIN] @ (if map_of (write_waiters l) fd \<noteq> None then [POLLOUT] else [])\<rparr>"
      | (wr) fd h where "(fd, h) \<in> set (write_waiters l)" "map_of (read_waiters l) fd = None"
        "p = \<lparr>pfd_fd = fd, pfd_events = [POLLOUT]\<rparr>"
      by (auto simp: poll_fds_def read_pollfds_def write_pollfds_def)
    then show "set (pfd_events p) = (if map_of (read_waiters l) (pfd_fd p) \<noteq> None then {POLLIN} else {})
              \<union> (if map_of (write_waiters l) (pfd_fd p) \<noteq> None then {POLLOUT} else {})"
    proof cases
      case rd
      then show ?thesis using \<open>\<And>fd h. (fd, h) \<in> set (read_waiters l) \<Longrightarrow> map_of (read_waiters l) fd \<noteq> None\<close> by auto
    next
      case wr
      then show ?thesis using \<open>\<And>fd h. (fd, h) \<in> set (write_waiters l) \<Longrightarrow> map_of (write_waiters l) fd \<noteq> None\<close> by auto
    qed
  qed
qed

theorem poll_fds_cover_waiters_witness:
  "poll_fds (wait_write 5 2 (wait_read 5 1 (wait_write 6 3 event_loop_init)))
     = [\<lparr>pfd_fd = 5, pfd_events = [POLLIN, POLLOUT]\<rparr>, \<lparr>pfd_fd = 6, pfd_events = [POLLOUT]\<rparr>]
   \<and> distinct (map pfd_fd (poll_fds (wait_write 5 2 (wait_read 5 1 (wait_write 6 3 event_loop_init)))))"
proof -
  have "waiters_ok (wait_write 5 2 (wait_read 5 1 (wait_write 6 3 event_loop_init)))"
    by (simp add: waiters_ok_def event_loop_init_def wait_read_def wait_write_def)
  from poll_fds_cover_waiters [OF this] show ?thesis
    by (simp add: poll_fds_def read_pollfds_def write_pollfds_def event_loop_init_def wait_read_def wait_write_def)
qed

text \<open>
  C37: Dispatch loses and duplicates no coroutine: the handles the loop holds are the same before and
  after; those in the ready queue keep their order and are followed by the woken ones; a waiter is
  woken exactly when its descriptor reported an event of its kind or an error condition; all other
  waiters stay.
\<close>
theorem dispatch_conserves_handles:
  assumes "waiters_ok l"
  shows "held_handles (dispatch results l) = held_handles l
       \<and> (\<exists>woken. ready (dispatch results l) = ready l @ map Some woken)
       \<and> waiters_ok (dispatch results l)
       \<and> map_of (read_waiters (dispatch results l)) fd = (if woken_read results fd then None else map_of (read_waiters l) fd)
       \<and> map_of (write_waiters (dispatch results l)) fd = (if woken_write results fd then None else map_of (write_waiters l) fd)"
  using dispatch_handles [OF assms] by simp

theorem dispatch_conserves_handles_witness:
  "ready (dispatch [(5, [POLLHUP]), (6, [])] (wait_write 5 2 (wait_read 5 1 (wait_write 6 3 event_loop_init)))) = [Some 1, Some 2]
   \<and> held_handles (dispatch [(5, [POLLHUP]), (6, [])] (wait_write 5 2 (wait_read 5 1 (wait_write 6 3 event_loop_init)))) = {#1, 2, 3#}"
proof -
  let ?l = "wait_write 5 2 (wait_read 5 1 (wait_write 6 3 event_loop_init))"
  have "waiters_ok ?l" by (simp add: waiters_ok_def event_loop_init_def wait_read_def wait_write_def)
  from dispatch_conserves_handles [OF this, of "[(5, [POLLHUP]), (6, [])]"]
  show ?thesis
    by (simp add: held_handles_def ready_handles_def waiting_handles_def event_loop_init_def wait_read_def wait_write_def)
      (simp add: dispatch_def wake_one_def is_readable_def is_writable_def schedule_def)
qed

text \<open>
  Suspending on a descriptor keeps every other coroutine, with one exception the code has: a
  second coroutine waiting for the same descriptor in the same direction replaces the first, whose
  handle is then held nowhere and never resumed or destroyed.
\<close>
theorem wait_replaces_previous_waiter:
  assumes "waiters_ok l"
  shows "held_handles (wait_read fd h l) + (case map_of (read_waiters l) fd of None \<Rightarrow> {#} | Some h' \<Rightarrow> {#h'#})
         = add_mset h (held_handles l)
       \<and> held_handles (wait_write fd h l) + (case map_of (write_waiters l) fd of None \<Rightarrow> {#} | Some h' \<Rightarrow> {#h'#})
         = add_mset h (held_handles l)"
  using assms mset_update [of "read_waiters l" fd h] mset_update [of "write_waiters l" fd h]
  by (auto simp: waiters_ok_def held_handles_def ready_handles_def waiting_handles_def wait_read_def wait_write_def
      add_ac split: option.splits)

theorem wait_replaces_previous_waiter_witness:
  "held_handles (wait_read 5 2 (wait_read 5 1 event_loop_init)) = {#2#}"
proof -
  have "waiters_ok (wait_read 5 1 event_loop_init)" by (simp add: waiters_ok_def event_loop_init_def wait_read_def)
  from wait_replaces_previous_waiter [OF this, of 5 2] show ?thesis
    by (simp add: held_handles_def ready_handles_def waiting_handles_def event_loop_init_def wait_read_def)
qed

text \<open>
  The ready queue drains: as long as resumed coroutines suspend or finish without spawning new
  tasks, the inner loop of \<open>run\<close> ends, with an empty queue, and has run the queued coroutines once
  each, in queue order.
\<close>
theorem drain_ready_terminates:
  assumes "\<forall>h w. \<exists>acts w'. resume h w = Some (acts, w') \<and> (\<forall>a\<in>set acts. \<forall>t. a \<noteq> DoSpawn t)"
  shows "\<exists>lw'. drain_ready is_done resume lw = Some lw' \<and> ready (fst lw') = []
       \<and> Some lw' = fold (\<lambda>h acc. Option.bind acc (run_front is_done resume h)) (ready (fst lw))
            (Some ((fst lw)\<lparr>ready := []\<rparr>, snd lw))"
proof -
  define res where "res = (\<lambda>h w. the (resume h w))"
  have total: "resume h w = Some (res h w)" for h w using assms unfolding res_def by (metis option.sel)
  have no_spawn: "no_spawns (fst (res h w))" for h w
    using assms [rule_format, of h w] total [of h w] by (auto simp: no_spawns_def)
  note one = run_front_total [of resume res, OF total]
  have queue: "ready (fst (fold (front is_done res) hs lw)) = ready (fst lw)" for hs lw
    by (induction hs arbitrary: lw) (simp_all add: front_ready [OF no_spawn])
  have drain: "drain_ready is_done resume (l\<lparr>ready := hs\<rparr>, w) = Some (fold (front is_done res) hs (l\<lparr>ready := []\<rparr>, w))" for hs l w
  proof (induction hs arbitrary: l w)
    case Nil
    then show ?case by (subst drain_ready.simps) simp
  next
    case (Cons h hs)
    obtain l' w' where front: "front is_done res h (l\<lparr>ready := []\<rparr>, w) = (l', w')" by force
    have "ready (fst (front is_done res h (l\<lparr>ready := []\<rparr>, w))) = ready (fst (l\<lparr>ready := []\<rparr>, w))"
      by (rule front_ready) (rule no_spawn)
    with front have "l'\<lparr>ready := []\<rparr> = l'" by (cases l') simp
    with Cons.IH [of l' w'] front show ?case
      by (subst drain_ready.simps) (simp add: one front_queue [of res, OF no_spawn, of is_done h hs l w])
  qed
  have folded: "fold (\<lambda>h acc. Option.bind acc (run_front is_done resume h)) hs (Some lw) = Some (fold (front is_done res) hs lw)" for hs lw
    by (induction hs arbitrary: lw) (simp_all add: one)
  show ?thesis
    using drain [of "ready (fst lw)" "fst lw" "snd lw"] folded queue [of "ready (fst lw)" "((fst lw)\<lparr>ready := []\<rparr>, snd lw)"]
    by simp
qed

theorem drain_ready_terminates_witness:
  "drain_ready (\<lambda>h w. False) (\<lambda>h w. Some ([DoWaitRead (int h) h], w)) (schedule (Some 4) event_loop_init, ())
     = Some (wait_read 4 4 event_loop_init, ())"
proof -
  have quiet: "\<forall>h w. \<exists>acts w'. Some ([DoWaitRead (int h) h], w) = Some (acts, w') \<and> (\<forall>a\<in>set acts. \<forall>t. a \<noteq> DoSpawn t)"
    by simp
  show ?thesis
    using drain_ready_terminates [OF quiet, of "\<lambda>h w. False" "(schedule (Some 4) event_loop_init, ())"]
    by (simp add: run_front_def do_actions_def schedule_def event_loop_init_def wait_read_def)
qed

text \<open>
  \<open>run\<close> abandons nobody: when it returns normally, either \<open>stop\<close> was requested or the ready
  queue and both waiter maps are empty, so every coroutine has finished.
\<close>
theorem run_returns_only_when_idle:
  assumes "run_loop is_done resume poll (l, w) = Some (Returned, l', w')"
  shows "stopping l' \<or> (ready l' = [] \<and> read_waiters l' = [] \<and> write_waiters l' = [])"
  using run_loop_idle [OF assms] by simp

theorem run_returns_only_when_idle_witness:
  "\<exists>l'. run_loop (\<lambda>h w. False) (\<lambda>h w. Some ([], w)) (\<lambda>fds w. (PollFailed, w)) (schedule (Some 4) event_loop_init, ()) = Some (Returned, l', ())
     \<and> ready l' = [] \<and> read_waiters l' = [] \<and> write_waiters l' = []"
proof -
  have drain: "drain_ready (\<lambda>h w. False) (\<lambda>h w. Some ([], w)) (schedule (Some 4) event_loop_init, ()) = Some (event_loop_init, ())"
    by (subst drain_ready.simps, simp add: schedule_def event_loop_init_def run_front_def do_actions_def)
      (subst drain_ready.simps, simp)
  have run: "run_loop (\<lambda>h w. False) (\<lambda>h w. Some ([], w)) (\<lambda>fds w. (PollFailed, w)) (schedule (Some 4) event_loop_init, ())
      = Some (Returned, event_loop_init, ())"
    by (subst run_loop.simps) (simp only: drain option.case fst_conv snd_conv, simp add: schedule_def event_loop_init_def)
  from run_returns_only_when_idle [OF run] run show ?thesis by (auto simp: event_loop_init_def)
qed

text \<open>
  A coroutine frame is destroyed exactly once, whether the task object is spawned and runs to its
  end, or is dropped without having been spawned.
\<close>
theorem task_frame_destroyed_once:
  "(let (task, e1) = spawn (Some h) e in destroyed (task_drop task (final_suspend h e1))) = destroyed e @ [h]
   \<and> destroyed (task_drop (Some h) e) = destroyed e @ [h]
   \<and> ready (the_loop (snd (spawn (Some h) e))) = ready (the_loop e) @ [Some h]"
  by (simp add: spawn_def task_start_def final_suspend_def complete_def task_drop_def schedule_def)

end
