(* ===== verification/TcpProcess.thy ===== *)
theory TcpProcess
  imports TcpClient EventLoop
begin

section \<open>The server process: the coroutines on the event loop\<close>

text \<open>
  \<open>main\<close> of \<open>src/server/main.cpp\<close> with its coroutines running on the event loop of \<open>EventLoop\<close>.
  Handle 0 is the frame of \<open>accept_loop\<close>, handle \<open>i + 1\<close> that of \<open>handle_client\<close> for connection \<open>i\<close>.
  Resuming a handle runs its coroutine over the calls of a \<open>kernel\<close> up to its next \<open>co_await\<close> or its
  end: every call is one step of \<open>TcpServer\<close> on the result the kernel gave. A result outside the
  documented range (more bytes than asked for, a descriptor already open) has no step, and the
  resumption no result. The theorems show that every state the process passes through is a reachable
  state of the server of \<open>TcpServer\<close>, that the loop holds each live coroutine exactly once, and that
  each stretch between two polls ends.
\<close>

subsection \<open>Results of the calls\<close>

fun recv_of :: "read_result \<Rightarrow> recv_result" where
  "recv_of (ReadBytes bytes) = RecvData bytes"
| "recv_of ReadEof = RecvEof"
| "recv_of (ReadFail EINTR) = RecvEintr"
| "recv_of (ReadFail EAGAIN) = RecvAgain"
| "recv_of (ReadFail (EOTHER n)) = RecvError"

fun send_of :: "write_result \<Rightarrow> send_result" where
  "send_of (Wrote n) = (if 0 < n then SendBytes n else SendError)"
| "send_of (WriteFail EINTR) = SendEintr"
| "send_of (WriteFail EAGAIN) = SendAgain"
| "send_of (WriteFail (EOTHER n)) = SendError"

fun accept_of :: "errno \<Rightarrow> accept_result" where
  "accept_of EINTR = AcceptEintr"
| "accept_of EAGAIN = AcceptAgain"
| "accept_of (EOTHER n) = AcceptError"

subsection \<open>The coroutines\<close>

text \<open>\<open>started\<close>: whether \<open>accept_loop\<close> has left its initial suspension, which precedes its first
\<open>co_await\<close>.\<close>

record 'w process =
  started :: bool
  srv :: server
  os :: 'w

definition closed :: "nat \<Rightarrow> server \<Rightarrow> bool" where
  "closed i s \<longleftrightarrow> phase_of (conns s ! i) = Closed"

definition conn_call :: "'w kernel \<Rightarrow> nat \<Rightarrow> os_event \<Rightarrow> server \<times> 'w \<Rightarrow> (server \<times> 'w) option" where
  "conn_call K i ev = (\<lambda>(s, w).
     case conn_step i ev s of
       None \<Rightarrow> None
     | Some s' \<Rightarrow> Some (s', if closed i s' then close_socket K (int (conn_fd (conns s ! i))) w else w))"

partial_function (option) run_client :: "'w kernel \<Rightarrow> nat \<Rightarrow> server \<times> 'w \<Rightarrow> (server \<times> 'w) option" where
  "run_client K i sw =
     (let c = conns (fst sw) ! i; client_fd = int (conn_fd c) in
      case phase_of c of
        AtRecv \<Rightarrow>
          let (bytes_read, w) = sys_recv K client_fd 4096 (snd sw) in
          Option.bind (conn_call K i (Recv (recv_of bytes_read)) (fst sw, w)) (run_client K i)
      | AtSend serialized offset quit \<Rightarrow>
          let (bytes_written, w) = sys_send K client_fd (drop offset serialized) (snd sw) in
          Option.bind (conn_call K i (Send (send_of bytes_written)) (fst sw, w)) (run_client K i)
      | _ \<Rightarrow> Some sw)"

definition resume_client :: "'w kernel \<Rightarrow> nat \<Rightarrow> server \<times> 'w \<Rightarrow> (server \<times> 'w) option" where
  "resume_client K i sw =
     (case phase_of (conns (fst sw) ! i) of
        AwaitRead \<Rightarrow> Option.bind (conn_call K i Readable sw) (run_client K i)
      | AwaitWrite serialized offset quit \<Rightarrow> Option.bind (conn_call K i Writable sw) (run_client K i)
      | _ \<Rightarrow> run_client K i sw)"

definition client_suspends :: "nat \<Rightarrow> server \<Rightarrow> loop_action list" where
  "client_suspends i s =
     (let client_fd = int (conn_fd (conns s ! i)) in
      case phase_of (conns s ! i) of
        AwaitRead \<Rightarrow> [DoWaitRead client_fd (Suc i)]
      | AwaitWrite serialized offset quit \<Rightarrow> [DoWaitWrite client_fd (Suc i)]
      | _ \<Rightarrow> [])"

partial_function (option) run_accept :: "'w kernel \<Rightarrow> int \<Rightarrow> loop_action list \<Rightarrow> server \<Rightarrow> 'w
    \<Rightarrow> (loop_action list \<times> server \<times> 'w) option" where
  "run_accept K server_fd spawned s w =
     (case sys_accept K server_fd w of
        (AcceptedFd client_fd, w) \<Rightarrow>
          let (ok, w) = set_non_blocking K client_fd w in
          (case accept_step (Accepted (nat client_fd) ok) s of
             None \<Rightarrow> None
           | Some s' \<Rightarrow>
               if \<not> ok then run_accept K server_fd spawned s' (close_socket K client_fd w)
               else run_accept K server_fd (spawned @ [DoSpawn (Some (Suc (length (conns s))))]) s' w)
      | (AcceptFail e, w) \<Rightarrow>
          (case accept_step (accept_of e) s of
             None \<Rightarrow> None
           | Some s' \<Rightarrow>
               if e = EINTR then run_accept K server_fd spawned s' w
               else Some (spawned @ [DoWaitRead server_fd 0], s', w)))"

definition resume_proc :: "'w kernel \<Rightarrow> int \<Rightarrow> handle \<Rightarrow> 'w process \<Rightarrow> (loop_action list \<times> 'w process) option" where
  "resume_proc K server_fd h p =
     (case h of
        0 \<Rightarrow>
          if \<not> started p then Some ([DoWaitRead server_fd 0], p\<lparr>started := True\<rparr>)
          else
            (case run_accept K server_fd [] ((srv p)\<lparr>accepting := AtAccept\<rparr>) (os p) of
               None \<Rightarrow> None
             | Some (acts, s, w) \<Rightarrow> Some (acts, p\<lparr>srv := s, os := w\<rparr>))
      | Suc i \<Rightarrow>
          (case resume_client K i (srv p, os p) of
             None \<Rightarrow> None
           | Some (s, w) \<Rightarrow> Some (client_suspends i s, p\<lparr>srv := s, os := w\<rparr>)))"

definition done_proc :: "handle \<Rightarrow> 'w process \<Rightarrow> bool" where
  "done_proc h p = (case h of 0 \<Rightarrow> False | Suc i \<Rightarrow> closed i (srv p))"

definition poll_proc :: "(pollfd list \<Rightarrow> 'w \<Rightarrow> poll_result \<times> 'w) \<Rightarrow> pollfd list \<Rightarrow> 'w process \<Rightarrow> poll_result \<times> 'w process" where
  "poll_proc poll fds p = (let (r, w) = poll fds (os p) in (r, p\<lparr>os := w\<rparr>))"

subsection \<open>\<open>main\<close>\<close>

definition process_init :: "int \<Rightarrow> 'w \<Rightarrow> event_loop \<times> 'w process" where
  "process_init server_fd w =
     (do_actions [DoSpawn (Some 0)] event_loop_init, \<lparr>started = False, srv = server_init (nat server_fd), os = w\<rparr>)"

text \<open>\<open>argv\<close> is without the program name; the listener's backlog is the default of \<open>create_server_socket\<close>.
Result: the exit status, what \<open>std::cout\<close> got, and the world.\<close>

definition server_main :: "'w kernel \<Rightarrow> (pollfd list \<Rightarrow> 'w \<Rightarrow> poll_result \<times> 'w) \<Rightarrow> string list \<Rightarrow> 'w
    \<Rightarrow> (exit_status \<times> string list \<times> 'w) option" where
  "server_main K poll argv w =
     (case (if length argv > 0 then stoi (argv ! 0) else Inr 9090) of
        Inl e \<Rightarrow> Some (Uncaught e, [], w)
      | Inr n \<Rightarrow>
          let port = to_port n; (server_fd, w) = create_server_socket K port 16 w in
          if server_fd < 0 then Some (EXIT_FAILURE, [], w)
          else
            let out = [''kv_server listening on port '' @ to_string (unat port) @ [NL]] in
            (case run_loop done_proc (resume_proc K server_fd) (poll_proc poll) (process_init server_fd w) of
               None \<Rightarrow> None
             | Some (Threw e, l, p) \<Rightarrow> Some (Uncaught e, out, os p)
             | Some (Returned, l, p) \<Rightarrow> Some (EXIT_SUCCESS, out, close_socket K server_fd (os p))))"

subsection \<open>Steps of one connection\<close>

text \<open>The other connections do not see them.\<close>

definition others_kept :: "nat \<Rightarrow> server \<Rightarrow> server \<Rightarrow> bool" where
  "others_kept i s s' \<longleftrightarrow> length (conns s') = length (conns s) \<and> (\<forall>j. j \<noteq> i \<longrightarrow> conns s' ! j = conns s ! j)
     \<and> conn_fd (conns s' ! i) = conn_fd (conns s ! i) \<and> accepting s' = accepting s"

inductive conn_steps :: "nat \<Rightarrow> server \<Rightarrow> server \<Rightarrow> bool" for i where
  conn_none: "conn_steps i s s"
| conn_more: "conn_step i ev s = Some s1 \<Longrightarrow> conn_steps i s1 s2 \<Longrightarrow> conn_steps i s s2"

lemma conn_step_kept [frame_facts]: "conn_step i ev s = Some s' \<Longrightarrow> others_kept i s s' \<and> i < length (conns s) \<and> \<not> closed i s"
  by (auto simp: conn_step_def others_kept_def closed_def Let_def simp del: client_step.simps
      split: if_splits option.splits dest: frame_facts)

lemma conn_steps_kept: "conn_steps i s s' \<Longrightarrow> others_kept i s s'"
  by (induction rule: conn_steps.induct) (auto simp: others_kept_def dest!: frame_facts)

lemma conn_steps_reach: "conn_steps i s s' \<Longrightarrow> server_reachable server_fd s \<Longrightarrow> server_reachable server_fd s'"
  by (induction rule: conn_steps.induct) (auto intro: server_next server_step.client)

definition suspended :: "nat \<Rightarrow> server \<Rightarrow> bool" where
  "suspended i s \<longleftrightarrow> (case phase_of (conns s ! i) of AtRecv \<Rightarrow> False | AtSend serialized offset quit \<Rightarrow> False | _ \<Rightarrow> True)"

lemma conn_callD:
  assumes "conn_call K i ev (s, w) = Some (s', w')"
  shows "conn_step i ev s = Some s'" and "w' = (if closed i s' then close_socket K (int (conn_fd (conns s ! i))) w else w)"
  using assms by (auto simp: conn_call_def split: option.splits)

lemma run_client_steps:
  "run_client K i sw = Some sw' \<Longrightarrow> conn_steps i (fst sw) (fst sw') \<and> suspended i (fst sw')"
proof (erule run_client.raw_induct [where P = "\<lambda>K i sw sw'. conn_steps i (fst sw) (fst sw') \<and> suspended i (fst sw')", rotated])
  fix rec and K :: "'a kernel" and i sw sw'
  let ?P = "\<lambda>sw sw'. conn_steps i (fst sw) (fst sw') \<and> suspended i (fst sw')"
  assume ih: "\<And>K i sw sw'. rec K i sw = Some sw' \<Longrightarrow> conn_steps i (fst sw) (fst sw') \<and> suspended i (fst sw')"
    and body: "(let c = conns (fst sw) ! i; client_fd = int (conn_fd c) in
      case phase_of c of
        AtRecv \<Rightarrow>
          let (bytes_read, w) = sys_recv K client_fd 4096 (snd sw) in
          Option.bind (conn_call K i (Recv (recv_of bytes_read)) (fst sw, w)) (rec K i)
      | AtSend serialized offset quit \<Rightarrow>
          let (bytes_written, w) = sys_send K client_fd (drop offset serialized) (snd sw) in
          Option.bind (conn_call K i (Send (send_of bytes_written)) (fst sw, w)) (rec K i)
      | _ \<Rightarrow> Some sw) = Some sw'"
  have called: "?P sw sw'" if "Option.bind (conn_call K i ev (fst sw, w)) (rec K i) = Some sw'" for ev w
  proof -
    from that obtain s1 w1 where one: "conn_call K i ev (fst sw, w) = Some (s1, w1)" and rest: "rec K i (s1, w1) = Some sw'"
      by (auto simp: bind_eq_Some_conv)
    from conn_more [OF conn_callD(1) [OF one]] ih [OF rest] show ?thesis by simp
  qed
  show "?P sw sw'"
  proof (cases "phase_of (conns (fst sw) ! i)")
    case AtRecv
    obtain r w where call: "sys_recv K (int (conn_fd (conns (fst sw) ! i))) 4096 (snd sw) = (r, w)" by force
    show ?thesis by (rule called) (use body in \<open>simp add: AtRecv call\<close>)
  next
    case (AtSend serialized offset quit)
    obtain r w where call: "sys_send K (int (conn_fd (conns (fst sw) ! i))) (drop offset serialized) (snd sw) = (r, w)" by force
    show ?thesis by (rule called) (use body in \<open>simp add: AtSend call\<close>)
  qed (use body in \<open>simp_all add: suspended_def conn_none\<close>)
qed

lemma resume_client_steps:
  assumes "resume_client K i (s, w) = Some (s', w')"
  shows "conn_steps i s s' \<and> suspended i s'"
proof -
  have called: ?thesis if "Option.bind (conn_call K i ev (s, w)) (run_client K i) = Some (s', w')" for ev
    using that by (auto simp: bind_eq_Some_conv dest!: conn_callD(1) run_client_steps intro: conn_more)
  show ?thesis
    using assms run_client_steps [of K i "(s, w)" "(s', w')"] called
    by (auto simp: resume_client_def split: phase.splits)
qed

subsection \<open>Steps of the accept loop\<close>

text \<open>New connections are appended, and one task is spawned for each.\<close>

definition appended :: "server \<Rightarrow> nat list \<Rightarrow> server \<Rightarrow> bool" where
  "appended s fds s' \<longleftrightarrow> conns s' = conns s @ map new_conn fds"

definition spawns :: "nat \<Rightarrow> nat \<Rightarrow> loop_action list" where
  "spawns from n = map (\<lambda>i. DoSpawn (Some (Suc i))) [from..<from + n]"

lemma run_accept_steps:
  assumes "run_accept K server_fd spawned s w = Some r" and "accepting s = AtAccept"
  shows "\<exists>fds. fst r = spawned @ spawns (length (conns s)) (length fds) @ [DoWaitRead server_fd 0]
       \<and> appended s fds (fst (snd r)) \<and> accepting (fst (snd r)) = AwaitListen
       \<and> (server_reachable lfd s \<longrightarrow> server_reachable lfd (fst (snd r)))"
proof -
  let ?P = "\<lambda>K server_fd spawned s w r. accepting s = AtAccept \<longrightarrow>
      (\<exists>fds. fst r = spawned @ spawns (length (conns s)) (length fds) @ [DoWaitRead server_fd 0]
       \<and> appended s fds (fst (snd r)) \<and> accepting (fst (snd r)) = AwaitListen
       \<and> (server_reachable lfd s \<longrightarrow> server_reachable lfd (fst (snd r))))"
  have "?P K server_fd spawned s w r"
    using assms(1)
  proof (rule run_accept.raw_induct [where P = ?P, rotated])
    fix rec and K :: "'a kernel" and server_fd spawned s w r
    assume ih: "\<And>K server_fd spawned s w r. rec K server_fd spawned s w = Some r \<Longrightarrow> ?P K server_fd spawned s w r"
      and body: "(case sys_accept K server_fd w of
        (AcceptedFd client_fd, w) \<Rightarrow>
          let (ok, w) = set_non_blocking K client_fd w in
          (case accept_step (Accepted (nat client_fd) ok) s of
             None \<Rightarrow> None
           | Some s' \<Rightarrow>
               if \<not> ok then rec K server_fd spawned s' (close_socket K client_fd w)
               else rec K server_fd (spawned @ [DoSpawn (Some (Suc (length (conns s))))]) s' w)
      | (AcceptFail e, w) \<Rightarrow>
          (case accept_step (accept_of e) s of
             None \<Rightarrow> None
           | Some s' \<Rightarrow>
               if e = EINTR then rec K server_fd spawned s' w
               else Some (spawned @ [DoWaitRead server_fd 0], s', w))) = Some r"
    have reach: "server_reachable lfd s \<longrightarrow> server_reachable lfd s'" if "accept_step a s = Some s'" for a s'
      using that by (auto intro: server_next server_step.accept)
    show "?P K server_fd spawned s w r"
    proof
      assume at: "accepting s = AtAccept"
      obtain a w1 where call: "sys_accept K server_fd w = (a, w1)" by (cases "sys_accept K server_fd w")
      note same = ih [of K server_fd spawned s, THEN mp, OF _ at]
      show "\<exists>fds. fst r = spawned @ spawns (length (conns s)) (length fds) @ [DoWaitRead server_fd 0]
       \<and> appended s fds (fst (snd r)) \<and> accepting (fst (snd r)) = AwaitListen
       \<and> (server_reachable lfd s \<longrightarrow> server_reachable lfd (fst (snd r)))"
      proof (cases a)
        case (AcceptFail e)
        obtain s' where s': "accept_step (accept_of e) s = Some s'"
          using body by (auto simp: call AcceptFail split: option.splits)
        show ?thesis
        proof (cases "e = EINTR")
          case True
          with s' at have "s' = s" by simp
          with body s' True show ?thesis by (intro same) (simp add: call AcceptFail)
        next
          case False
          with s' at have "conns s' = conns s" "accepting s' = AwaitListen" by (cases e; auto)+
          with body s' False reach [OF s'] show ?thesis
            by (intro exI [of _ "[]"]) (auto simp: call AcceptFail spawns_def appended_def)
        qed
      next
        case (AcceptedFd client_fd)
        obtain ok w2 where nb: "set_non_blocking K client_fd w1 = (ok, w2)" by (cases "set_non_blocking K client_fd w1")
        obtain s' where s': "accept_step (Accepted (nat client_fd) ok) s = Some s'"
          using body by (auto simp: call AcceptedFd nb split: option.splits)
        show ?thesis
        proof (cases ok)
          case False
          with s' at have "s' = s" by (simp split: if_splits)
          with body s' False show ?thesis by (intro same) (simp add: call AcceptedFd nb)
        next
          case True
          then have kept: "conns s' = conns s @ [new_conn (nat client_fd)]" "accepting s' = AtAccept"
            using s' at by (auto split: if_splits)
          have "rec K server_fd (spawned @ [DoSpawn (Some (Suc (length (conns s))))]) s' w2 = Some r"
            using body s' True by (simp add: call AcceptedFd nb)
          from ih [OF this] kept obtain fds where
            r: "fst r = (spawned @ [DoSpawn (Some (Suc (length (conns s))))]) @ spawns (length (conns s')) (length fds) @ [DoWaitRead server_fd 0]"
              "appended s' fds (fst (snd r))" "accepting (fst (snd r)) = AwaitListen"
              "server_reachable lfd s' \<longrightarrow> server_reachable lfd (fst (snd r))" by blast
          have "spawns (length (conns s)) (Suc n) = DoSpawn (Some (Suc (length (conns s)))) # spawns (length (conns s')) n" for n
            using upt_conv_Cons [of "length (conns s)" "length (conns s) + Suc n"] by (simp add: kept spawns_def)
          with r kept reach [OF s'] show ?thesis
            by (intro exI [of _ "nat client_fd # fds"]) (simp add: appended_def)
        qed
      qed
    qed
  qed
  with assms(2) show ?thesis by simp
qed

subsection \<open>What the loop holds\<close>

text \<open>The coroutines that have not ended, and where each suspended one waits.\<close>

definition live_handles :: "server \<Rightarrow> handle list" where
  "live_handles s = 0 # map Suc (filter (\<lambda>i. \<not> closed i s) [0..<length (conns s)])"

definition waits_read :: "nat \<Rightarrow> 'w process \<Rightarrow> int \<Rightarrow> handle \<Rightarrow> bool" where
  "waits_read server_fd p fd h =
     (case h of
        0 \<Rightarrow> started p \<and> fd = int server_fd
      | Suc i \<Rightarrow> phase_of (conns (srv p) ! i) = AwaitRead \<and> fd = int (conn_fd (conns (srv p) ! i)))"

definition awaits_write :: "phase \<Rightarrow> bool" where
  "awaits_write ph = (case ph of AwaitWrite serialized offset quit \<Rightarrow> True | _ \<Rightarrow> False)"

definition waits_write :: "'w process \<Rightarrow> int \<Rightarrow> handle \<Rightarrow> bool" where
  "waits_write p fd h =
     (case h of
        0 \<Rightarrow> False
      | Suc i \<Rightarrow> awaits_write (phase_of (conns (srv p) ! i)) \<and> fd = int (conn_fd (conns (srv p) ! i)))"

text \<open>\<open>running\<close> are the live coroutines that the loop does not hold, because it has just resumed them or
has yet to queue them.\<close>

definition proc_inv :: "nat \<Rightarrow> handle list \<Rightarrow> event_loop \<Rightarrow> 'w process \<Rightarrow> bool" where
  "proc_inv server_fd running l p \<longleftrightarrow>
     server_reachable server_fd (srv p) \<and> accepting (srv p) = AwaitListen
     \<and> waiters_ok l \<and> \<not> stopping l \<and> None \<notin> set (ready l)
     \<and> held_handles l + mset running = mset (live_handles (srv p))
     \<and> (\<forall>(fd, h)\<in>set (read_waiters l). waits_read server_fd p fd h)
     \<and> (\<forall>(fd, h)\<in>set (write_waiters l). waits_write p fd h)"

definition proc_ok :: "nat \<Rightarrow> event_loop \<Rightarrow> 'w process \<Rightarrow> bool" where
  "proc_ok server_fd l p \<longleftrightarrow> proc_inv server_fd [] l p"

lemma live_handles_distinct [simp]: "distinct (live_handles s)"
  by (auto simp: live_handles_def distinct_map)

lemma live_handles_iff [simp]:
  "0 \<in> set (live_handles s)" "Suc i \<in> set (live_handles s) \<longleftrightarrow> i < length (conns s) \<and> \<not> closed i s"
  by (auto simp: live_handles_def)

lemma live_handles_mset:
  assumes "distinct hs" and "\<And>h. h \<in> set hs \<longleftrightarrow> h \<in> set (live_handles s)"
  shows "mset (live_handles s) = mset hs"
  using assms set_eq_iff_mset_eq_distinct [OF live_handles_distinct, of hs s] by blast

text \<open>Two live coroutines wait on different descriptors.\<close>

lemma live_fds_index:
  "live_fds server_fd cs = server_fd # map (\<lambda>i. conn_fd (cs ! i)) (filter (\<lambda>i. phase_of (cs ! i) \<noteq> Closed) [0..<length cs])"
proof -
  have "filter (\<lambda>c. phase_of c \<noteq> Closed) (map (nth cs) [0..<length cs])
      = map (nth cs) (filter (\<lambda>i. phase_of (cs ! i) \<noteq> Closed) [0..<length cs])"
    by (simp add: filter_map comp_def)
  then show ?thesis by (simp add: live_fds_def map_nth comp_def)
qed

lemma live_fd_unique:
  assumes "server_reachable server_fd s" and "i < length (conns s)" and "\<not> closed i s"
  shows "conn_fd (conns s ! i) \<noteq> server_fd"
    and "j < length (conns s) \<Longrightarrow> \<not> closed j s \<Longrightarrow> conn_fd (conns s ! j) = conn_fd (conns s ! i) \<Longrightarrow> j = i"
proof -
  have "distinct (live_fds server_fd (conns s))"
    using server_reachable_inv [OF assms(1)] by (simp add: server_inv_def)
  then have "server_fd \<notin> (\<lambda>i. conn_fd (conns s ! i)) ` {i. i < length (conns s) \<and> \<not> closed i s}"
    and "inj_on (\<lambda>i. conn_fd (conns s ! i)) {i. i < length (conns s) \<and> \<not> closed i s}"
    by (auto simp: live_fds_index distinct_map closed_def)
  then show "conn_fd (conns s ! i) \<noteq> server_fd"
    and "j < length (conns s) \<Longrightarrow> \<not> closed j s \<Longrightarrow> conn_fd (conns s ! j) = conn_fd (conns s ! i) \<Longrightarrow> j = i"
    using assms(2,3) by (auto dest: inj_onD)
qed

lemma wait_fresh:
  assumes "waiters_ok l"
  shows "map_of (read_waiters l) fd = None \<Longrightarrow> held_handles (wait_read fd h l) = add_mset h (held_handles l)"
    and "map_of (write_waiters l) fd = None \<Longrightarrow> held_handles (wait_write fd h l) = add_mset h (held_handles l)"
  using wait_replaces_previous_waiter [OF assms, of fd h] by simp_all

lemma held_pop:
  "ready l = Some h # rest \<Longrightarrow> held_handles l = add_mset h (held_handles (l\<lparr>ready := rest\<rparr>))"
  by (simp add: held_handles_def ready_handles_def waiting_handles_def)

lemma held_waiter:
  "(fd, h) \<in> set (read_waiters l) \<Longrightarrow> h \<in># held_handles l"
  "(fd, h) \<in> set (write_waiters l) \<Longrightarrow> h \<in># held_handles l"
  by (force simp: held_handles_def waiting_handles_def)+

lemma set_update: "set (AList.update k v xs) \<subseteq> insert (k, v) (set xs)"
  by (induction xs) auto

lemma inv_spawn:
  "proc_inv server_fd (h # running) l p \<Longrightarrow> proc_inv server_fd running (schedule (Some h) l) p"
  by (simp add: proc_inv_def held_handles_def) (simp add: schedule_def)

lemma inv_wait_read:
  assumes "proc_inv server_fd [h] l p" and "waits_read server_fd p fd h" and "map_of (read_waiters l) fd = None"
  shows "proc_ok server_fd (wait_read fd h l) p"
  using assms wait_fresh(1) [of l fd h] set_update [of fd h "read_waiters l"]
  by (auto simp: proc_ok_def proc_inv_def) (auto simp: wait_read_def)

lemma inv_wait_write:
  assumes "proc_inv server_fd [h] l p" and "waits_write p fd h" and "map_of (write_waiters l) fd = None"
  shows "proc_ok server_fd (wait_write fd h l) p"
  using assms wait_fresh(2) [of l fd h] set_update [of fd h "write_waiters l"]
  by (auto simp: proc_ok_def proc_inv_def) (auto simp: wait_write_def)

text \<open>No coroutine is held while it runs.\<close>

lemma not_held:
  assumes "proc_inv server_fd running l p" and "h \<in> set running"
  shows "h \<notin># held_handles l"
proof
  assume "h \<in># held_handles l"
  then have "1 \<le> count (held_handles l) h" "1 \<le> count (mset running) h"
    using assms(2) by (simp_all add: Suc_le_eq)
  then have "2 \<le> count (held_handles l + mset running) h" unfolding count_union by linarith
  moreover have "held_handles l + mset running = mset (live_handles (srv p))" using assms(1) by (simp add: proc_inv_def)
  ultimately have "2 \<le> count (mset (live_handles (srv p))) h" by metis
  then show False using live_handles_distinct [of "srv p"] by (auto simp: distinct_count_atmost_1 split: if_splits)
qed

text \<open>A coroutine taken from the queue is live, held nowhere else and waits for nothing.\<close>

lemma popped:
  assumes ok: "proc_ok server_fd l p" and "ready l = Some h # rest"
  shows "proc_inv server_fd [h] (l\<lparr>ready := rest\<rparr>) p"
    and "h \<in> set (live_handles (srv p))" and "h \<notin># held_handles (l\<lparr>ready := rest\<rparr>)"
proof -
  show inv: "proc_inv server_fd [h] (l\<lparr>ready := rest\<rparr>) p"
    using ok held_pop [OF assms(2)] assms(2) by (simp add: proc_ok_def proc_inv_def waiters_ok_def)
  then have all: "add_mset h (held_handles (l\<lparr>ready := rest\<rparr>)) = mset (live_handles (srv p))"
    by (simp add: proc_inv_def)
  then show "h \<in> set (live_handles (srv p))" by (metis set_mset_mset union_single_eq_member)
  show "h \<notin># held_handles (l\<lparr>ready := rest\<rparr>)" by (rule not_held [OF inv]) simp
qed

lemma waiting_live:
  assumes ok: "proc_inv server_fd running l p" and "(fd, h) \<in> set (read_waiters l) \<or> (fd, h) \<in> set (write_waiters l)"
  shows "h \<in> set (live_handles (srv p))"
proof -
  have "h \<in># held_handles l" using assms(2) held_waiter by blast
  then have "h \<in># mset (live_handles (srv p))" using ok by (metis proc_inv_def union_iff)
  then show ?thesis by simp
qed

lemma waiter_fd:
  assumes ok: "proc_inv server_fd running l p" and "(fd, h) \<in> set (read_waiters l) \<or> (fd, h) \<in> set (write_waiters l)"
    and "i < length (conns (srv p))" and "\<not> closed i (srv p)" and "fd = int (conn_fd (conns (srv p) ! i))"
  shows "h = Suc i"
proof (cases h)
  case 0
  have "fd = int server_fd"
    using ok assms(2) by (auto simp: 0 proc_inv_def waits_read_def waits_write_def)
  moreover have "conn_fd (conns (srv p) ! i) \<noteq> server_fd"
    using live_fd_unique(1) [OF _ assms(3,4)] ok unfolding proc_inv_def by blast
  ultimately show ?thesis using assms(5) by simp
next
  case (Suc j)
  have "fd = int (conn_fd (conns (srv p) ! j))"
    using ok assms(2) by (auto simp: Suc proc_inv_def waits_read_def waits_write_def)
  then have same: "conn_fd (conns (srv p) ! j) = conn_fd (conns (srv p) ! i)" using assms(5) by linarith
  have j: "j < length (conns (srv p))" "\<not> closed j (srv p)" using waiting_live [OF ok assms(2)] by (simp_all add: Suc)
  have "server_reachable server_fd (srv p)" using ok by (simp add: proc_inv_def)
  from live_fd_unique(2) [OF this assms(3,4) j same] show ?thesis by (simp add: Suc)
qed

lemma resumed_client:
  assumes ok: "proc_ok server_fd l p" and queue: "ready l = Some (Suc i) # rest"
    and run: "resume_client K i (srv p, os p) = Some (s', w')"
  shows "proc_ok server_fd (do_actions (client_suspends i s') (l\<lparr>ready := rest\<rparr>)) (p\<lparr>srv := s', os := w'\<rparr>)"
proof -
  let ?l = "l\<lparr>ready := rest\<rparr>" and ?s = "srv p" and ?p = "p\<lparr>srv := s', os := w'\<rparr>"
  note pop = popped [OF ok queue]
  note was = pop(1) [unfolded proc_inv_def]
  have i: "i < length (conns ?s)" "\<not> closed i ?s" using pop(2) by simp_all
  have steps: "conn_steps i ?s s'" and susp: "suspended i s'" using resume_client_steps [OF run] by simp_all
  note kept = conn_steps_kept [OF steps, unfolded others_kept_def]
  have away: "h \<noteq> Suc i" if "(fd, h) \<in> set (read_waiters ?l) \<or> (fd, h) \<in> set (write_waiters ?l)" for fd h
    using that pop(3) held_waiter [of fd h ?l] by auto
  define cfd where "cfd = int (conn_fd (conns ?s ! i))"
  have free: "map_of (read_waiters ?l) cfd = None" "map_of (write_waiters ?l) cfd = None"
  proof -
    have "(cfd, h) \<notin> set (read_waiters ?l) \<and> (cfd, h) \<notin> set (write_waiters ?l)" for h
      using away [of cfd h] waiter_fd [OF pop(1) _ i cfd_def, of h] by blast
    then show "map_of (read_waiters ?l) cfd = None" "map_of (write_waiters ?l) cfd = None"
      by (auto simp: map_of_eq_None_iff)
  qed
  have live: "h \<in> set (live_handles s') \<longleftrightarrow> h \<in> set (live_handles ?s) \<and> (h = Suc i \<longrightarrow> \<not> closed i s')" for h
    using i kept by (cases h) (auto simp: closed_def)
  have inv: "proc_inv server_fd running ?l ?p" if held: "held_handles ?l + mset running = mset (live_handles s')" for running
  proof -
    have "waits_read server_fd ?p fd h" if m: "(fd, h) \<in> set (read_waiters ?l)" for fd h
      using was m away [OF disjI1 [OF m]] kept by (auto simp: waits_read_def split: nat.splits)
    moreover have "waits_write ?p fd h" if m: "(fd, h) \<in> set (write_waiters ?l)" for fd h
      using was m away [OF disjI2 [OF m]] kept by (auto simp: waits_write_def split: nat.splits)
    moreover have "server_reachable server_fd s'" "accepting s' = AwaitListen"
      using was conn_steps_reach [OF steps] kept by simp_all
    ultimately show ?thesis using was held by (auto simp: proc_inv_def)
  qed
  have still: "proc_inv server_fd [Suc i] ?l ?p" if "\<not> closed i s'"
  proof (rule inv)
    have "mset (live_handles s') = mset (live_handles ?s)" using live that by (intro live_handles_mset) auto
    then show "held_handles ?l + mset [Suc i] = mset (live_handles s')" using was by simp
  qed
  have cfd: "int (conn_fd (conns s' ! i)) = cfd" using kept by (simp add: cfd_def)
  show ?thesis
  proof (cases "phase_of (conns s' ! i)")
    case AwaitRead
    then have "\<not> closed i s'" "waits_read server_fd ?p cfd (Suc i)" by (simp_all add: closed_def waits_read_def cfd)
    from inv_wait_read [OF still [OF this(1)] this(2) free(1)] AwaitRead show ?thesis
      by (simp add: client_suspends_def do_actions_def cfd)
  next
    case (AwaitWrite serialized offset quit)
    then have "\<not> closed i s'" "waits_write ?p cfd (Suc i)" by (simp_all add: closed_def waits_write_def awaits_write_def cfd)
    from inv_wait_write [OF still [OF this(1)] this(2) free(2)] AwaitWrite show ?thesis
      by (simp add: client_suspends_def do_actions_def cfd)
  next
    case Closed
    then have "closed i s'" by (simp add: closed_def)
    have "mset (live_handles ?s) = mset (Suc i # live_handles s')"
    proof (rule live_handles_mset)
      show "distinct (Suc i # live_handles s')" using live [of "Suc i"] \<open>closed i s'\<close> by simp
      show "h \<in> set (Suc i # live_handles s') \<longleftrightarrow> h \<in> set (live_handles ?s)" for h
        using live [of h] pop(2) \<open>closed i s'\<close> by (cases "h = Suc i") simp_all
    qed
    then have "held_handles ?l + mset [] = mset (live_handles s')" using was by simp
    from inv [OF this] Closed show ?thesis by (simp add: proc_ok_def client_suspends_def do_actions_def)
  qed (use susp in \<open>simp_all add: suspended_def\<close>)
qed

lemma inv_spawns:
  "proc_inv server_fd (map Suc [from..<from + n] @ running) l p \<Longrightarrow>
     proc_inv server_fd running (do_actions (spawns from n) l) p"
proof (induction n arbitrary: "from" l)
  case (Suc n)
  have "[from..<from + Suc n] = from # [Suc from..<Suc from + n]" by (simp add: upt_conv_Cons)
  with Suc.prems have "proc_inv server_fd (map Suc [Suc from..<Suc from + n] @ running) (schedule (Some (Suc from)) l) p"
    by (simp del: upt_Suc add: inv_spawn)
  from Suc.IH [OF this] \<open>[from..<from + Suc n] = from # [Suc from..<Suc from + n]\<close> show ?case
    by (simp del: upt_Suc add: spawns_def do_actions_def)
qed (simp add: spawns_def do_actions_def)

lemma acceptor_free:
  assumes ok: "proc_inv server_fd [0] l p"
  shows "map_of (read_waiters l) (int server_fd) = None"
proof -
  have away: "0 \<notin># held_handles l" by (rule not_held [OF ok]) simp
  have "(int server_fd, h) \<notin> set (read_waiters l)" for h
  proof
    assume m: "(int server_fd, h) \<in> set (read_waiters l)"
    with away held_waiter(1) obtain i where h: "h = Suc i" by (metis not0_implies_Suc)
    then have "i < length (conns (srv p))" "\<not> closed i (srv p)" using waiting_live [OF ok disjI1 [OF m]] by simp_all
    with live_fd_unique(1) ok m show False by (fastforce simp: h proc_inv_def waits_read_def)
  qed
  then show ?thesis by (auto simp: map_of_eq_None_iff)
qed

lemma resumed_acceptor:
  assumes ok: "proc_ok server_fd l p" and queue: "ready l = Some 0 # rest"
    and run: "resume_proc K (int server_fd) 0 p = Some (acts, p')"
  shows "proc_ok server_fd (do_actions acts (l\<lparr>ready := rest\<rparr>)) p'"
proof -
  let ?l = "l\<lparr>ready := rest\<rparr>" and ?s = "srv p"
  note pop = popped [OF ok queue]
  note was = pop(1) [unfolded proc_inv_def]
  show ?thesis
  proof (cases "started p")
    case False
    then have p': "acts = [DoWaitRead (int server_fd) 0]" "p' = p\<lparr>started := True\<rparr>" using run by (simp_all add: resume_proc_def)
    have "proc_inv server_fd [0] ?l p'"
      using was by (auto simp: p' proc_inv_def waits_read_def waits_write_def split: nat.splits)
    from inv_wait_read [OF this _ acceptor_free [OF this]] show ?thesis
      by (simp add: p' do_actions_def waits_read_def)
  next
    case True
    then obtain s' w' where acc: "run_accept K (int server_fd) [] (?s\<lparr>accepting := AtAccept\<rparr>) (os p) = Some (acts, s', w')"
      and p': "p' = p\<lparr>srv := s', os := w'\<rparr>"
      using run by (auto simp: resume_proc_def split: option.splits)
    have "server_reachable server_fd (?s\<lparr>accepting := AtAccept\<rparr>)"
      using was by (auto intro: server_next server_step.listen_ready)
    with run_accept_steps [OF acc, of server_fd] obtain fds where
      acts: "acts = spawns (length (conns ?s)) (length fds) @ [DoWaitRead (int server_fd) 0]"
      and s': "conns s' = conns ?s @ map new_conn fds" "accepting s' = AwaitListen" "server_reachable server_fd s'"
      by (auto simp: appended_def)
    let ?new = "map Suc [length (conns ?s)..<length (conns ?s) + length fds]"
    have "mset (live_handles s') = mset (?new @ live_handles ?s)"
    proof (rule live_handles_mset)
      show "distinct (?new @ live_handles ?s)" by (auto simp: distinct_map live_handles_def)
      show "h \<in> set (?new @ live_handles ?s) \<longleftrightarrow> h \<in> set (live_handles s')" for h
        by (cases h) (auto simp: s' closed_def nth_append new_conn_def)
    qed
    then have held: "held_handles ?l + mset (?new @ [0]) = mset (live_handles s')" using was by simp
    have "waits_read server_fd p' fd h" if m: "(fd, h) \<in> set (read_waiters ?l)" for fd h
      using was m waiting_live [OF pop(1) disjI1 [OF m]]
      by (auto simp: p' s' waits_read_def nth_append split: nat.splits)
    moreover have "waits_write p' fd h" if m: "(fd, h) \<in> set (write_waiters ?l)" for fd h
      using was m waiting_live [OF pop(1) disjI2 [OF m]]
      by (auto simp: p' s' waits_write_def nth_append split: nat.splits)
    ultimately have "proc_inv server_fd (?new @ [0]) ?l p'"
      using was s' held by (auto simp: proc_inv_def p')
    from inv_spawns [OF this] have inv: "proc_inv server_fd [0] (do_actions (spawns (length (conns ?s)) (length fds)) ?l) p'" .
    from inv_wait_read [OF inv _ acceptor_free [OF inv]] True show ?thesis
      by (simp add: p' acts do_actions_def waits_read_def)
  qed
qed

lemma proc_front:
  assumes ok: "proc_ok server_fd l p" and queue: "ready l = h # rest"
    and run: "run_front done_proc (resume_proc K (int server_fd)) h (l\<lparr>ready := rest\<rparr>, p) = Some (l', p')"
  shows "proc_ok server_fd l' p'"
proof -
  obtain g where h: "h = Some g" using ok queue by (cases h) (auto simp: proc_ok_def proc_inv_def)
  note pop = popped [OF ok queue [unfolded h]]
  have "\<not> done_proc g p"
    by (rule nat.exhaust [of g]) (use pop(2) in \<open>simp_all add: done_proc_def\<close>)
  then obtain acts where res: "resume_proc K (int server_fd) g p = Some (acts, p')" and l': "l' = do_actions acts (l\<lparr>ready := rest\<rparr>)"
    using run by (auto simp: run_front_def h split: option.splits)
  show ?thesis
  proof (cases g)
    case 0
    with resumed_acceptor [OF ok] queue h res show ?thesis by (simp add: l')
  next
    case (Suc i)
    with res obtain s' w' where "resume_client K i (srv p, os p) = Some (s', w')"
      and "acts = client_suspends i s'" "p' = p\<lparr>srv := s', os := w'\<rparr>"
      by (auto simp: resume_proc_def split: option.splits)
    with resumed_client [OF ok] queue h Suc show ?thesis by (simp add: l')
  qed
qed

lemma proc_dispatch:
  assumes "proc_ok server_fd l p"
  shows "proc_ok server_fd (dispatch results l) p"
proof -
  have w: "waiters_ok l" using assms by (simp add: proc_ok_def proc_inv_def)
  note d = dispatch_handles [OF w, of results]
  obtain woken where "ready (dispatch results l) = ready l @ map Some woken" using d(2) by blast
  moreover have "\<forall>(fd, h)\<in>set (read_waiters (dispatch results l)). waits_read server_fd p fd h"
    "\<forall>(fd, h)\<in>set (write_waiters (dispatch results l)). waits_write p fd h"
    using assms dispatch_waiters [OF w, of results] by (auto simp: proc_ok_def proc_inv_def)
  ultimately show ?thesis using assms d(1,3,4) by (simp add: proc_ok_def proc_inv_def)
qed

lemma proc_os: "proc_ok server_fd l (p\<lparr>os := w\<rparr>) = proc_ok server_fd l p"
  by (simp add: proc_ok_def proc_inv_def waits_read_def waits_write_def cong: nat.case_cong)

interpretation process: loop_client done_proc "resume_proc K (int server_fd)" "poll_proc poll" "proc_ok server_fd"
  for K :: "'w kernel" and server_fd poll
  by unfold_locales (auto intro: proc_front proc_dispatch simp: poll_proc_def proc_os split: prod.splits)

subsection \<open>Every stretch between two polls ends\<close>

text \<open>What the process relies on: the table of open sockets of \<open>kernel_table\<close>; transfers and \<open>poll\<close>
that leave the table alone and move at most what was asked for; and \<open>budget\<close>, a bound on the bytes, the connections
and the interruptions that the kernel still has to deliver before the next \<open>poll\<close>, which may raise it.\<close>

definition server_kernel :: "'w kernel \<Rightarrow> (pollfd list \<Rightarrow> 'w \<Rightarrow> poll_result \<times> 'w) \<Rightarrow> ('w \<Rightarrow> int \<Rightarrow> sock option)
    \<Rightarrow> ('w \<Rightarrow> nat) \<Rightarrow> ('w \<Rightarrow> nat) \<Rightarrow> bool" where
  "server_kernel K poll sk addr_lists budget \<longleftrightarrow> kernel_table K sk addr_lists
   \<and> (\<forall>fd n w. 0 < n \<longrightarrow> (case sys_recv K fd n w of
        (ReadBytes bs, w') \<Rightarrow> sk w' = sk w \<and> bs \<noteq> [] \<and> length bs \<le> n \<and> budget w' < budget w
      | (ReadEof, w') \<Rightarrow> sk w' = sk w \<and> budget w' \<le> budget w
      | (ReadFail e, w') \<Rightarrow> sk w' = sk w \<and> budget w' \<le> budget w \<and> (e = EINTR \<longrightarrow> budget w' < budget w)))
   \<and> (\<forall>fd bs w. bs \<noteq> [] \<longrightarrow> (case sys_send K fd bs w of
        (Wrote n, w') \<Rightarrow> sk w' = sk w \<and> n \<le> length bs \<and> budget w' \<le> budget w
      | (WriteFail e, w') \<Rightarrow> sk w' = sk w \<and> budget w' \<le> budget w \<and> (e = EINTR \<longrightarrow> budget w' < budget w)))
   \<and> (\<forall>fd w. case sys_accept K fd w of
        (AcceptedFd c, w') \<Rightarrow> budget w' < budget w
      | (AcceptFail e, w') \<Rightarrow> budget w' \<le> budget w \<and> (e = EINTR \<longrightarrow> budget w' < budget w))
   \<and> (\<forall>fd w. budget (snd (sys_getfl K fd w)) \<le> budget w)
   \<and> (\<forall>fd n w. budget (snd (sys_setfl K fd n w)) \<le> budget w)
   \<and> (\<forall>fd w. budget (sys_close K fd w) \<le> budget w)
   \<and> (\<forall>fds w. sk (snd (poll fds w)) = sk w)"

text \<open>The sockets the kernel has open are the server's and those of the rest of the system.\<close>

definition owns :: "int set \<Rightarrow> ('w \<Rightarrow> int \<Rightarrow> sock option) \<Rightarrow> server \<Rightarrow> 'w \<Rightarrow> bool" where
  "owns others sk s w \<longleftrightarrow> dom (sk w) = others \<union> int ` open_fds s \<and> others \<inter> int ` open_fds s = {}"

lemma owns_cong: "owns others sk s w \<Longrightarrow> sk w' = sk w \<Longrightarrow> open_fds s' = open_fds s \<Longrightarrow> owns others sk s' w'"
  by (simp add: owns_def)

lemma owns_close:
  assumes own: "owns others sk s w" and fd: "fd \<in> open_fds s"
    and "sk w' = (sk w)(int fd := None)" and "open_fds s' = open_fds s - {fd}"
  shows "owns others sk s' w'"
proof -
  have cut: "(A \<union> D) - {x} = A \<union> (D - {x}) \<and> A \<inter> (D - {x}) = {}" if "x \<in> D" and "A \<inter> D = {}" for A D and x :: int
    using that by blast
  have mine: "int ` open_fds s' = int ` open_fds s - {int fd}"
    unfolding assms(4) using image_set_diff [OF inj_of_nat, of "open_fds s" "{fd}"] by simp
  have table: "dom (sk w') = dom (sk w) - {int fd}" by (simp add: assms(3))
  have "others \<inter> int ` open_fds s = {}" and dom: "dom (sk w) = others \<union> int ` open_fds s"
    using own by (simp_all only: owns_def)
  from cut [OF imageI [OF fd] this(1)] show ?thesis unfolding owns_def mine table dom by simp
qed

lemma close_budget: "server_kernel K poll sk addr_lists budget \<Longrightarrow> budget (close_socket K fd w) \<le> budget w"
  by (simp add: server_kernel_def close_socket_def)

lemma non_blocking_budget:
  "server_kernel K poll sk addr_lists budget \<Longrightarrow> budget (snd (set_non_blocking K fd w)) \<le> budget w"
  unfolding server_kernel_def set_non_blocking_def
  by (auto split: prod.split) (metis le_trans snd_conv)+

lemma conn_call_total:
  assumes law: "server_kernel K poll sk addr_lists budget" and inv: "server_inv server_fd s" and i: "i < length (conns s)"
    and own: "owns others sk s w" and step: "client_step ev (conns s ! i, kv s) = Some (c, store)"
  shows "\<exists>s' w'. conn_call K i ev (s, w) = Some (s', w') \<and> conns s' ! i = c \<and> i < length (conns s')
       \<and> server_inv server_fd s' \<and> owns others sk s' w' \<and> budget w' \<le> budget w"
proof -
  let ?fd = "conn_fd (conns s ! i)"
  obtain s' where s': "conn_step i ev s = Some s'" and c: "conns s' ! i = c" "length (conns s') = length (conns s)"
    and fds: "open_fds s' = (if phase_of c = Closed then open_fds s - {conn_fd c} else open_fds s)"
    using i step by (simp add: conn_step_def)
  have live: "conn_fd c = ?fd" "phase_of (conns s ! i) \<noteq> Closed" using client_step_fd [OF step] by simp_all
  have "?fd \<in> open_fds s"
    using inv i live(2) by (force simp: server_inv_def live_fds_index)
  have shut: "sk (close_socket K (int ?fd) w) = (sk w)(int ?fd := None)"
    using kernel_tableD(10) [OF law [unfolded server_kernel_def, THEN conjunct1]] by (simp add: close_socket_def)
  have "owns others sk s' (if closed i s' then close_socket K (int ?fd) w else w)"
  proof (cases "phase_of c = Closed")
    case True
    then have "open_fds s' = open_fds s - {?fd}" using fds live(1) by simp
    from owns_close [OF own \<open>?fd \<in> open_fds s\<close> shut this] True show ?thesis by (simp add: closed_def c)
  next
    case False
    with own fds show ?thesis by (simp add: owns_def closed_def c)
  qed
  moreover have "budget (if closed i s' then close_socket K (int ?fd) w else w) \<le> budget w"
    using close_budget [OF law] by simp
  ultimately show ?thesis
    using s' c conn_step_inv [OF s' inv] i by (auto simp: conn_call_def)
qed

text \<open>How a connection gets on: it suspends, or it has less to do.\<close>

definition to_send :: "conn \<Rightarrow> nat" where
  "to_send c = (case phase_of c of AtSend serialized offset quit \<Rightarrow> length serialized - offset | _ \<Rightarrow> 0)"

definition gets_on :: "conn \<Rightarrow> conn \<Rightarrow> bool" where
  "gets_on c c' \<longleftrightarrow> phase_of c' \<in> {AwaitRead, Closed} \<or> awaits_write (phase_of c')
     \<or> length (inbound c') < length (inbound c) \<or> (inbound c' = inbound c \<and> to_send c' < to_send c)"

lemma process_lines_gets_on: "process_lines (c, store) = (c', store') \<Longrightarrow> gets_on c c'"
  by (auto simp: process_lines_step gets_on_def split: option.splits prod.splits dest: find_char_Some_iff [THEN iffD1])

lemma recv_step:
  assumes "phase_of c = AtRecv" and "\<And>bs. r = ReadBytes bs \<Longrightarrow> bs \<noteq> [] \<and> length bs \<le> 4096"
  shows "\<exists>c' store'. client_step (Recv (recv_of r)) (c, store) = Some (c', store')
       \<and> ((\<exists>bs. r = ReadBytes bs) \<or> r = ReadFail EINTR \<or> gets_on c c')"
proof (cases r)
  case (ReadFail e)
  obtain c2 store2 where p: "process_lines (c, store) = (c2, store2)" by force
  from assms(1) ReadFail p process_lines_gets_on [OF p] show ?thesis
    by (cases e) (simp_all add: gets_on_def)
qed (use assms in \<open>auto simp: gets_on_def\<close>)

lemma send_step:
  assumes "phase_of c = AtSend serialized offset quit" and "\<And>n. r = Wrote n \<Longrightarrow> n \<le> length serialized - offset"
  shows "\<exists>c' store'. client_step (Send (send_of r)) (c, store) = Some (c', store')
       \<and> (r = WriteFail EINTR \<or> gets_on c c')"
proof (cases r)
  case (Wrote n)
  let ?c = "c\<lparr>sent := sent c @ take n (drop offset serialized)\<rparr>"
  obtain c2 store2 where p: "process_lines (?c, store) = (c2, store2)" by force
  then have "gets_on c c2" using process_lines_gets_on [OF p] by (simp add: gets_on_def to_send_def)
  with assms p show ?thesis by (auto simp: Wrote gets_on_def to_send_def Let_def)
next
  case (WriteFail e)
  with assms show ?thesis by (cases e) (auto simp: gets_on_def awaits_write_def)
qed

lemma kernel_recv:
  assumes "server_kernel K poll sk addr_lists budget" and "sys_recv K fd n w = (r, w')" and "0 < n"
  shows "sk w' = sk w" and "budget w' \<le> budget w" and "r = ReadBytes bs \<Longrightarrow> bs \<noteq> [] \<and> length bs \<le> n"
    and "(\<exists>bs. r = ReadBytes bs) \<or> r = ReadFail EINTR \<Longrightarrow> budget w' < budget w"
  using assms(1) [unfolded server_kernel_def, THEN conjunct2, THEN conjunct1, rule_format, OF assms(3), where fd = fd and w = w] assms(2)
  by (auto split: read_result.splits)

lemma kernel_send:
  assumes "server_kernel K poll sk addr_lists budget" and "sys_send K fd bs w = (r, w')" and "bs \<noteq> []"
  shows "sk w' = sk w" and "budget w' \<le> budget w" and "r = Wrote n \<Longrightarrow> n \<le> length bs"
    and "r = WriteFail EINTR \<Longrightarrow> budget w' < budget w"
  using assms(1) [unfolded server_kernel_def, THEN conjunct2, THEN conjunct2, THEN conjunct1, rule_format, OF assms(3), where fd = fd and w = w] assms(2)
  by (auto split: write_result.splits)

lemma run_client_total:
  assumes law: "server_kernel K poll sk addr_lists budget"
  shows "server_inv server_fd s \<Longrightarrow> i < length (conns s) \<Longrightarrow> owns others sk s w \<Longrightarrow>
     \<exists>s' w'. run_client K i (s, w) = Some (s', w') \<and> owns others sk s' w' \<and> budget w' \<le> budget w"
proof (induction "(budget w, length (inbound (conns s ! i)), to_send (conns s ! i))" arbitrary: s w
    rule: wf_induct_rule [OF wf_lex_prod [OF wf_less_than wf_lex_prod [OF wf_less_than wf_less_than]]])
  case (1 s w)
  let ?c = "conns s ! i" and ?fd = "int (conn_fd (conns s ! i))"
  have ok: "conn_ok ?c" using 1(2,3) by (simp add: server_inv_def)
  have call: "\<exists>s' w'. Option.bind (conn_call K i ev (s, w1)) (run_client K i) = Some (s', w') \<and> owns others sk s' w' \<and> budget w' \<le> budget w"
    if ev: "client_step ev (?c, kv s) = Some (c', store')" and w1: "sk w1 = sk w" "budget w1 \<le> budget w"
      and less: "budget w1 < budget w \<or> gets_on ?c c'" for ev c' store' w1
  proof -
    have "owns others sk s w1" using owns_cong [OF 1(4)] w1 by simp
    from conn_call_total [OF law 1(2,3) this ev] obtain s1 w2 where one: "conn_call K i ev (s, w1) = Some (s1, w2)"
      and c': "conns s1 ! i = c'" and s1: "i < length (conns s1)" "server_inv server_fd s1" "owns others sk s1 w2" "budget w2 \<le> budget w1" by blast
    have "\<exists>s' w'. run_client K i (s1, w2) = Some (s', w') \<and> owns others sk s' w' \<and> budget w' \<le> budget w"
    proof (cases "phase_of c' \<in> {AwaitRead, Closed} \<or> awaits_write (phase_of c')")
      case True
      then have "run_client K i (s1, w2) = Some (s1, w2)"
        by (subst run_client.simps) (auto simp: c' Let_def awaits_write_def split: phase.splits)
      with s1 w1 show ?thesis by simp
    next
      case False
      with less have "((budget w2, length (inbound (conns s1 ! i)), to_send (conns s1 ! i)), budget w, length (inbound ?c), to_send ?c)
          \<in> less_than <*lex*> less_than <*lex*> less_than"
        using s1(4) w1(2) by (auto simp: gets_on_def c')
      from 1(1) [OF this s1(2,1,3)] obtain s' w' where "run_client K i (s1, w2) = Some (s', w')" "owns others sk s' w'" "budget w' \<le> budget w2"
        by blast
      with s1(4) w1(2) show ?thesis by auto
    qed
    with one show ?thesis by simp
  qed
  show ?case
  proof (cases "phase_of ?c")
    case AtRecv
    obtain r w1 where recv: "sys_recv K ?fd 4096 w = (r, w1)" by (cases "sys_recv K ?fd 4096 w")
    note k = kernel_recv [OF law recv]
    obtain c' store' where "client_step (Recv (recv_of r)) (?c, kv s) = Some (c', store')"
      "(\<exists>bs. r = ReadBytes bs) \<or> r = ReadFail EINTR \<or> gets_on ?c c'"
      using recv_step [OF AtRecv, of r "kv s"] k(3) by auto
    from call [OF this(1), of w1] this(2) k show ?thesis
      by (subst run_client.simps) (auto simp: AtRecv recv Let_def)
  next
    case (AtSend serialized offset quit)
    then have ne: "drop offset serialized \<noteq> []" using ok by (simp add: conn_ok_def)
    obtain r w1 where send: "sys_send K ?fd (drop offset serialized) w = (r, w1)" by (cases "sys_send K ?fd (drop offset serialized) w")
    note k = kernel_send [OF law send ne]
    obtain c' store' where "client_step (Send (send_of r)) (?c, kv s) = Some (c', store')" "r = WriteFail EINTR \<or> gets_on ?c c'"
      using send_step [OF AtSend, of r "kv s"] k(3) by auto
    from call [OF this(1), of w1] this(2) k show ?thesis
      by (subst run_client.simps) (auto simp: AtSend send Let_def)
  qed (use 1(4) in \<open>subst run_client.simps, simp add: Let_def\<close>)+
qed

lemma resume_client_total:
  assumes law: "server_kernel K poll sk addr_lists budget" and inv: "server_inv server_fd s"
    and i: "i < length (conns s)" and own: "owns others sk s w"
  shows "\<exists>s' w'. resume_client K i (s, w) = Some (s', w') \<and> owns others sk s' w' \<and> budget w' \<le> budget w"
proof -
  have wake: "\<exists>s' w'. Option.bind (conn_call K i ev (s, w)) (run_client K i) = Some (s', w') \<and> owns others sk s' w' \<and> budget w' \<le> budget w"
    if "client_step ev (conns s ! i, kv s) = Some (c', store')" for ev c' store'
  proof -
    from conn_call_total [OF law inv i own that] obtain s1 w1 where one: "conn_call K i ev (s, w) = Some (s1, w1)"
      and s1: "i < length (conns s1)" "server_inv server_fd s1" "owns others sk s1 w1" "budget w1 \<le> budget w" by blast
    from run_client_total [OF law s1(2,1,3)] one s1(4) show ?thesis by fastforce
  qed
  from wake [of Readable] wake [of Writable] run_client_total [OF law inv i own] show ?thesis
    by (cases "phase_of (conns s ! i)") (simp_all add: resume_client_def)
qed

lemma kernel_accept:
  assumes law: "server_kernel K poll sk addr_lists budget" and call: "sys_accept K fd w = (r, w')"
  shows "r = AcceptedFd c \<Longrightarrow> 0 \<le> c \<and> opens sk c w w' \<and> budget w' < budget w"
    and "r = AcceptFail e \<Longrightarrow> sk w' = sk w \<and> budget w' \<le> budget w \<and> (e = EINTR \<longrightarrow> budget w' < budget w)"
  using law [unfolded server_kernel_def, THEN conjunct2, THEN conjunct2, THEN conjunct2, THEN conjunct1, rule_format, of w fd]
    kernel_tableD(8,9) [OF law [unfolded server_kernel_def, THEN conjunct1], of fd w] call by auto

text \<open>An accepted socket joins those of the server, or is closed again.\<close>

lemma accepted_owns:
  assumes law: "server_kernel K poll sk addr_lists budget" and own: "owns others sk s w"
    and accepted: "opens sk c w w1" "0 \<le> c" and nb: "set_non_blocking K c w1 = (ok, w2)"
  shows "nat c \<notin> open_fds s"
    and "ok \<Longrightarrow> open_fds s' = insert (nat c) (open_fds s) \<Longrightarrow> owns others sk s' w2"
    and "\<not> ok \<Longrightarrow> owns others sk s (close_socket K c w2)"
proof -
  note table = law [unfolded server_kernel_def, THEN conjunct1]
  note conf = set_non_blocking_sets [OF table opens_configuring [OF accepted] nb, THEN conjunct2]
  have fresh: "c \<notin> dom (sk w)" using accepted by (auto simp: opens_def)
  with own have new: "c \<notin> others" "c \<notin> int ` open_fds s" unfolding owns_def by blast+
  with accepted(2) show "nat c \<notin> open_fds s" by (metis imageI int_nat_eq)
  show "owns others sk s' w2" if ok and s': "open_fds s' = insert (nat c) (open_fds s)"
  proof -
    obtain so where "sk w2 = (sk w)(c \<mapsto> so)" using conf \<open>ok\<close> by (auto simp: configuring_def)
    then have dom: "dom (sk w2) = insert c (dom (sk w))" by simp
    have mine: "int ` open_fds s' = insert c (int ` open_fds s)" using accepted(2) by (simp add: s')
    show ?thesis using own new(1) unfolding owns_def dom mine by simp
  qed
  show "owns others sk s (close_socket K c w2)" if "\<not> ok"
    using configuring_close [OF table, of "sk w" c _ w2] conf that own by (auto simp: owns_def)
qed

lemma run_accept_total:
  assumes law: "server_kernel K poll sk addr_lists budget"
  shows "accepting s = AtAccept \<Longrightarrow> owns others sk s w \<Longrightarrow>
     \<exists>acts s' w'. run_accept K server_fd spawned s w = Some (acts, s', w') \<and> owns others sk s' w'
       \<and> budget w' + length (conns s') \<le> budget w + length (conns s)"
proof (induction "budget w" arbitrary: spawned s w rule: less_induct)
  case (less w spawned s)
  obtain r w1 where call: "sys_accept K server_fd w = (r, w1)" by (cases "sys_accept K server_fd w")
  show ?case
  proof (cases r)
    case (AcceptFail e)
    note k = kernel_accept(2) [OF law call this]
    have own: "owns others sk s w1" using owns_cong [OF less.prems(2)] k by simp
    show ?thesis
    proof (cases "e = EINTR")
      case True
      with less.hyps [of w1 s] less.prems(1) own k
      obtain acts s' w' where "run_accept K server_fd spawned s w1 = Some (acts, s', w')" "owns others sk s' w'"
        "budget w' + length (conns s') \<le> budget w1 + length (conns s)" by blast
      with True k less.prems(1) show ?thesis by (subst run_accept.simps) (simp add: call AcceptFail)
    next
      case False
      then obtain s' where "accept_step (accept_of e) s = Some s'" "s' = s\<lparr>accepting := AwaitListen\<rparr>"
        using less.prems(1) by (cases e) auto
      with False k owns_cong [OF own, of w1 s'] show ?thesis by (subst run_accept.simps) (simp add: call AcceptFail)
    qed
  next
    case (AcceptedFd c)
    note k = kernel_accept(1) [OF law call this]
    obtain ok w2 where nb: "set_non_blocking K c w1 = (ok, w2)" by (cases "set_non_blocking K c w1")
    note own = accepted_owns [OF law less.prems(2) _ _ nb]
    have b: "budget w2 < budget w" using non_blocking_budget [OF law, of c w1] nb k by simp
    show ?thesis
    proof (cases ok)
      case True
      let ?s = "s\<lparr>conns := conns s @ [new_conn (nat c)], open_fds := insert (nat c) (open_fds s)\<rparr>"
      have "owns others sk ?s w2" using own(2) k True by simp
      with less.hyps [OF b, of ?s] less.prems(1)
      obtain acts s' w' where "run_accept K server_fd (spawned @ [DoSpawn (Some (Suc (length (conns s))))]) ?s w2 = Some (acts, s', w')"
        "owns others sk s' w'" "budget w' + length (conns s') \<le> budget w2 + Suc (length (conns s))" by fastforce
      with True k b nb less.prems(1) own(1) show ?thesis by (subst run_accept.simps) (simp add: call AcceptedFd)
    next
      case False
      have b': "budget (close_socket K c w2) < budget w" using close_budget [OF law, of c w2] b by simp
      have "owns others sk s (close_socket K c w2)" using own(3) k False by simp
      with less.hyps [OF b', of s] less.prems(1)
      obtain acts s' w' where "run_accept K server_fd spawned s (close_socket K c w2) = Some (acts, s', w')"
        "owns others sk s' w'" "budget w' + length (conns s') \<le> budget (close_socket K c w2) + length (conns s)" by blast
      with False k b' nb less.prems(1) own(1) show ?thesis by (subst run_accept.simps) (simp add: call AcceptedFd)
    qed
  qed
qed

definition served :: "'w kernel \<Rightarrow> (pollfd list \<Rightarrow> 'w \<Rightarrow> poll_result \<times> 'w) \<Rightarrow> ('w \<Rightarrow> int \<Rightarrow> sock option)
    \<Rightarrow> ('w \<Rightarrow> nat) \<Rightarrow> ('w \<Rightarrow> nat) \<Rightarrow> int set \<Rightarrow> nat \<Rightarrow> event_loop \<Rightarrow> 'w process \<Rightarrow> bool" where
  "served K poll sk addr_lists budget others server_fd l p \<longleftrightarrow>
     server_kernel K poll sk addr_lists budget \<and> proc_ok server_fd l p \<and> owns others sk (srv p) (os p)"

definition work_left :: "('w \<Rightarrow> nat) \<Rightarrow> event_loop \<Rightarrow> 'w process \<Rightarrow> nat" where
  "work_left budget l p = 2 * budget (os p) + length (ready l)"

lemma ready_waits [simp]: "ready (do_actions (client_suspends i s) l) = ready l"
  by (simp add: client_suspends_def do_actions_def wait_read_def wait_write_def Let_def split: phase.split)

lemma ready_spawns: "length (ready (do_actions (spawns m n @ [DoWaitRead fd h]) l)) = length (ready l) + n"
proof -
  have "length (ready (fold do_action (map (\<lambda>i. DoSpawn (Some (Suc i))) is) l)) = length (ready l) + length is" for "is"
    by (induction "is" arbitrary: l) (simp_all add: schedule_def)
  then show ?thesis by (simp add: do_actions_def spawns_def wait_read_def)
qed

lemma served_front:
  assumes served: "served K poll sk addr_lists budget others server_fd l p" and queue: "ready l = h # rest"
  shows "\<exists>l' p'. run_front done_proc (resume_proc K (int server_fd)) h (l\<lparr>ready := rest\<rparr>, p) = Some (l', p')
       \<and> served K poll sk addr_lists budget others server_fd l' p' \<and> work_left budget l' p' < work_left budget l p"
proof -
  have law: "server_kernel K poll sk addr_lists budget" and ok: "proc_ok server_fd l p" and own: "owns others sk (srv p) (os p)"
    using served by (simp_all add: served_def)
  have inv: "server_inv server_fd (srv p)" using ok server_reachable_inv by (auto simp: proc_ok_def proc_inv_def)
  obtain g where h: "h = Some g" using ok queue by (cases h) (auto simp: proc_ok_def proc_inv_def)
  note pop = popped [OF ok queue [unfolded h]]
  have live: "\<not> done_proc g p"
    by (rule nat.exhaust [of g]) (use pop(2) in \<open>simp_all add: done_proc_def\<close>)
  have "\<exists>acts p'. resume_proc K (int server_fd) g p = Some (acts, p') \<and> owns others sk (srv p') (os p')
      \<and> 2 * budget (os p') + length (ready (do_actions acts (l\<lparr>ready := rest\<rparr>))) \<le> 2 * budget (os p) + length rest"
  proof (cases g)
    case (Suc i)
    with pop(2) have "i < length (conns (srv p))" by simp
    from resume_client_total [OF law inv this own] Suc show ?thesis by (force simp: resume_proc_def)
  next
    case 0
    show ?thesis
    proof (cases "started p")
      case True
      let ?s = "(srv p)\<lparr>accepting := AtAccept\<rparr>"
      have "owns others sk ?s (os p)" using owns_cong [OF own refl, of ?s] by simp
      from run_accept_total [OF law _ this, of "int server_fd" "[]"] obtain acts s' w' where
        acc: "run_accept K (int server_fd) [] ?s (os p) = Some (acts, s', w')" and own': "owns others sk s' w'"
        and b: "budget w' + length (conns s') \<le> budget (os p) + length (conns (srv p))" by auto
      from run_accept_steps [OF acc, of server_fd] obtain fds where
        acts: "acts = spawns (length (conns (srv p))) (length fds) @ [DoWaitRead (int server_fd) 0]"
        and "appended ?s fds s'" by auto
      then have "length (conns s') = length (conns (srv p)) + length fds" by (simp add: appended_def)
      with b have "2 * budget w' + length (ready (do_actions acts (l\<lparr>ready := rest\<rparr>))) \<le> 2 * budget (os p) + length rest"
        unfolding acts ready_spawns by simp
      with own' show ?thesis by (auto simp: 0 resume_proc_def True acc)
    next
      case False
      with own show ?thesis by (simp add: 0 resume_proc_def do_actions_def wait_read_def)
    qed
  qed
  then obtain acts p' where res: "resume_proc K (int server_fd) g p = Some (acts, p')" and own': "owns others sk (srv p') (os p')"
    and b: "2 * budget (os p') + length (ready (do_actions acts (l\<lparr>ready := rest\<rparr>))) \<le> 2 * budget (os p) + length rest" by blast
  have front: "run_front done_proc (resume_proc K (int server_fd)) h (l\<lparr>ready := rest\<rparr>, p) = Some (do_actions acts (l\<lparr>ready := rest\<rparr>), p')"
    using live res by (simp add: run_front_def h)
  show ?thesis using front proc_front [OF ok queue front] law own' b queue by (simp add: served_def work_left_def)
qed

interpretation serving: draining_client done_proc "resume_proc K (int server_fd)" "poll_proc poll"
    "served K poll sk addr_lists budget others server_fd" "work_left budget"
  for K :: "'w kernel" and server_fd poll sk addr_lists budget others
proof unfold_locales
  show "served K poll sk addr_lists budget others server_fd l' p'"
    if "served K poll sk addr_lists budget others server_fd l p" "ready l = h # rest"
      "run_front done_proc (resume_proc K (int server_fd)) h (l\<lparr>ready := rest\<rparr>, p) = Some (l', p')" for l p h rest l' p'
    using served_front [OF that(1,2)] that(3) by simp
  show "served K poll sk addr_lists budget others server_fd l p'"
    if was: "served K poll sk addr_lists budget others server_fd l p" and polled: "poll_proc poll (poll_fds l) p = (r, p')" for l p r p'
  proof -
    obtain w where p': "p' = p\<lparr>os := w\<rparr>" "snd (poll (poll_fds l) (os p)) = w"
      using polled by (auto simp: poll_proc_def split: prod.splits)
    then have "sk w = sk (os p)" using was unfolding served_def server_kernel_def by blast
    with was owns_cong [of others sk "srv p" "os p" w "srv p"] show ?thesis
      by (simp add: served_def p'(1) proc_os)
  qed
  show "served K poll sk addr_lists budget others server_fd (dispatch results l) p"
    if "served K poll sk addr_lists budget others server_fd l p" for l p results
    using that by (simp add: served_def proc_dispatch)
  show "\<exists>l' p'. run_front done_proc (resume_proc K (int server_fd)) h (l\<lparr>ready := rest\<rparr>, p) = Some (l', p')
       \<and> work_left budget l' p' < work_left budget l p"
    if "served K poll sk addr_lists budget others server_fd l p" "ready l = h # rest" for l p h rest
    using served_front [OF that] by blast
qed

end
