(* ===== verification/TcpProcessProps.thy ===== *)
theory TcpProcessProps
  imports TcpProcess SimKernel
begin

section \<open>The server process: its properties\<close>

text \<open>
  The theorems on the process of \<open>TcpProcess\<close>, rested on the interpretations \<open>process\<close> (what every
  resumption keeps) and \<open>serving\<close> (what makes the ready queue drain), and a scripted kernel for the examples.
\<close>

subsection \<open>At a poll\<close>

lemma process_init_ok: "proc_ok server_fd (fst (process_init (int server_fd) w)) (snd (process_init (int server_fd) w))"
  by (simp add: process_init_def proc_ok_def proc_inv_def server_start do_actions_def schedule_def event_loop_init_def
      waiters_ok_def held_handles_def ready_handles_def waiting_handles_def live_handles_def)
    (simp add: server_init_def)

text \<open>When the queue is empty every live coroutine waits, so the polled descriptors are the open ones.\<close>

lemma polls_open:
  assumes ok: "proc_ok server_fd l p" and idle: "ready l = []"
  shows "dom (map_of (read_waiters l)) \<union> dom (map_of (write_waiters l)) = int ` open_fds (srv p)"
proof -
  have inv: "proc_inv server_fd [] l p" using ok by (simp add: proc_ok_def)
  note was = inv [unfolded proc_inv_def]
  have fds: "open_fds (srv p) = set (live_fds server_fd (conns (srv p)))"
    using was server_reachable_inv [of server_fd "srv p"] by (simp add: server_inv_def)
  then have open_iff: "x \<in> open_fds (srv p) \<longleftrightarrow> x = server_fd
      \<or> (\<exists>i. i < length (conns (srv p)) \<and> \<not> closed i (srv p) \<and> x = conn_fd (conns (srv p) ! i))" for x
    by (auto simp: live_fds_index closed_def)
  have waiting: "\<exists>fd. (fd, h) \<in> set (read_waiters l) \<or> (fd, h) \<in> set (write_waiters l)" if "h \<in> set (live_handles (srv p))" for h
  proof -
    have "waiting_handles l = mset (live_handles (srv p))" using was idle by (simp add: held_handles_def ready_handles_def)
    with that have "h \<in># waiting_handles l" by simp
    then show ?thesis by (auto simp: waiting_handles_def)
  qed
  show ?thesis
  proof (intro equalityI subsetI)
    fix fd assume "fd \<in> dom (map_of (read_waiters l)) \<union> dom (map_of (write_waiters l))"
    then obtain h where m: "(fd, h) \<in> set (read_waiters l) \<or> (fd, h) \<in> set (write_waiters l)"
      by (auto dest: map_of_SomeD)
    note live = waiting_live [OF inv m]
    have "fd \<in> int ` {x. x = server_fd \<or> (\<exists>i. i < length (conns (srv p)) \<and> \<not> closed i (srv p) \<and> x = conn_fd (conns (srv p) ! i))}"
    proof (cases h)
      case 0
      then show ?thesis using m was by (auto simp: waits_read_def waits_write_def)
    next
      case (Suc i)
      then have "fd = int (conn_fd (conns (srv p) ! i))" using m was by (auto simp: waits_read_def waits_write_def)
      with live Suc show ?thesis by auto
    qed
    then show "fd \<in> int ` open_fds (srv p)" using open_iff by blast
  next
    fix fd assume "fd \<in> int ` open_fds (srv p)"
    then obtain x where x: "fd = int x" "x \<in> open_fds (srv p)" by blast
    have "\<exists>h. (fd, h) \<in> set (read_waiters l) \<or> (fd, h) \<in> set (write_waiters l)"
    proof (cases "x = server_fd")
      case True
      obtain f where f: "(f, 0) \<in> set (read_waiters l) \<or> (f, 0) \<in> set (write_waiters l)" using waiting [of 0] by auto
      with was have "f = int server_fd" by (auto simp: waits_read_def waits_write_def)
      with f True x show ?thesis by blast
    next
      case False
      with x open_iff obtain i where i: "i < length (conns (srv p))" "\<not> closed i (srv p)" "x = conn_fd (conns (srv p) ! i)" by blast
      then obtain f where f: "(f, Suc i) \<in> set (read_waiters l) \<or> (f, Suc i) \<in> set (write_waiters l)"
        using waiting [of "Suc i"] by auto
      with was have "f = int (conn_fd (conns (srv p) ! i))" by (auto simp: waits_read_def waits_write_def)
      with f i x show ?thesis by blast
    qed
    then show "fd \<in> dom (map_of (read_waiters l)) \<union> dom (map_of (write_waiters l))"
      unfolding Un_iff dom_map_of_conv_image_fst by force
  qed
qed

subsection \<open>A scripted kernel\<close>

text \<open>Between two polls: how many connections are pending, and the chunks to deliver, to whoever reads
first. The script lists what each poll brings; when it is used up, \<open>poll\<close> fails.\<close>

type_synonym script = "(nat \<times> string list) \<times> (nat \<times> string list) list"

definition script_recv :: "nat \<Rightarrow> script \<Rightarrow> read_result \<times> script" where
  "script_recv n = (\<lambda>((pending, chunks), rest).
     case chunks of
       [] \<Rightarrow> (ReadFail EAGAIN, (pending, []), rest)
     | c # cs \<Rightarrow> if c = [] then (ReadFail EINTR, (pending, cs), rest)
                else (ReadBytes (take n c), (pending, cs), rest))"

definition script_kernel :: "script ksim kernel" where
  "script_kernel = (sim_kernel (\<lambda>bs x. (Wrote (length bs), x)) script_recv)
     \<lparr>sys_accept := (\<lambda>fd w.
        case ks_conn w of ((pending, chunks), rest) \<Rightarrow>
          if pending = 0 then (AcceptFail EAGAIN, w)
          else let (c, w) = ks_open AF_INET w in (AcceptedFd c, w\<lparr>ks_conn := ((pending - 1, chunks), rest)\<rparr>))\<rparr>"

definition script_poll :: "pollfd list \<Rightarrow> script ksim \<Rightarrow> poll_result \<times> script ksim" where
  "script_poll fds w =
     (case ks_conn w of
        (now, []) \<Rightarrow> (PollFailed, w)
      | (now, e # rest) \<Rightarrow> (PollReady (map (\<lambda>p. (pfd_fd p, [POLLIN])) fds), w\<lparr>ks_conn := (e, rest)\<rparr>))"

definition script_world :: "(nat \<times> string list) list \<Rightarrow> script ksim" where
  "script_world rest = \<lparr>ks_socks = [], ks_lists = 0, ks_hosts = [], ks_dead = [], ks_taken = [80], ks_conn = ((0, []), rest)\<rparr>"

definition script_budget :: "script ksim \<Rightarrow> nat" where
  "script_budget w = (case ks_conn w of ((pending, chunks), rest) \<Rightarrow> pending + length chunks)"

lemma script_law: "server_kernel script_kernel script_poll ks_table ks_lists script_budget"
proof -
  note defs = script_kernel_def sim_kernel_def script_budget_def ks_io_def script_recv_def
  have set_conn: "ks_conn (snd (ks_set f allowed fd w)) = ks_conn w" for f allowed fd and w :: "script ksim"
    by (simp add: ks_set_def split: option.split)
  have table: "kernel_table script_kernel ks_table ks_lists"
  proof -
    have conn: "opens ks_table fd w (w'\<lparr>ks_conn := x\<rparr>) = opens ks_table fd w w'" for fd x and w w' :: "script ksim"
      by (simp add: opens_def ks_table_def)
    show ?thesis
      unfolding kernel_table_def
      by (auto simp: script_kernel_def sim_kernel_def ks_set_sets ks_table_def delete_conv' Let_def conn
          split: option.split prod.split dest!: ks_open_opens)
  qed
  show ?thesis
    unfolding server_kernel_def
    by (intro conjI table) (auto simp: defs set_conn ks_table_def ks_open_def Let_def script_poll_def split: list.split prod.split)
qed

declare run_client.simps [code] run_accept.simps [code] drain_ready.simps [code]

subsection \<open>Properties\<close>

text \<open>
  C21: The coroutines on the event loop are the server of \<open>TcpServer\<close>: for any kernel and any \<open>poll\<close>, every
  state the process passes through is a reachable state of the server; the loop holds every live coroutine
  exactly once, as queued or as waiting, and no other; a queued coroutine has never ended, so no destroyed
  frame is resumed; and whoever waits on a descriptor is the coroutine that owns it, suspended in that \<open>co_await\<close>.
\<close>
theorem process_runs_server:
  assumes "loop_visits done_proc (resume_proc K (int server_fd)) (poll_proc poll) (process_init (int server_fd) w) l p"
  shows "server_reachable server_fd (srv p)
       \<and> held_handles l = mset (live_handles (srv p))
       \<and> (\<forall>h. Some h \<in> set (ready l) \<longrightarrow> \<not> done_proc h p)
       \<and> (\<forall>(fd, h)\<in>set (read_waiters l). waits_read server_fd p fd h)
       \<and> (\<forall>(fd, h)\<in>set (write_waiters l). waits_write p fd h)"
proof -
  have ok: "proc_ok server_fd l p" by (rule process.visited [OF assms process_init_ok])
  have "\<not> done_proc h p" if queued: "Some h \<in> set (ready l)" for h
  proof -
    have "h \<in># ready_handles l" using queued by (force simp: ready_handles_def)
    then have "h \<in># held_handles l" by (simp add: held_handles_def)
    then have "h \<in> set (live_handles (srv p))" using ok by (simp add: proc_ok_def proc_inv_def)
    then show ?thesis by (rule_tac nat.exhaust [of h]) (simp_all add: done_proc_def)
  qed
  with ok show ?thesis by (simp add: proc_ok_def proc_inv_def)
qed

text \<open>The listener is open; two clients connect and send nothing.\<close>

definition script_listening :: "(nat \<times> string list) list \<Rightarrow> script ksim" where
  "script_listening rest = snd (create_server_socket script_kernel 9090 16 (script_world rest))"

lemma script_listening: "create_server_socket script_kernel 9090 16 (script_world rest) = (3, script_listening rest)"
  and script_listening_table: "dom (ks_table (script_listening rest)) = {3}"
proof -
  have "fst (create_server_socket script_kernel 9090 16 (script_world rest)) = 3"
    by (simp add: create_server_socket_def set_reuseaddr_def set_non_blocking_def script_kernel_def sim_kernel_def ks_open_def
        ks_fresh_def script_world_def ks_set_def ks_table_def new_sock_def Let_def)
  then show run: "create_server_socket script_kernel 9090 16 (script_world rest) = (3, script_listening rest)"
    by (metis prod.collapse script_listening_def)
  from create_server_socket_result [OF script_law [unfolded server_kernel_def, THEN conjunct1] run]
  show "dom (ks_table (script_listening rest)) = {3}"
    by (auto simp: configuring_def ks_table_def script_world_def split: if_splits)
qed

lemma script_run:
  "map_option (\<lambda>(l, p). (ready l, read_waiters l, write_waiters l))
     (Option.bind (drain_ready done_proc (resume_proc script_kernel 3) (process_init 3 (script_listening [(2, [])]))) (\<lambda>(l, p).
        case poll_proc script_poll (poll_fds l) p of
          (PollReady results, p) \<Rightarrow> drain_ready done_proc (resume_proc script_kernel 3) (dispatch results l, p)
        | _ \<Rightarrow> None)) = Some ([], [(3, 0), (4, 1), (5, 2)], [])"
  by code_simp

theorem process_runs_server_witness:
  "\<exists>l p. loop_visits done_proc (resume_proc script_kernel (int 3)) (poll_proc script_poll)
        (process_init (int 3) (script_listening [(2, [])])) l p
     \<and> read_waiters l = [(3, 0), (4, 1), (5, 2)] \<and> mset (live_handles (srv p)) = {#0, 1, 2#}"
proof -
  let ?init = "process_init 3 (script_listening [(2, [])])"
  obtain l1 p1 where one: "drain_ready done_proc (resume_proc script_kernel 3) ?init = Some (l1, p1)"
    using script_run by (cases "drain_ready done_proc (resume_proc script_kernel 3) ?init") auto
  obtain results p2 where poll: "poll_proc script_poll (poll_fds l1) p1 = (PollReady results, p2)"
    using script_run by (cases "poll_proc script_poll (poll_fds l1) p1") (auto simp: one split: poll_result.splits)
  obtain l3 p3 where two: "drain_ready done_proc (resume_proc script_kernel 3) (dispatch results l1, p2) = Some (l3, p3)"
    and l3: "ready l3 = []" "read_waiters l3 = [(3, 0), (4, 1), (5, 2)]" "write_waiters l3 = []"
    using script_run by (auto simp: one poll)
  have first: "loop_visits done_proc (resume_proc script_kernel (int 3)) (poll_proc script_poll) (process_init (int 3) (script_listening [(2, [])])) l1 p1"
    using drain_ready_visits [OF one] by simp
  have "\<not> stopping l1" "ready l1 = []"
    using process.visited [OF first process_init_ok] drain_ready_empties [OF one] by (simp_all add: proc_ok_def proc_inv_def)
  from visit_poll [OF first this(2,1) poll]
  have "loop_visits done_proc (resume_proc script_kernel (int 3)) (poll_proc script_poll) (process_init (int 3) (script_listening [(2, [])])) (dispatch results l1) p2"
    by simp
  from loop_visits_trans [OF _ this, of l3 p3] drain_ready_visits [OF two, of "poll_proc script_poll"]
  have last: "loop_visits done_proc (resume_proc script_kernel (int 3)) (poll_proc script_poll) (process_init (int 3) (script_listening [(2, [])])) l3 p3"
    by simp
  have "mset (live_handles (srv p3)) = {#0, 1, 2#}"
    using process_runs_server [OF last] l3 by (simp add: held_handles_def ready_handles_def waiting_handles_def)
  with last l3 show ?thesis by blast
qed

text \<open>
  C22: Every stretch between two polls ends. On a kernel that delivers finitely much before the next \<open>poll\<close>,
  the ready queue drains from every state the process passes through, new connections and all their commands included;
  then each of its open descriptors is polled exactly once and no other, and the sockets
  open in the kernel are exactly the listener, one per live connection, and those of others.
\<close>
theorem process_stretches_end:
  assumes "server_kernel K poll sk addr_lists budget"
    and "dom (sk w) = insert (int server_fd) others" and "int server_fd \<notin> others"
    and "loop_visits done_proc (resume_proc K (int server_fd)) (poll_proc poll) (process_init (int server_fd) w) l p"
  shows "\<exists>l' p'. drain_ready done_proc (resume_proc K (int server_fd)) (l, p) = Some (l', p') \<and> ready l' = []
       \<and> distinct (map pfd_fd (poll_fds l')) \<and> pfd_fd ` set (poll_fds l') = int ` open_fds (srv p')
       \<and> dom (sk (os p')) = others \<union> int ` open_fds (srv p')"
proof -
  have "served K poll sk addr_lists budget others server_fd (fst (process_init (int server_fd) w)) (snd (process_init (int server_fd) w))"
    using assms(1-3) process_init_ok by (simp add: served_def owns_def) (simp add: process_init_def server_init_def)
  from serving.drained [OF serving.visited [OF assms(4) this]] obtain l' p' where
    drain: "drain_ready done_proc (resume_proc K (int server_fd)) (l, p) = Some (l', p')" "ready l' = []"
    and held: "served K poll sk addr_lists budget others server_fd l' p'" by blast
  have ok: "proc_ok server_fd l' p'" and own: "owns others sk (srv p') (os p')" using held by (simp_all add: served_def)
  have "waiters_ok l'" using ok by (simp add: proc_ok_def proc_inv_def)
  from poll_fds_cover_waiters [OF this] polls_open [OF ok drain(2)] own drain show ?thesis
    by (auto simp: owns_def)
qed

theorem process_stretches_end_witness:
  "\<exists>l' p'. drain_ready done_proc (resume_proc script_kernel (int 3)) (process_init (int 3) (script_listening [(2, [])])) = Some (l', p')
     \<and> pfd_fd ` set (poll_fds l') = int ` open_fds (srv p')"
proof -
  have start: "loop_visits done_proc (resume_proc script_kernel (int 3)) (poll_proc script_poll) (process_init (int 3) (script_listening [(2, [])]))
      (fst (process_init (int 3) (script_listening [(2, [])]))) (snd (process_init (int 3) (script_listening [(2, [])])))"
    by (rule visit_start)
  have "dom (ks_table (script_listening [(2, [])])) = insert (int 3) {}" by (simp add: script_listening_table)
  from process_stretches_end [OF script_law this _ start] show ?thesis by auto
qed

text \<open>
  C35: How the server ends: never with \<open>EXIT_SUCCESS\<close>, since the accept loop always waits. Either the port
  argument is rejected before anything happens, or no listening socket could be made and nothing stays open, or the banner was printed and
  \<open>poll\<close> failed, which leaves \<open>main\<close> by an exception.
\<close>
theorem server_main_outcomes:
  assumes "server_main K poll argv w = Some (e, out, w')" and "kernel_table K sk addr_lists"
  shows "(out = [] \<and> (\<exists>x. argv \<noteq> [] \<and> stoi (argv ! 0) = Inl x \<and> e = Uncaught x) \<and> w' = w)
       \<or> (out = [] \<and> e = EXIT_FAILURE \<and> sk w' = sk w)
       \<or> (\<exists>n fds w1. (if argv = [] then n = 9090 else stoi (argv ! 0) = Inr n)
            \<and> out = [''kv_server listening on port '' @ to_string (unat (to_port n)) @ [NL]]
            \<and> e = Uncaught ''poll failed'' \<and> poll fds w1 = (PollFailed, w'))"
proof (cases "if length argv > 0 then stoi (argv ! 0) else Inr 9090")
  case (Inl x)
  then show ?thesis using assms(1) by (auto simp: server_main_def split: if_splits)
next
  case (Inr n)
  obtain server_fd w1 where sock: "create_server_socket K (to_port n) 16 w = (server_fd, w1)"
    by (cases "create_server_socket K (to_port n) 16 w")
  show ?thesis
  proof (cases "server_fd < 0")
    case True
    then show ?thesis
      using assms(1) Inr sock create_server_socket_result [OF assms(2) sock] by (simp add: server_main_def)
  next
    case False
    let ?run = "run_loop done_proc (resume_proc K server_fd) (poll_proc poll) (process_init server_fd w1)"
    obtain x l p where run: "?run = Some (x, l, p)"
      using assms(1) Inr sock False by (auto simp: server_main_def Let_def split: option.splits)
    show ?thesis
    proof (cases x)
      case Returned
      have fd: "server_fd = int (nat server_fd)" using False by simp
      from process.returned [of K "nat server_fd" poll, OF _ process_init_ok] run Returned fd
      have "proc_ok (nat server_fd) l p" "stopping l \<or> held_handles l = {#}" by metis+
      then have "mset (live_handles (srv p)) = {#}" by (auto simp: proc_ok_def proc_inv_def)
      then show ?thesis by (simp add: live_handles_def)
    next
      case (Threw y)
      from run_loop_threw [OF run [unfolded Threw]] obtain fds q where y: "y = ''poll failed''" and "poll_proc poll fds q = (PollFailed, p)"
        by auto
      then have "poll fds (os q) = (PollFailed, os p)" by (auto simp: poll_proc_def split: prod.splits)
      moreover have "out = [''kv_server listening on port '' @ to_string (unat (to_port n)) @ [NL]]" "e = Uncaught y" "w' = os p"
        using assms(1) Inr sock False run Threw by (simp_all add: server_main_def Let_def)
      moreover have "if argv = [] then n = 9090 else stoi (argv ! 0) = Inr n" using Inr by (simp split: if_splits)
      ultimately show ?thesis using y by metis
    qed
  qed
qed

theorem server_main_outcomes_witness:
  "\<exists>w' fds w1. server_main script_kernel script_poll [] (script_world []) =
     Some (Uncaught ''poll failed'', [''kv_server listening on port '' @ to_string (unat (to_port 9090)) @ [NL]], w')
     \<and> script_poll fds w1 = (PollFailed, w')"
proof -
  let ?init = "process_init 3 (script_listening [])"
  have view: "map_option (\<lambda>(l, p). (stopping l, poll_fds l, ks_conn (os p))) (drain_ready done_proc (resume_proc script_kernel 3) ?init)
      = Some (False, [\<lparr>pfd_fd = 3, pfd_events = [POLLIN]\<rparr>], (0, []), [])"
    by code_simp
  obtain l p where drain: "drain_ready done_proc (resume_proc script_kernel 3) ?init = Some (l, p)"
    and lp: "\<not> stopping l" "poll_fds l = [\<lparr>pfd_fd = 3, pfd_events = [POLLIN]\<rparr>]" "ks_conn (os p) = ((0, []), [])"
    using view by (cases "drain_ready done_proc (resume_proc script_kernel 3) ?init") auto
  have "\<not> stopping (fst ?init)" by (simp add: process_init_def do_actions_def schedule_def event_loop_init_def)
  moreover have "poll_proc script_poll (poll_fds l) p = (PollFailed, p)"
    using lp(3) by (simp add: poll_proc_def script_poll_def)
  moreover have "\<not> (read_waiters l = [] \<and> write_waiters l = [])" using lp(2) poll_fds_empty [of l] by simp
  ultimately have run: "run_loop done_proc (resume_proc script_kernel 3) (poll_proc script_poll) ?init = Some (Threw ''poll failed'', l, p)"
    using lp(1,2) by (subst run_loop.simps) (simp add: drain)
  have main: "server_main script_kernel script_poll [] (script_world [])
      = Some (Uncaught ''poll failed'', [''kv_server listening on port '' @ to_string (unat (to_port 9090)) @ [NL]], os p)"
    using run script_listening [of "[]"] by (simp add: server_main_def to_port_def)
  from server_main_outcomes [OF main script_law [unfolded server_kernel_def, THEN conjunct1]]
  have "\<exists>fds w1. script_poll fds w1 = (PollFailed, os p)" by (elim disjE) blast+
  with main show ?thesis by blast
qed

end
