(* ===== verification/SocketProps.thy ===== *)
theory SocketProps
  imports SimKernel
begin

section \<open>Properties of the socket helpers\<close>

text \<open>
  What the functions of \<open>src/net/socket_utils.cpp\<close> guarantee on a kernel that behaves as
  \<open>SocketLaws\<close> states: set-up leaves either one configured descriptor or nothing, and transfers move
  exactly the bytes they report. The witnesses run them on \<open>SimKernel\<close>.
\<close>

subsection \<open>A connection with a fixed input and a fixed schedule\<close>

text \<open>\<open>wire_in\<close> is what the peer has sent, \<open>wire_out\<close> what was sent to it; \<open>chunks\<close> says how much the
kernel moves per call, where 0 is an interruption.\<close>

record wire =
  wire_in :: string
  wire_out :: string
  chunks :: "nat list"

definition wire_send :: "string \<Rightarrow> wire \<Rightarrow> write_result \<times> wire" where
  "wire_send bs x =
     (case chunks x of
        [] \<Rightarrow> (Wrote (length bs), x\<lparr>wire_out := wire_out x @ bs\<rparr>)
      | n # ns \<Rightarrow>
          if n = 0 then (WriteFail EINTR, x\<lparr>chunks := ns\<rparr>)
          else (Wrote (min n (length bs)), x\<lparr>wire_out := wire_out x @ take n bs, chunks := ns\<rparr>))"

definition wire_recv :: "nat \<Rightarrow> wire \<Rightarrow> read_result \<times> wire" where
  "wire_recv n x =
     (if wire_in x = [] \<or> n = 0 then (ReadEof, x)
      else case chunks x of
        0 # ns \<Rightarrow> (ReadFail EINTR, x\<lparr>chunks := ns\<rparr>)
      | _ \<Rightarrow> (ReadBytes (take n (wire_in x)), x\<lparr>wire_in := drop n (wire_in x)\<rparr>))"

abbreviation wire_kernel :: "wire ksim kernel" where
  "wire_kernel \<equiv> sim_kernel wire_send wire_recv"

lemma wire_send_law:
  "send_law (\<lambda>w. True) (\<lambda>w bs. sys_send wire_kernel fd bs w) (\<lambda>w. wire_out (ks_conn w)) (\<lambda>w. length (chunks (ks_conn w)))
     (\<lambda>w. wire_in (ks_conn w))"
  by (auto simp: send_law_def sim_kernel_def ks_io_def wire_send_def min_def split: list.split)

lemma wire_send_reliable: "send_reliable (\<lambda>w. True) (\<lambda>w bs. sys_send wire_kernel fd bs w)"
  by (auto simp: send_reliable_def sim_kernel_def ks_io_def wire_send_def split: list.splits if_splits)

lemma wire_recv_law:
  "recv_law (\<lambda>w. True) (\<lambda>w n. sys_recv wire_kernel fd n w) (\<lambda>w. wire_in (ks_conn w)) (\<lambda>w. length (chunks (ks_conn w)))
     (\<lambda>w. wire_out (ks_conn w))"
  by (auto simp: recv_law_def sim_kernel_def ks_io_def wire_recv_def split: list.split nat.split)

lemma wire_recv_reliable: "recv_reliable (\<lambda>w. True) (\<lambda>w n. sys_recv wire_kernel fd n w) (\<lambda>w. wire_in (ks_conn w))"
  by (auto simp: recv_reliable_def sim_kernel_def ks_io_def wire_recv_def split: list.split nat.split)

definition wire_world :: "string \<Rightarrow> nat list \<Rightarrow> wire ksim" where
  "wire_world input ns = \<lparr>ks_socks = [], ks_lists = 0,
     ks_hosts = [(''localhost'', [\<lparr>ai_family = AF_INET6, ai_socktype = SOCK_STREAM, ai_protocol = 6, ai_addr = ''::1''\<rparr>,
                                   \<lparr>ai_family = AF_INET, ai_socktype = SOCK_STREAM, ai_protocol = 6, ai_addr = ''127.0.0.1''\<rparr>])],
     ks_dead = [''::1''], ks_taken = [80], ks_conn = \<lparr>wire_in = input, wire_out = [], chunks = ns\<rparr>\<rparr>"

subsection \<open>Properties\<close>

text \<open>
  C18: \<open>create_server_socket\<close> is all or nothing. Either it returns a descriptor that was not open
  before, which is bound to the requested port on every interface, listens with the requested
  backlog, has SO_REUSEADDR and is nonblocking, and no other socket has changed; or, whichever of
  its six calls fails, it returns -1 and the table of sockets is as before.
\<close>
theorem server_socket_all_or_nothing:
  assumes "kernel_table K sk addr_lists" and "create_server_socket K port backlog w = (fd, w')"
  shows "if fd \<ge> 0
         then sk w fd = None \<and> (\<exists>s. sk w' = (sk w)(fd \<mapsto> s) \<and> listens port backlog s \<and> sk_reuse s \<and> nonblocking s)
         else fd = -1 \<and> sk w' = sk w"
  using create_server_socket_result [OF assms] by (auto simp: configuring_def)

theorem server_socket_all_or_nothing_witness:
  "(\<exists>s w'. create_server_socket wire_kernel 9090 16 (wire_world [] []) = (3, w') \<and> ks_table w' = [3 \<mapsto> s] \<and> listens 9090 16 s \<and> nonblocking s)
   \<and> (\<exists>w'. create_server_socket wire_kernel 80 16 (wire_world [] []) = (-1, w') \<and> ks_table w' = Map.empty)"
proof -
  have none: "ks_table (wire_world [] []) = Map.empty" by (simp add: ks_table_def wire_world_def)
  note defs = create_server_socket_def set_reuseaddr_def set_non_blocking_def sim_kernel_def ks_open_def ks_fresh_def
    ks_set_def ks_table_def wire_world_def new_sock_def O_NONBLOCK_def
  have "fst (create_server_socket wire_kernel 9090 16 (wire_world [] [])) = 3"
    by (simp add: defs Let_def)
  then obtain w1 where run1: "create_server_socket wire_kernel 9090 16 (wire_world [] []) = (3, w1)"
    by (cases "create_server_socket wire_kernel 9090 16 (wire_world [] [])") simp
  have "fst (create_server_socket wire_kernel 80 16 (wire_world [] [])) = -1"
    by (simp add: defs Let_def)
  then obtain w2 where run2: "create_server_socket wire_kernel 80 16 (wire_world [] []) = (-1, w2)"
    by (cases "create_server_socket wire_kernel 80 16 (wire_world [] [])") simp
  show ?thesis
    using server_socket_all_or_nothing [OF sim_kernel_table run1] run1
      server_socket_all_or_nothing [OF sim_kernel_table run2] run2 none by auto
qed

text \<open>
  \<open>create_client_socket\<close> connects to the first candidate that accepts. On success the
  candidates before it were all refused, the one new descriptor is connected to its address, and
  every other descriptor opened on the way is closed; on failure it returns -1 and no descriptor is
  left open. The list of candidates is freed in both cases.
\<close>
theorem client_socket_first_reachable:
  assumes "kernel_table K sk addr_lists"
    and "sys_getaddrinfo K host (to_string (unat port)) AF_UNSPEC SOCK_STREAM w = ((ret, cands), w0)"
    and "create_client_socket K host port w = (fd, w')"
  shows "addr_lists w' = addr_lists w
       \<and> (if fd \<ge> 0 then ret = 0 \<and> (\<exists>pre cand post w1 w2. cands = pre @ cand # post
              \<and> try_candidates K pre (-1) w0 = (-1, w1) \<and> try_candidates K [cand] (-1) w1 = (fd, w2)
              \<and> sk w fd = None \<and> (\<exists>s. sk w' = (sk w)(fd \<mapsto> s) \<and> sk_peer s = Some (ai_addr cand)))
          else fd = -1 \<and> sk w' = sk w)"
proof -
  note g = kernel_tableD(12) [OF assms(1,2)]
  show ?thesis
  proof (cases "ret = 0")
    case True
    obtain w3 where run: "try_candidates K cands (-1) w0 = (fd, w3)" and w': "w' = sys_freeaddrinfo K cands w3"
      using assms(2,3) True by (auto simp: create_client_socket_def split: prod.splits)
    note r = try_candidates_result [OF assms(1) run]
    have free: "sk w' = sk w3" "addr_lists w' = addr_lists w3 - 1" by (simp_all add: w' kernel_tableD(13,14) [OF assms(1)])
    then have al: "addr_lists w' = addr_lists w" using r g True by simp
    show ?thesis
    proof (cases "fd \<ge> 0")
      case fd: True
      then obtain pre cand post w1 where "cands = pre @ cand # post" "try_candidates K pre (-1) w0 = (-1, w1)"
        "try_candidates K [cand] (-1) w1 = (fd, w3)" "configuring sk (sk w0) fd (\<lambda>s. sk_peer s = Some (ai_addr cand)) w3"
        using r by auto
      then show ?thesis using al fd True free g unfolding configuring_def by auto
    next
      case False
      then show ?thesis using r al free g by simp
    qed
  next
    case False
    then show ?thesis using assms(2,3) g by (auto simp: create_client_socket_def)
  qed
qed

theorem client_socket_first_reachable_witness:
  "\<exists>s w'. create_client_socket wire_kernel ''localhost'' 9090 (wire_world [] []) = (3, w')
     \<and> ks_table w' = [3 \<mapsto> s] \<and> sk_peer s = Some ''127.0.0.1'' \<and> ks_lists w' = 0"
proof -
  let ?w = "wire_world [] []"
  let ?six = "\<lparr>ai_family = AF_INET6, ai_socktype = SOCK_STREAM, ai_protocol = 6, ai_addr = ''::1''\<rparr>"
  let ?four = "\<lparr>ai_family = AF_INET, ai_socktype = SOCK_STREAM, ai_protocol = 6, ai_addr = ''127.0.0.1''\<rparr>"
  have none: "ks_table ?w = Map.empty" "ks_lists ?w = 0" by (simp_all add: ks_table_def wire_world_def)
  obtain w0 where res: "sys_getaddrinfo wire_kernel ''localhost'' (to_string (unat (9090::u16))) AF_UNSPEC SOCK_STREAM ?w = ((0, [?six, ?four]), w0)"
    by (simp add: sim_kernel_def wire_world_def)
  have "fst (create_client_socket wire_kernel ''localhost'' 9090 ?w) = 3"
    by (simp add: create_client_socket_def sim_kernel_def ks_open_def ks_fresh_def ks_set_def ks_table_def wire_world_def Let_def
        close_socket_def)
  then obtain w' where run: "create_client_socket wire_kernel ''localhost'' 9090 ?w = (3, w')"
    by (cases "create_client_socket wire_kernel ''localhost'' 9090 ?w") simp
  have dead: "fst (try_candidates wire_kernel [?six] (-1) w0) = -1"
    using res by (auto simp: sim_kernel_def ks_open_def ks_fresh_def ks_set_def ks_table_def wire_world_def Let_def close_socket_def)
  from client_socket_first_reachable [OF sim_kernel_table res run]
  obtain pre cand post w1 w2 s where c: "[?six, ?four] = pre @ cand # post" "try_candidates wire_kernel pre (-1) w0 = (-1, w1)"
      "try_candidates wire_kernel [cand] (-1) w1 = (3, w2)" "ks_table w' = [3 \<mapsto> s]" "sk_peer s = Some (ai_addr cand)" "ks_lists w' = 0"
    by (auto simp: none)
  have "cand = ?four"
  proof (cases pre)
    case Nil
    then show ?thesis using c dead by auto
  next
    case (Cons p ps)
    then show ?thesis using c(1) by (cases ps) auto
  qed
  with c run show ?thesis by auto
qed

text \<open>
  C39: \<open>write_all\<close> always returns when the kernel does not interrupt it forever, and what it reports is
  true: on success exactly the buffer has been sent, on failure a proper prefix of it, and it fails
  only when the kernel reports an error that is not an interruption. How the kernel cuts the
  transfer does not matter.
\<close>
theorem write_all_sends_exactly:
  assumes "send_law good (\<lambda>w bs. sys_send K fd bs w) sent patience keep" and "good w"
  shows "\<exists>ok w' k. write_all K fd data w = Some (ok, w') \<and> sent w' = sent w @ take k data \<and> keep w' = keep w
       \<and> (if ok then k = length data else k < length data \<and> \<not> send_reliable good (\<lambda>w bs. sys_send K fd bs w))"
proof -
  obtain ok w' k where run: "write_all_loop K fd data 0 w = Some (ok, w')" "sent w' = sent w @ take k data" "keep w' = keep w"
    and k: "ok \<longrightarrow> length data \<le> k" "\<not> ok \<longrightarrow> k < length data \<and> \<not> send_reliable good (\<lambda>w bs. sys_send K fd bs w)"
    using write_all_loop_sends [OF assms, of data 0] by auto
  show ?thesis
    by (intro exI [of _ ok] exI [of _ w'] exI [of _ "if ok then length data else k"])
      (use run k in \<open>auto simp: write_all_def\<close>)
qed

theorem write_all_sends_exactly_witness:
  "\<exists>w'. write_all wire_kernel 3 (''GET a'' @ [NL]) (wire_world [] [0, 2, 0, 1]) = Some (True, w')
     \<and> wire_out (ks_conn w') = ''GET a'' @ [NL]"
proof -
  have start: "wire_out (ks_conn (wire_world [] [0, 2, 0, 1])) = []" by (simp add: wire_world_def)
  show ?thesis
    using write_all_sends_exactly [OF wire_send_law [where fd = 3] TrueI, where data = "''GET a'' @ [NL]" and w = "wire_world [] [0, 2, 0, 1]"]
    by (simp only: wire_send_reliable start append_Nil not_True_eq_False simp_thms take_all order_refl split: if_splits) auto
qed

text \<open>
  C40: \<open>read_line\<close> takes exactly one line off a connection that delivers it: whatever follows stays for
  the next call, the newline is dropped, and so is every carriage return, also those inside the
  line. Interruptions do not matter.
\<close>
theorem read_line_takes_one_line:
  assumes "recv_law good (\<lambda>w n. sys_recv K fd n w) coming patience keep"
    and "recv_reliable good (\<lambda>w n. sys_recv K fd n w) coming"
    and "coming w = line @ NL # rest" and "NL \<notin> set line" and "good w"
  shows "\<exists>w'. read_line K fd w = Some (True, filter (\<lambda>c. c \<noteq> CR) line, w') \<and> coming w' = rest \<and> keep w' = keep w"
  using read_line_one [OF assms] by blast

theorem read_line_takes_one_line_witness:
  "\<exists>w'. read_line wire_kernel 3 (wire_world (''OK'' @ [CR, NL] @ ''BYE'' @ [NL]) [0, 0]) = Some (True, ''OK'', w')
     \<and> wire_in (ks_conn w') = ''BYE'' @ [NL]"
proof -
  have "wire_in (ks_conn (wire_world (''OK'' @ [CR, NL] @ ''BYE'' @ [NL]) [0, 0])) = (''OK'' @ [CR]) @ NL # (''BYE'' @ [NL])"
    by (simp add: wire_world_def)
  note line = read_line_takes_one_line [OF wire_recv_law [where fd = 3] wire_recv_reliable [where fd = 3]]
  show ?thesis by (rule line [THEN exE, of "wire_world (''OK'' @ [CR, NL] @ ''BYE'' @ [NL]) [0, 0]" "''OK'' @ [CR]" "''BYE'' @ [NL]"])
    (auto simp: wire_world_def)
qed

end
