(* ===== verification/RdmaBenchmark.thy ===== *)
theory RdmaBenchmark
  imports RdmaClient
begin

section \<open>The client's benchmark (\<open>src/client/rdma_client.cpp\<close>)\<close>

text \<open>
  Keys and values, the sampling of keys, the workers of the two modes and the pre-filling. Doubles and
  random numbers are the standard library's: the records \<open>fp\<close> and \<open>rng\<close> hold the operations the code
  uses. The clock is a function of the world, in nanoseconds. The addresses of a thread's local
  buffers are arguments. How the operations are split over the workers,
  the totals, the report and \<open>main\<close> are in \<open>RdmaReport\<close>.
\<close>

subsection \<open>What is used of the standard library\<close>

record 'd fp =
  fp_literal :: "string \<Rightarrow> 'd"
  fp_stod :: "string \<Rightarrow> string + 'd"
  fp_show :: "'d \<Rightarrow> string"
  fp_less :: "'d \<Rightarrow> 'd \<Rightarrow> bool"
  fp_int :: "int \<Rightarrow> 'd"
  fp_add :: "'d \<Rightarrow> 'd \<Rightarrow> 'd"
  fp_mult :: "'d \<Rightarrow> 'd \<Rightarrow> 'd"
  fp_div :: "'d \<Rightarrow> 'd \<Rightarrow> 'd"
  fp_pow :: "'d \<Rightarrow> 'd \<Rightarrow> 'd"
  fp_floor :: "'d \<Rightarrow> 'd"
  fp_truncate :: "'d \<Rightarrow> nat"
  fp_seconds :: "int \<Rightarrow> 'd"

record ('g, 'd) rng =
  rng_seed :: "u64 \<Rightarrow> 'g"
  rng_unit :: "'g \<Rightarrow> 'd \<times> 'g"
  rng_index :: "nat \<Rightarrow> 'g \<Rightarrow> nat \<times> 'g"

text \<open>\<open>std::stoul\<close> on 64 bits: a minus sign negates modulo \<open>2 ^ 64\<close>.\<close>

definition stoul :: "string \<Rightarrow> string + u64" where
  "stoul s =
     (let s = dropWhile isspace s;
          neg = (s \<noteq> [] \<and> hd s = CHR ''-'');
          s = (if s \<noteq> [] \<and> (hd s = CHR ''-'' \<or> hd s = CHR ''+'') then tl s else s);
          digits = takeWhile is_digit s
      in if digits = [] then Inl ''invalid_argument''
         else if 2 ^ 64 \<le> number_of digits then Inl ''out_of_range''
         else Inr (if neg then - of_nat (number_of digits) else of_nat (number_of digits)))"

subsection \<open>Keys, values, responses\<close>

definition make_key :: "nat \<Rightarrow> string" where
  "make_key i = ''key'' @ to_string i"

definition make_benchmark_key :: "nat \<Rightarrow> string" where
  "make_benchmark_key index = take 31 (''key_'' @ zero_padded 8 index)"

definition make_value :: "nat \<Rightarrow> u64 \<Rightarrow> string" where
  "make_value n seed = map (\<lambda>i. char_of (97 + unat ((seed + of_nat i) mod 26))) [0..<n]"

text \<open>\<open>build_zipf_cdf\<close>: two passes over the ranks, then the last entry is set to one.\<close>

definition zipf_weight :: "'d fp \<Rightarrow> 'd \<Rightarrow> nat \<Rightarrow> 'd" where
  "zipf_weight F s i = fp_div F (fp_literal F ''1.0'') (fp_pow F (fp_int F (int i + 1)) s)"

fun zipf_cumulate :: "'d fp \<Rightarrow> 'd \<Rightarrow> 'd \<Rightarrow> 'd \<Rightarrow> nat list \<Rightarrow> 'd list" where
  "zipf_cumulate F s total_weight cumulative [] = []"
| "zipf_cumulate F s total_weight cumulative (i # rest) =
     (let cumulative = fp_add F cumulative (fp_div F (zipf_weight F s i) total_weight)
      in cumulative # zipf_cumulate F s total_weight cumulative rest)"

definition build_zipf_cdf :: "'d fp \<Rightarrow> nat \<Rightarrow> 'd \<Rightarrow> 'd list" where
  "build_zipf_cdf F key_count s =
     (if key_count = 0 then []
      else
        let total_weight = fold (\<lambda>i t. fp_add F t (zipf_weight F s i)) [0..<key_count] (fp_literal F ''0.0'');
            cdf = zipf_cumulate F s total_weight (fp_literal F ''0.0'') [0..<key_count]
        in cdf[key_count - 1 := fp_literal F ''1.0''])"

text \<open>\<open>std::lower_bound\<close>: the first entry not below the sample.\<close>

definition sample_key :: "('g, 'd) rng \<Rightarrow> 'd fp \<Rightarrow> 'g \<Rightarrow> 'd list \<Rightarrow> nat \<times> 'g" where
  "sample_key R F g zipf_cdf =
     (if zipf_cdf = [] then (0, g)
      else let (sample, g) = rng_unit R g; it = length (takeWhile (\<lambda>x. fp_less F x sample) zipf_cdf)
        in (if it = length zipf_cdf then length zipf_cdf - 1 else it, g))"

definition response_starts_with :: "string \<Rightarrow> string \<Rightarrow> bool" where
  "response_starts_with response expected \<longleftrightarrow> length response \<ge> length expected \<and> take (length expected) response = expected"

subsection \<open>Results\<close>

record BenchmarkResult =
  latencies_us :: "int list"
  measured_ok_responses :: nat
  measured_errors :: nat
  warmup_ok_responses :: nat
  warmup_errors :: nat

definition empty_result :: BenchmarkResult where
  "empty_result = \<lparr>latencies_us = [], measured_ok_responses = 0, measured_errors = 0,
     warmup_ok_responses = 0, warmup_errors = 0\<rparr>"

text \<open>\<open>duration_cast<Microseconds>\<close> of a difference of two readings of the clock.\<close>

definition micros :: "int \<Rightarrow> int" where
  "micros ns = ns div 1000"

text \<open>How an operation is counted, in the measured phase and in the warm-up.\<close>

definition tally :: "bool \<Rightarrow> bool \<Rightarrow> int \<Rightarrow> BenchmarkResult \<Rightarrow> BenchmarkResult" where
  "tally measured valid latency r =
     (if measured then
        (if valid then r\<lparr>measured_ok_responses := measured_ok_responses r + 1\<rparr>
         else r\<lparr>measured_errors := measured_errors r + 1\<rparr>)\<lparr>latencies_us := latencies_us r @ [latency]\<rparr>
      else if valid then r\<lparr>warmup_ok_responses := warmup_ok_responses r + 1\<rparr>
      else r\<lparr>warmup_errors := warmup_errors r + 1\<rparr>)"

definition all_failed :: "nat \<Rightarrow> nat \<Rightarrow> BenchmarkResult \<Rightarrow> BenchmarkResult" where
  "all_failed worker_ops warmup_ops r =
     r\<lparr>measured_errors := measured_errors r + worker_ops, warmup_errors := warmup_errors r + warmup_ops\<rparr>"

subsection \<open>Two-sided workers\<close>

text \<open>What all operations of a worker share.\<close>

record 'd two_sided_job =
  job_keys :: "string list"
  job_cdf :: "'d list"
  job_worker :: nat
  job_value_size :: nat
  job_get_ratio :: 'd
  job_zipf_s :: 'd

definition pick_op :: "('g, 'd) rng \<Rightarrow> 'd fp \<Rightarrow> 'd two_sided_job \<Rightarrow> 'g \<Rightarrow> bool \<times> nat \<times> 'g" where
  "pick_op R F job g =
     (let (x, g) = rng_unit R g;
          do_get = fp_less F x (job_get_ratio job);
          (key_index, g) = (if fp_less F (fp_literal F ''0.0'') (job_zipf_s job) then sample_key R F g (job_cdf job)
                            else rng_index R (length (job_keys job) - 1) g)
      in (do_get, key_index, g))"

definition benchmark_command :: "'d two_sided_job \<Rightarrow> bool \<Rightarrow> nat \<Rightarrow> nat \<Rightarrow> string" where
  "benchmark_command job do_get key_index i =
     (let key = job_keys job ! key_index in
      if do_get then ''GET '' @ key
      else ''SET '' @ key @ '' '' @ make_value (job_value_size job) (of_nat (job_worker job) * 1315423911 + of_nat i))"

definition valid_response :: "bool \<Rightarrow> string option \<Rightarrow> bool" where
  "valid_response do_get response =
     (case response of None \<Rightarrow> False
      | Some r \<Rightarrow> if do_get then response_starts_with r ''VALUE '' \<or> r = ''NOT_FOUND'' else r = ''OK'')"

definition worker_seed :: "nat \<Rightarrow> u64" where
  "worker_seed worker_index = 0xC0FFEE + of_nat worker_index * 9973"

fun two_sided_phase :: "'n verbs \<Rightarrow> ('n host \<Rightarrow> int) \<Rightarrow> ('g, 'd) rng \<Rightarrow> 'd fp \<Rightarrow> 'd two_sided_job \<Rightarrow> bool \<Rightarrow> nat list
    \<Rightarrow> 'g \<Rightarrow> BenchmarkResult \<Rightarrow> RdmaContext \<Rightarrow> 'n host \<Rightarrow> ('g \<times> BenchmarkResult \<times> RdmaContext \<times> 'n host) option" where
  "two_sided_phase V clock R F job measured [] g result c h = Some (g, result, c, h)"
| "two_sided_phase V clock R F job measured (i # rest) g result c h =
     (let (do_get, key_index, g) = pick_op R F job g; start = clock h in do {
        (response, c, h) \<leftarrow> two_sided_request_response V (benchmark_command job do_get key_index i) c h;
        two_sided_phase V clock R F job measured rest g
          (tally measured (valid_response do_get response) (micros (clock h - start)) result) c h
      })"

definition run_two_sided_worker :: "'n verbs \<Rightarrow> 'n host kernel \<Rightarrow> ('n host \<Rightarrow> int) \<Rightarrow> ('g, 'd) rng \<Rightarrow> 'd fp
    \<Rightarrow> string \<Rightarrow> u16 \<Rightarrow> string option \<Rightarrow> 'd two_sided_job \<Rightarrow> nat \<Rightarrow> nat \<Rightarrow> u64 \<Rightarrow> u64 \<Rightarrow> 'n host
    \<Rightarrow> (BenchmarkResult \<times> 'n host) option" where
  "run_two_sided_worker V K clock R F host port device_name job worker_ops warmup_ops sbuf rbuf h = do {
     (info, c, h) \<leftarrow> connect_rdma_session V K host port device_name (RdmaContext_default sbuf rbuf) h;
     case info of
       None \<Rightarrow> Some (all_failed worker_ops warmup_ops empty_result, leave V c h)
     | Some _ \<Rightarrow> do {
         (g, result, c, h) \<leftarrow> two_sided_phase V clock R F job False [0..<warmup_ops]
            (rng_seed R (worker_seed (job_worker job))) empty_result c h;
         (g, result, c, h) \<leftarrow> two_sided_phase V clock R F job True [0..<worker_ops] g result c h;
         (quit_response, c, h) \<leftarrow> two_sided_request_response V ''QUIT'' c h;
         Some (result, leave V c h)
       }
   }"

fun prefill_keys :: "'n verbs \<Rightarrow> nat \<Rightarrow> nat \<Rightarrow> string list \<Rightarrow> RdmaContext \<Rightarrow> 'n host
    \<Rightarrow> (bool \<times> RdmaContext \<times> 'n host) option" where
  "prefill_keys V value_size i [] c h = Some (True, c, h)"
| "prefill_keys V value_size i (key # keys) c h = do {
     (response, c, h) \<leftarrow> two_sided_request_response V (''SET '' @ key @ '' '' @ make_value value_size (of_nat i)) c h;
     if response \<noteq> Some ''OK'' then Some (False, c, h)
     else prefill_keys V value_size (i + 1) keys c h
   }"

definition run_two_sided_prefill :: "'n verbs \<Rightarrow> 'n host kernel \<Rightarrow> string \<Rightarrow> u16 \<Rightarrow> string option \<Rightarrow> string list \<Rightarrow> nat
    \<Rightarrow> u64 \<Rightarrow> u64 \<Rightarrow> 'n host \<Rightarrow> (bool \<times> 'n host) option" where
  "run_two_sided_prefill V K host port device_name keys value_size sbuf rbuf h = do {
     (info, c, h) \<leftarrow> connect_rdma_session V K host port device_name (RdmaContext_default sbuf rbuf) h;
     case info of
       None \<Rightarrow> Some (False, leave V c h)
     | Some _ \<Rightarrow> do {
         (ok, c, h) \<leftarrow> prefill_keys V value_size 0 keys c h;
         if \<not> ok then Some (False, leave V c h)
         else do {
           (quit_response, c, h) \<leftarrow> two_sided_request_response V ''QUIT'' c h;
           Some (True, leave V c h)
         }
       }
   }"

subsection \<open>One-sided workers\<close>

fun one_sided_phase :: "'n verbs \<Rightarrow> ('n host \<Rightarrow> int) \<Rightarrow> ('g, 'd) rng \<Rightarrow> QpInfo \<Rightarrow> u64 \<Rightarrow> u32 \<Rightarrow> u64 \<Rightarrow> u32 \<Rightarrow> nat \<Rightarrow> bool
    \<Rightarrow> bool \<Rightarrow> nat \<Rightarrow> 'g \<Rightarrow> BenchmarkResult \<Rightarrow> RdmaContext \<Rightarrow> 'n host
    \<Rightarrow> ('g \<times> BenchmarkResult \<times> RdmaContext \<times> 'n host) option" where
  "one_sided_phase V clock R info local_slot slot_lkey atomic_result atomic_lkey key_count simulate_metadata measured 0 g result c h =
     Some (g, result, c, h)"
| "one_sided_phase V clock R info local_slot slot_lkey atomic_result atomic_lkey key_count simulate_metadata measured (Suc count) g result c h =
     (let (index, g) = rng_index R (key_count - 1) g; t0 = clock h in do {
        (ok, c, h) \<leftarrow> one_sided_get V c info local_slot slot_lkey (make_key index) simulate_metadata atomic_result atomic_lkey h;
        one_sided_phase V clock R info local_slot slot_lkey atomic_result atomic_lkey key_count simulate_metadata measured count g
          (tally measured ok (micros (clock h - t0)) result) c h
      })"

definition run_one_sided_worker :: "'n verbs \<Rightarrow> 'n host kernel \<Rightarrow> ('n host \<Rightarrow> int) \<Rightarrow> ('g, 'd) rng \<Rightarrow> string \<Rightarrow> u16
    \<Rightarrow> string option \<Rightarrow> nat \<Rightarrow> nat \<Rightarrow> nat \<Rightarrow> nat \<Rightarrow> bool \<Rightarrow> u64 \<Rightarrow> u64 \<Rightarrow> u64 \<Rightarrow> u64 \<Rightarrow> 'n host
    \<Rightarrow> (BenchmarkResult \<times> 'n host) option" where
  "run_one_sided_worker V K clock R host port device_name worker_index worker_ops warmup_ops key_count simulate_metadata
       sbuf rbuf local_slot atomic_result h = do {
     (info, c, h) \<leftarrow> connect_rdma_session V K host port device_name (RdmaContext_default sbuf rbuf) h;
     case info of
       None \<Rightarrow> Some (all_failed worker_ops warmup_ops empty_result, leave V c h)
     | Some info \<Rightarrow>
         if qi_addr info = 0 \<or> qi_num_slots info \<noteq> of_nat RDMA_NUM_SLOTS
         then Some (all_failed worker_ops warmup_ops empty_result, leave V c h)
         else do {
           (slot_mr, h) \<leftarrow> rdma_reg_mr V local_slot slot_size [LOCAL_WRITE, REMOTE_WRITE] c
              (h\<lparr>host_mem := store (host_mem h) local_slot (replicate slot_size NUL)\<rparr>);
           case slot_mr of
             None \<Rightarrow> Some (all_failed worker_ops warmup_ops empty_result, leave V c h)
           | Some slot_mr \<Rightarrow> do {
               let h = h\<lparr>host_mem := store (host_mem h) atomic_result (u64_bytes 0)\<rparr>;
               (atomic_mr, h) \<leftarrow> (if simulate_metadata then rdma_reg_mr V atomic_result 8 [LOCAL_WRITE] c h else Some (None, h));
               if simulate_metadata \<and> atomic_mr = None
               then Some (all_failed worker_ops warmup_ops empty_result, leave V c (ibv_dereg_mr V slot_mr h))
               else do {
                 let atomic_lkey = (case atomic_mr of Some m \<Rightarrow> mr_lkey m | None \<Rightarrow> 0);
                 (g, result, c, h) \<leftarrow> one_sided_phase V clock R info local_slot (mr_lkey slot_mr) atomic_result atomic_lkey
                    key_count simulate_metadata False warmup_ops (rng_seed R (worker_seed worker_index)) empty_result c h;
                 (g, result, c, h) \<leftarrow> one_sided_phase V clock R info local_slot (mr_lkey slot_mr) atomic_result atomic_lkey
                    key_count simulate_metadata True worker_ops g result c h;
                 let h = (case atomic_mr of Some m \<Rightarrow> ibv_dereg_mr V m h | None \<Rightarrow> h);
                 Some (result, leave V c (ibv_dereg_mr V slot_mr h))
               }
             }
         }
   }"

end
