(* ===== verification/MessageLaws.thy ===== *)
theory MessageLaws
  imports RdmaLaws
begin

section \<open>Messages on a queue pair\<close>

text \<open>
  What the two-sided code relies on when it posts to its queue pair and polls its completion queue,
  as the locale \<open>message_link\<close>. The view of a host is what is on the link: \<open>outbox\<close>, the messages
  handed to the NIC; \<open>inbox\<close>, the messages that will still be delivered; the posted receive buffers;
  and the sends without a completion yet. \<open>react sent m\<close> is what the far end answers to message \<open>m\<close>
  after the messages \<open>sent\<close>; for a server whose peer's messages are fixed in advance it is empty.
  A message is read from the send buffer when it is posted; that buffer is left alone until the
  completion. Completions of the two kinds come in any order, and any of them may fail.
\<close>

record msg_view =
  inbox :: "string list"
  outbox :: "string list"
  recvs :: "ibv_sge list"
  pending_sends :: nat

subsection \<open>The laws\<close>

definition receives_into :: "ibv_sge \<Rightarrow> string \<Rightarrow> mem \<Rightarrow> mem" where
  "receives_into s m mm = store mm (sge_addr s) m"

definition delivers :: "('n host \<Rightarrow> msg_view) \<Rightarrow> 'n host \<Rightarrow> ibv_wc \<Rightarrow> 'n host \<Rightarrow> bool" where
  "delivers view h wc h' \<longleftrightarrow>
     wc_op wc = WC_SEND \<and> 0 < pending_sends (view h) \<and> host_mem h' = host_mem h
       \<and> view h' = (view h)\<lparr>pending_sends := pending_sends (view h) - 1\<rparr>
   \<or> wc_op wc = WC_RECV \<and> (\<exists>s ss m ms. recvs (view h) = s # ss \<and> inbox (view h) = m # ms
       \<and> length m \<le> unat (sge_length s) \<and> wc_byte_len wc = of_nat (length m)
       \<and> host_mem h' = receives_into s m (host_mem h) \<and> view h' = (view h)\<lparr>recvs := ss, inbox := ms\<rparr>)"

definition message_of :: "ibv_send_wr \<Rightarrow> 'n host \<Rightarrow> string" where
  "message_of wr h = load (host_mem h) (sge_addr (wr_sge wr)) (unat (sge_length (wr_sge wr)))"

definition posted :: "(string list \<Rightarrow> string \<Rightarrow> string list) \<Rightarrow> string \<Rightarrow> msg_view \<Rightarrow> msg_view" where
  "posted react m v = v\<lparr>outbox := outbox v @ [m], inbox := inbox v @ react (outbox v) m,
     pending_sends := Suc (pending_sends v)\<rparr>"

definition endpoint :: "ibv_qp \<Rightarrow> nat \<Rightarrow> u32 set \<Rightarrow> RdmaContext \<Rightarrow> bool" where
  "endpoint qp cq lks c \<longleftrightarrow> qp_ptr c = Some qp \<and> cq_ptr c = Some cq
     \<and> (\<exists>m. send_mr c = Some m \<and> mr_lkey m \<in> lks) \<and> (\<exists>m. recv_mr c = Some m \<and> mr_lkey m \<in> lks)"

text \<open>The requests the two posting functions make.\<close>

lemma post_recv_request:
  assumes "endpoint qp cq lks c"
  obtains wr where "sge_lkey (recv_sge wr) \<in> lks" and "sge_addr (recv_sge wr) = recv_buf c"
    and "unat (sge_length (recv_sge wr)) = RDMA_MSG_SIZE"
    and "post_recv V c h = Some (fst (ibv_post_recv V qp wr h) = 0, snd (ibv_post_recv V qp wr h))"
proof -
  obtain m where mr: "recv_mr c = Some m" "mr_lkey m \<in> lks" and qp: "qp_ptr c = Some qp"
    using assms(1) by (auto simp: endpoint_def)
  let ?wr = "\<lparr>recv_wr_id = 0, recv_sge = \<lparr>sge_addr = recv_buf c, sge_length = of_nat RDMA_MSG_SIZE, sge_lkey = mr_lkey m\<rparr>\<rparr>"
  show thesis
    by (rule that [of ?wr]) (simp_all add: mr qp post_recv_def RDMA_MSG_SIZE_def prod.case_eq_if Let_def)
qed

lemma post_send_request:
  assumes "endpoint qp cq lks c"
  obtains rq where "sge_lkey (wr_sge rq) \<in> lks" and "wr_op rq = WR_SEND" and "wr_signaled rq"
    and "message_of rq (h\<lparr>host_mem := store (host_mem h) (send_buf c) (take RDMA_MSG_SIZE data)\<rparr>) = take RDMA_MSG_SIZE data"
    and "post_send V data c h =
      Some (fst (ibv_post_send V qp rq (h\<lparr>host_mem := store (host_mem h) (send_buf c) (take RDMA_MSG_SIZE data)\<rparr>)) = 0,
            snd (ibv_post_send V qp rq (h\<lparr>host_mem := store (host_mem h) (send_buf c) (take RDMA_MSG_SIZE data)\<rparr>)))"
proof -
  obtain m where mr: "send_mr c = Some m" "mr_lkey m \<in> lks" and qp: "qp_ptr c = Some qp"
    using assms(1) by (auto simp: endpoint_def)
  let ?len = "if length data < RDMA_MSG_SIZE then length data else RDMA_MSG_SIZE"
  let ?rq = "\<lparr>wr_id = 1, wr_sge = \<lparr>sge_addr = send_buf c, sge_length = of_nat ?len, sge_lkey = mr_lkey m\<rparr>,
     wr_op = WR_SEND, wr_signaled = True, wr_remote_addr = 0, wr_rkey = 0, wr_compare_add = 0\<rparr>"
  have cut: "take ?len data = take RDMA_MSG_SIZE data" by simp
  have le: "?len \<le> 4096" by (simp add: RDMA_MSG_SIZE_def)
  then have n: "unat (of_nat ?len :: u32) = ?len" by (simp add: unat_of_nat)
  have len: "length (take RDMA_MSG_SIZE data) = ?len" by (simp add: min_def)
  have read: "load (store mm (send_buf c) (take RDMA_MSG_SIZE data)) (send_buf c) ?len = take RDMA_MSG_SIZE data" for mm
    by (rule load_store_same) (use le len in simp_all)
  show thesis
  proof (rule that [of ?rq], goal_cases)
    case 4
    then show ?case using n read by (simp add: message_of_def)
  next
    case 5
    show ?case by (simp only: post_send_def Let_def cut mr qp option.case prod.case_eq_if fst_conv snd_conv)
  qed (simp_all add: mr)
qed

locale message_link =
  fixes V :: "'n verbs" and qp :: ibv_qp and cq :: nat and lks :: "u32 set"
    and react :: "string list \<Rightarrow> string \<Rightarrow> string list"
    and good :: "'n host \<Rightarrow> bool" and view :: "'n host \<Rightarrow> msg_view"
  assumes mem_free: "view (h\<lparr>host_mem := mm\<rparr>) = view h" "good (h\<lparr>host_mem := mm\<rparr>) = good h"
    and recv_posts: "good h \<Longrightarrow> sge_lkey (recv_sge wr) \<in> lks \<Longrightarrow> ibv_post_recv V qp wr h = (ret, h') \<Longrightarrow>
        good h' \<and> host_mem h' = host_mem h
        \<and> view h' = (if ret = 0 then (view h)\<lparr>recvs := recvs (view h) @ [recv_sge wr]\<rparr> else view h)"
    and send_posts: "good h \<Longrightarrow> sge_lkey (wr_sge rq) \<in> lks \<Longrightarrow> wr_op rq = WR_SEND \<Longrightarrow> wr_signaled rq \<Longrightarrow>
        ibv_post_send V qp rq h = (ret, h') \<Longrightarrow>
        good h' \<and> host_mem h' = host_mem h
        \<and> view h' = (if ret = 0 then posted react (message_of rq h) (view h) else view h)"
    and polls: "good h \<Longrightarrow> nth_poll V cq n h = (ret, wc, h') \<Longrightarrow> ret \<noteq> 0 \<Longrightarrow>
        (if 0 < ret \<and> wc_stat wc = WC_SUCCESS then good h' \<and> delivers view h wc h'
         else outbox (view h') = outbox (view h))"
begin

lemma post_recv_view:
  assumes "endpoint qp cq lks c" and "good h"
  obtains ok h' sge where "post_recv V c h = Some (ok, h')" and "good h'" and "host_mem h' = host_mem h"
    and "sge_addr sge = recv_buf c" and "unat (sge_length sge) = RDMA_MSG_SIZE"
    and "view h' = (if ok then (view h)\<lparr>recvs := recvs (view h) @ [sge]\<rparr> else view h)"
proof -
  obtain wr where wr: "sge_lkey (recv_sge wr) \<in> lks" "sge_addr (recv_sge wr) = recv_buf c"
    "unat (sge_length (recv_sge wr)) = RDMA_MSG_SIZE"
    "post_recv V c h = Some (fst (ibv_post_recv V qp wr h) = 0, snd (ibv_post_recv V qp wr h))"
    by (rule post_recv_request [OF assms(1)])
  obtain ret h' where post: "ibv_post_recv V qp wr h = (ret, h')" by (cases "ibv_post_recv V qp wr h")
  from recv_posts [OF assms(2) wr(1) post] wr post show thesis
    by (intro that [of "ret = 0" h' "recv_sge wr"]) simp_all
qed

lemma post_send_view:
  assumes "endpoint qp cq lks c" and "good h"
  obtains ok h' where "post_send V data c h = Some (ok, h')" and "good h'"
    and "host_mem h' = store (host_mem h) (send_buf c) (take RDMA_MSG_SIZE data)"
    and "view h' = (if ok then posted react (take RDMA_MSG_SIZE data) (view h) else view h)"
proof -
  let ?h1 = "h\<lparr>host_mem := store (host_mem h) (send_buf c) (take RDMA_MSG_SIZE data)\<rparr>"
  obtain rq where rq: "sge_lkey (wr_sge rq) \<in> lks" "wr_op rq = WR_SEND" "wr_signaled rq"
    "message_of rq ?h1 = take RDMA_MSG_SIZE data"
    "post_send V data c h = Some (fst (ibv_post_send V qp rq ?h1) = 0, snd (ibv_post_send V qp rq ?h1))"
    by (rule post_send_request [OF assms(1)])
  obtain ret h' where post: "ibv_post_send V qp rq ?h1 = (ret, h')" by (cases "ibv_post_send V qp rq ?h1")
  have "good ?h1" using assms(2) by (simp add: mem_free)
  from send_posts [OF this rq(1-3) post] rq(4-) post show thesis
    by (intro that [of "ret = 0" h']) (simp_all add: mem_free)
qed

text \<open>A poll that returns: what a successful completion leaves, whichever kind it is.\<close>

lemma poll_completion_view:
  assumes "endpoint qp cq lks c" and "good h" and "poll_completion V c h = Some (ok, c', h')"
  shows "if ok then good h' \<and> (\<exists>wc. delivers view h wc h'
             \<and> c' = (if wc_op wc = WC_RECV then c\<lparr>recv_len := wc_byte_len wc\<rparr> else c))
         else c' = c \<and> outbox (view h') = outbox (view h)"
proof -
  have cq: "cq_ptr c = Some cq" using assms(1) by (simp add: endpoint_def)
  obtain ret wc h1 where loop: "poll_loop V cq h = Some (ret, wc, h1)"
    using assms(3) cq by (auto simp: poll_completion_def split: option.splits)
  have res: "(if ret < 0 then Some (False, c, h1)
               else if wc_stat wc \<noteq> WC_SUCCESS then Some (False, c, h1)
               else Some (True, if wc_op wc = WC_RECV then c\<lparr>recv_len := wc_byte_len wc\<rparr> else c, h1))
       = Some (ok, c', h')"
    using assms(3) by (simp only: poll_completion_def cq loop option.case prod.case Let_def)
  obtain n where n: "nth_poll V cq n h = (ret, wc, h1)" "ret \<noteq> 0"
    using poll_loop_nth [OF loop] by auto
  note p = polls [OF assms(2) n]
  show ?thesis
  proof (cases "0 < ret \<and> wc_stat wc = WC_SUCCESS")
    case True
    then have "ok" "h' = h1" "c' = (if wc_op wc = WC_RECV then c\<lparr>recv_len := wc_byte_len wc\<rparr> else c)"
      using res by simp_all
    with p True show ?thesis by auto
  next
    case False
    then have "\<not> ok" "h' = h1" "c' = c" using res n(2) by (auto split: if_splits)
    with p False show ?thesis by simp
  qed
qed

lemma endpoint_recv_len [simp]: "endpoint qp cq lks (c\<lparr>recv_len := n\<rparr>) = endpoint qp cq lks c"
  by (simp add: endpoint_def)

text \<open>With only a receive outstanding, a successful poll is the next message, and \<open>recv_data\<close> reads it.\<close>

lemma poll_receives:
  assumes "endpoint qp cq lks c" and "good h" and "poll_completion V c h = Some (True, c', h')"
    and "recvs (view h) = [sge]" and "pending_sends (view h) = 0"
    and "sge_addr sge = recv_buf c" and "unat (sge_length sge) = RDMA_MSG_SIZE"
  obtains m where "inbox (view h) = m # inbox (view h')" and "view h' = (view h)\<lparr>recvs := [], inbox := inbox (view h')\<rparr>"
    and "recv_data c' h' = m" and "good h'" and "c' = c\<lparr>recv_len := recv_len c'\<rparr>"
proof -
  obtain wc where good: "good h'" and del: "delivers view h wc h'"
    and c': "c' = (if wc_op wc = WC_RECV then c\<lparr>recv_len := wc_byte_len wc\<rparr> else c)"
    using poll_completion_view [OF assms(1-3)] by auto
  obtain m ms where m: "inbox (view h) = m # ms" "length m \<le> RDMA_MSG_SIZE" "wc_byte_len wc = of_nat (length m)"
    "host_mem h' = store (host_mem h) (recv_buf c) m" "view h' = (view h)\<lparr>recvs := [], inbox := ms\<rparr>" "wc_op wc = WC_RECV"
    using del assms(4-7) by (auto simp: delivers_def receives_into_def)
  have "unat (of_nat (length m) :: u32) = length m" using m(2) by (simp add: unat_of_nat RDMA_MSG_SIZE_def)
  moreover have "load (store (host_mem h) (recv_buf c) m) (recv_buf c) (length m) = m"
    by (rule load_store_same) (use m(2) in \<open>simp_all add: RDMA_MSG_SIZE_def\<close>)
  ultimately have "recv_data c' h' = m" by (simp add: recv_data_def c' m)
  with good c' m show thesis by (intro that [of m]) auto
qed

text \<open>With only a send outstanding, a successful poll is its completion.\<close>

lemma poll_sent:
  assumes "endpoint qp cq lks c" and "good h" and "poll_completion V c h = Some (True, c', h')"
    and "recvs (view h) = []"
  shows "c' = c \<and> good h' \<and> host_mem h' = host_mem h
       \<and> view h' = (view h)\<lparr>pending_sends := pending_sends (view h) - 1\<rparr>"
  using poll_completion_view [OF assms(1-3)] assms(4) by (auto simp: delivers_def)

end

subsection \<open>A link that never fails\<close>

text \<open>Every post is accepted, every completion is a success, and a poll with a completion to come
ends: a send outstanding, or a receive buffer for a message that is to be delivered.\<close>

locale reliable_link = message_link +
  assumes recv_accepted: "good h \<Longrightarrow> sge_lkey (recv_sge wr) \<in> lks \<Longrightarrow> fst (ibv_post_recv V qp wr h) = 0"
    and send_accepted: "good h \<Longrightarrow> sge_lkey (wr_sge rq) \<in> lks \<Longrightarrow> wr_op rq = WR_SEND \<Longrightarrow> wr_signaled rq \<Longrightarrow>
        fst (ibv_post_send V qp rq h) = 0"
    and completes_well: "good h \<Longrightarrow> nth_poll V cq n h = (ret, wc, h') \<Longrightarrow> ret \<noteq> 0 \<Longrightarrow>
        0 < ret \<and> wc_stat wc = WC_SUCCESS"
    and progress: "good h \<Longrightarrow> 0 < pending_sends (view h) \<or>
          (\<exists>s ss m ms. recvs (view h) = s # ss \<and> inbox (view h) = m # ms \<and> length m \<le> unat (sge_length s)) \<Longrightarrow>
        \<exists>n. fst (nth_poll V cq n h) \<noteq> 0"
begin

lemma post_recv_ok:
  assumes "endpoint qp cq lks c" and "good h" and "post_recv V c h = Some (ok, h')"
  shows ok
proof -
  obtain wr where wr: "sge_lkey (recv_sge wr) \<in> lks"
    "post_recv V c h = Some (fst (ibv_post_recv V qp wr h) = 0, snd (ibv_post_recv V qp wr h))"
    by (rule post_recv_request [OF assms(1)])
  with recv_accepted [OF assms(2) wr(1)] assms(3) show ?thesis by simp
qed

lemma post_send_ok:
  assumes "endpoint qp cq lks c" and "good h" and "post_send V data c h = Some (ok, h')"
  shows ok
proof -
  let ?h1 = "h\<lparr>host_mem := store (host_mem h) (send_buf c) (take RDMA_MSG_SIZE data)\<rparr>"
  obtain rq where rq: "sge_lkey (wr_sge rq) \<in> lks" "wr_op rq = WR_SEND" "wr_signaled rq"
    "post_send V data c h = Some (fst (ibv_post_send V qp rq ?h1) = 0, snd (ibv_post_send V qp rq ?h1))"
    by (rule post_send_request [OF assms(1)])
  have "good ?h1" using assms(2) by (simp add: mem_free)
  with send_accepted [OF this rq(1-3)] rq(4) assms(3) show ?thesis by simp
qed

lemma poll_completes:
  assumes "endpoint qp cq lks c" and "good h"
    and "0 < pending_sends (view h) \<or>
          (\<exists>s ss m ms. recvs (view h) = s # ss \<and> inbox (view h) = m # ms \<and> length m \<le> unat (sge_length s))"
  obtains c' h' where "poll_completion V c h = Some (True, c', h')"
proof -
  obtain n where n: "fst (nth_poll V cq n h) \<noteq> 0" using progress [OF assms(2,3)] by blast
  obtain ret wc h' where p: "nth_poll V cq n h = (ret, wc, h')" by (cases "nth_poll V cq n h")
  then have "0 < ret \<and> wc_stat wc = WC_SUCCESS" using completes_well [OF assms(2) p] n by simp
  moreover have "poll_loop V cq h = Some (ret, wc, h')" using poll_loop_Some [OF n] p by simp
  ultimately show thesis using assms(1) that by (simp add: poll_completion_def endpoint_def Let_def)
qed

end

end
