(* ===== verification/RdmaServerLaws.thy ===== *)
theory RdmaServerLaws
  imports RdmaServer MessageLaws
begin

section \<open>What the RDMA server's loops do\<close>

text \<open>
  The two-sided loop of \<open>src/server/rdma_main.cpp\<close> on a link that satisfies \<open>message_link\<close>: one
  round consumes one message and answers it, whatever fails in between; the whole loop is the
  sequential reference \<open>serve_messages\<close>, which is built from the TCP server's \<open>serve_line\<close>. Then
  the preloading loop and the socket helpers of the same file.
\<close>

subsection \<open>The reference\<close>

lemma two_sided_dispatch_handle: "two_sided_dispatch kvs req = handle_request kvs req"
  by (cases "req_type req")
    (simp_all add: two_sided_dispatch_def handle_request_def split: option.split prod.split bool.split)

fun serve_messages :: "string list \<Rightarrow> KeyValueStore \<Rightarrow> string list \<times> KeyValueStore" where
  "serve_messages [] kvs = ([], kvs)"
| "serve_messages (m # ms) kvs =
     (case serve_line kvs (strip_newline m) of
        (r, quit, kvs1) \<Rightarrow>
          if quit then ([r], kvs1)
          else (case serve_messages ms kvs1 of (rs, kvs2) \<Rightarrow> (r # rs, kvs2)))"

definition idle_link :: "msg_view \<Rightarrow> bool" where
  "idle_link v \<longleftrightarrow> recvs v = [] \<and> pending_sends v = 0"

text \<open>What a run may leave: the table of the first \<open>k\<close> messages, their responses handed to the NIC
in order, the last one perhaps not.\<close>

definition serves_prefix :: "string list \<Rightarrow> KeyValueStore \<Rightarrow> string list \<Rightarrow> KeyValueStore \<Rightarrow> string list \<Rightarrow> bool" where
  "serves_prefix msgs kvs out kvs' out' \<longleftrightarrow>
     (\<exists>k rs. serve_messages (take k msgs) kvs = (rs, kvs')
        \<and> (out' = out @ map (take RDMA_MSG_SIZE) rs \<or> out' = out @ map (take RDMA_MSG_SIZE) (butlast rs)))"

lemma serves_prefix_none: "serves_prefix msgs kvs out kvs out"
  unfolding serves_prefix_def by (intro exI [of _ 0] exI [of _ "[]"]) simp

lemma serves_prefix_one:
  assumes "serve_line kvs (strip_newline m) = (r, quit, kvs1)" and "out' = out @ [take RDMA_MSG_SIZE r] \<or> out' = out"
  shows "serves_prefix (m # ms) kvs out kvs1 out'"
  unfolding serves_prefix_def
  by (intro exI [of _ 1] exI [of _ "[r]"]) (use assms in \<open>auto split: prod.split\<close>)

lemma serves_prefix_Cons:
  assumes "serve_line kvs (strip_newline m) = (r, False, kvs1)"
    and "serves_prefix ms kvs1 (out @ [take RDMA_MSG_SIZE r]) kvs' out'"
  shows "serves_prefix (m # ms) kvs out kvs' out'"
proof -
  obtain k rs where k: "serve_messages (take k ms) kvs1 = (rs, kvs')"
    "out' = (out @ [take RDMA_MSG_SIZE r]) @ map (take RDMA_MSG_SIZE) rs
      \<or> out' = (out @ [take RDMA_MSG_SIZE r]) @ map (take RDMA_MSG_SIZE) (butlast rs)"
    using assms(2) unfolding serves_prefix_def by blast
  show ?thesis
  proof (cases "rs = []")
    case True
    with k assms(1) show ?thesis
      unfolding serves_prefix_def by (intro exI [of _ "Suc k"] exI [of _ "r # rs"]) auto
  next
    case False
    with k assms(1) show ?thesis
      unfolding serves_prefix_def by (intro exI [of _ "Suc k"] exI [of _ "r # rs"]) auto
  qed
qed

subsection \<open>One round\<close>

text \<open>The body of the loop, with the next iteration as a parameter.\<close>

definition two_sided_body :: "'n verbs \<Rightarrow> ('n verbs \<Rightarrow> KeyValueStore \<Rightarrow> RdmaContext \<Rightarrow> 'n host
    \<Rightarrow> (KeyValueStore \<times> RdmaContext \<times> 'n host) option) \<Rightarrow> KeyValueStore \<Rightarrow> RdmaContext \<Rightarrow> 'n host
    \<Rightarrow> (KeyValueStore \<times> RdmaContext \<times> 'n host) option" where
  "two_sided_body V rec kvs c h = do {
     (ok, h) \<leftarrow> post_recv V c h;
     if \<not> ok then Some (kvs, c, h)
     else do {
       (ok, c, h) \<leftarrow> poll_completion V c h;
       if \<not> ok then Some (kvs, c, h)
       else
         let req = parse_request (strip_newline (recv_data c h));
             (resp, kvs) = two_sided_dispatch kvs req
         in do {
           (ok, h) \<leftarrow> post_send V (serialize_response resp) c h;
           if \<not> ok then Some (kvs, c, h)
           else do {
             (ok, c, h) \<leftarrow> poll_completion V c h;
             if \<not> ok then Some (kvs, c, h)
             else if req_type req = Quit then Some (kvs, c, h)
             else rec V kvs c h
           }
         }
     }
   }"

lemma two_sided_loop_body: "two_sided_loop V kvs c h = two_sided_body V two_sided_loop kvs c h"
  unfolding two_sided_body_def by (rule two_sided_loop.simps)

context message_link
begin

text \<open>The ways a round ends: before a message was taken, after its execution, or with the link idle
again and the response handed over.\<close>

lemma two_sided_round:
  assumes ep: "endpoint qp cq lks c" and good: "good h" and idle: "idle_link (view h)"
    and quiet: "react = (\<lambda>_ _. [])"
  obtains (failed) c' h' where "two_sided_body V rec kvs c h = Some (kvs, c', h')" "outbox (view h') = outbox (view h)"
  | (stuck) "two_sided_body V rec kvs c h = None"
  | (broken) m ms r quit kvs1 c' h' where "two_sided_body V rec kvs c h = Some (kvs1, c', h')" "inbox (view h) = m # ms"
      "serve_line kvs (strip_newline m) = (r, quit, kvs1)"
      "outbox (view h') = outbox (view h) @ [take RDMA_MSG_SIZE r] \<or> outbox (view h') = outbox (view h)"
  | (round) m ms r quit kvs1 c' h' where "inbox (view h) = m # ms" "serve_line kvs (strip_newline m) = (r, quit, kvs1)"
      "two_sided_body V rec kvs c h = (if quit then Some (kvs1, c', h') else rec V kvs1 c' h')"
      "endpoint qp cq lks c'" "good h'" "idle_link (view h')" "inbox (view h') = ms"
      "outbox (view h') = outbox (view h) @ [take RDMA_MSG_SIZE r]"
proof -
  obtain ok1 h1 sge where recv: "post_recv V c h = Some (ok1, h1)" "good h1" "host_mem h1 = host_mem h"
    "sge_addr sge = recv_buf c" "unat (sge_length sge) = RDMA_MSG_SIZE"
    "view h1 = (if ok1 then (view h)\<lparr>recvs := recvs (view h) @ [sge]\<rparr> else view h)"
    by (rule post_recv_view [OF ep good])
  show thesis
  proof (cases ok1)
    case False
    then have "two_sided_body V rec kvs c h = Some (kvs, c, h1)"
      by (simp add: two_sided_body_def recv)
    then show thesis using False recv by (intro failed [of c h1]) simp_all
  next
    case True
    then have v1: "view h1 = (view h)\<lparr>recvs := [sge]\<rparr>" using recv idle by (simp add: idle_link_def)
    show thesis
    proof (cases "poll_completion V c h1")
      case None
      then show thesis using True recv by (intro stuck) (simp add: two_sided_body_def)
    next
      case (Some r2)
      obtain ok2 c2 h2 where poll: "poll_completion V c h1 = Some (ok2, c2, h2)" using Some by (cases r2) auto
      show thesis
      proof (cases ok2)
        case False
        then have "two_sided_body V rec kvs c h = Some (kvs, c2, h2)"
          by (simp add: two_sided_body_def recv \<open>ok1\<close> poll)
        moreover have "outbox (view h2) = outbox (view h)"
          using poll_completion_view [OF ep recv(2) poll] False v1 by simp
        ultimately show thesis by (intro failed)
      next
        case True
        note poll = poll [unfolded eqTrueI [OF True]]
        obtain m where m: "inbox (view h1) = m # inbox (view h2)" "view h2 = (view h1)\<lparr>recvs := [], inbox := inbox (view h2)\<rparr>"
          "recv_data c2 h2 = m" "good h2" "c2 = c\<lparr>recv_len := recv_len c2\<rparr>"
          by (rule poll_receives [OF ep recv(2) poll, of sge]) (use v1 idle recv in \<open>simp_all add: idle_link_def\<close>)
        have ep2: "endpoint qp cq lks c2" using ep by (subst m(5)) simp
        define req where "req = parse_request (strip_newline m)"
        obtain resp kvs1 where disp: "two_sided_dispatch kvs req = (resp, kvs1)" by (cases "two_sided_dispatch kvs req")
        define r where "r = serialize_response resp"
        have line: "serve_line kvs (strip_newline m) = (r, req_type req = Quit, kvs1)"
          using disp by (simp add: serve_line_def two_sided_dispatch_handle req_def r_def)
        have inb: "inbox (view h) = m # inbox (view h2)" using m(1) v1 by simp
        have v2: "outbox (view h2) = outbox (view h)" "recvs (view h2) = []" "pending_sends (view h2) = 0"
          by (subst m(2), use v1 idle in \<open>simp add: idle_link_def\<close>)+
        obtain ok3 h3 where send: "post_send V r c2 h2 = Some (ok3, h3)" "good h3"
          "view h3 = (if ok3 then posted react (take RDMA_MSG_SIZE r) (view h2) else view h2)"
          by (rule post_send_view [OF ep2 m(4), of r])
        have names: "parse_request (strip_newline (recv_data c2 h2)) = req" "serialize_response resp = r"
          by (simp_all add: m(3) req_def r_def)
        have loop: "two_sided_body V rec kvs c h =
           (if \<not> ok3 then Some (kvs1, c2, h3)
            else do {
             (ok, c, h) \<leftarrow> poll_completion V c2 h3;
             if \<not> ok then Some (kvs1, c, h)
             else if req_type req = Quit then Some (kvs1, c, h)
             else rec V kvs1 c h })"
          by (simp add: two_sided_body_def recv(1) poll \<open>ok1\<close> names disp send(1) Let_def cong: if_cong)
        show thesis
        proof (cases ok3)
          case False
          then show thesis using loop send(3) v2 by (intro broken [OF _ inb line, of c2 h3]) simp_all
        next
          case ok3: True
          have v3: "outbox (view h3) = outbox (view h) @ [take RDMA_MSG_SIZE r]" "recvs (view h3) = []"
            "pending_sends (view h3) = 1" "inbox (view h3) = inbox (view h2)"
            using send(3) ok3 v2 quiet by (simp_all add: posted_def)
          show thesis
          proof (cases "poll_completion V c2 h3")
            case None
            then show thesis using loop ok3 by (intro stuck) simp
          next
            case (Some r4)
            obtain ok4 c4 h4 where poll4: "poll_completion V c2 h3 = Some (ok4, c4, h4)" using Some by (cases r4) auto
            show thesis
            proof (cases ok4)
              case False
              then show thesis
                using loop ok3 poll4 poll_completion_view [OF ep2 send(2) poll4] v3
                by (intro broken [OF _ inb line, of c4 h4]) simp_all
            next
              case True
              note p = poll_sent [OF ep2 send(2) poll4 [unfolded eqTrueI [OF True]] v3(2)]
              show thesis
                by (rule round [OF inb line, of c4 h4]) (use loop ok3 poll4 True p v3 ep2 in \<open>simp_all add: idle_link_def\<close>)
            qed
          qed
        qed
      qed
    qed
  qed
qed

subsection \<open>The whole loop\<close>

lemma two_sided_loop_prefix:
  assumes quiet: "react = (\<lambda>_ _. [])" and run: "two_sided_loop V kvs c h = Some r"
    and "endpoint qp cq lks c" and "good h" and "idle_link (view h)"
  shows "serves_prefix (inbox (view h)) kvs (outbox (view h)) (fst r) (outbox (view (snd (snd r))))"
proof -
  have "V = V \<longrightarrow> endpoint qp cq lks c \<longrightarrow> good h \<longrightarrow> idle_link (view h) \<longrightarrow>
      serves_prefix (inbox (view h)) kvs (outbox (view h)) (fst r) (outbox (view (snd (snd r))))"
  proof (rule two_sided_loop.raw_induct [where P = "\<lambda>V' kvs c h r. V' = V \<longrightarrow> endpoint qp cq lks c \<longrightarrow> good h \<longrightarrow>
      idle_link (view h) \<longrightarrow> serves_prefix (inbox (view h)) kvs (outbox (view h)) (fst r) (outbox (view (snd (snd r))))",
      OF _ run], intro impI, goal_cases)
    case (1 rec V' kvs c h r)
    from 1(2) have body: "two_sided_body V rec kvs c h = Some r" unfolding two_sided_body_def \<open>V' = V\<close> .
    show ?case
    proof (cases rule: two_sided_round [OF 1(4-6) quiet, of rec kvs, case_names failed stuck broken round])
      case (round m ms x quit kvs1 c' h')
      show ?thesis
      proof (cases quit)
        case True
        then show ?thesis using round body by (auto intro: serves_prefix_one)
      next
        case False
        then have rec: "rec V kvs1 c' h' = Some r" using round body by simp
        from 1(1) [OF this] round have "serves_prefix ms kvs1 (outbox (view h) @ [take RDMA_MSG_SIZE x])
            (fst r) (outbox (view (snd (snd r))))" by simp
        with round False show ?thesis by (auto intro: serves_prefix_Cons)
      qed
    qed (use body in \<open>auto intro: serves_prefix_none serves_prefix_one\<close>)
  qed
  then show ?thesis using assms(3-) by simp
qed

end

context reliable_link
begin

lemma reliable_round:
  assumes ep: "endpoint qp cq lks c" and good: "good h" and idle: "idle_link (view h)"
    and quiet: "react = (\<lambda>_ _. [])" and inb: "inbox (view h) = m # ms" and len: "length m \<le> RDMA_MSG_SIZE"
    and line: "serve_line kvs (strip_newline m) = (r, quit, kvs1)"
  obtains c' h' where "two_sided_body V rec kvs c h = (if quit then Some (kvs1, c', h') else rec V kvs1 c' h')"
      "endpoint qp cq lks c'" "good h'" "idle_link (view h')" "inbox (view h') = ms"
      "outbox (view h') = outbox (view h) @ [take RDMA_MSG_SIZE r]"
proof -
  obtain ok1 h1 sge where recv: "post_recv V c h = Some (ok1, h1)" "good h1" "host_mem h1 = host_mem h"
    "sge_addr sge = recv_buf c" "unat (sge_length sge) = RDMA_MSG_SIZE"
    "view h1 = (if ok1 then (view h)\<lparr>recvs := recvs (view h) @ [sge]\<rparr> else view h)"
    by (rule post_recv_view [OF ep good])
  have ok1: ok1 by (rule post_recv_ok [OF ep good recv(1)])
  then have v1: "view h1 = (view h)\<lparr>recvs := [sge]\<rparr>" using recv idle by (simp add: idle_link_def)
  obtain c2 h2 where poll: "poll_completion V c h1 = Some (True, c2, h2)"
    by (rule poll_completes [OF ep recv(2)]) (use v1 inb len recv(5) in simp_all)
  obtain m' where m: "inbox (view h1) = m' # inbox (view h2)" "view h2 = (view h1)\<lparr>recvs := [], inbox := inbox (view h2)\<rparr>"
    "recv_data c2 h2 = m'" "good h2" "c2 = c\<lparr>recv_len := recv_len c2\<rparr>"
    by (rule poll_receives [OF ep recv(2) poll, of sge]) (use v1 idle recv in \<open>simp_all add: idle_link_def\<close>)
  have m': "m' = m" "inbox (view h2) = ms" using m(1) v1 inb by simp_all
  have ep2: "endpoint qp cq lks c2" using ep by (subst m(5)) simp
  have v2: "outbox (view h2) = outbox (view h)" "recvs (view h2) = []" "pending_sends (view h2) = 0"
    by (subst m(2), use v1 idle in \<open>simp add: idle_link_def\<close>)+
  obtain ok3 h3 where send: "post_send V r c2 h2 = Some (ok3, h3)" "good h3"
    "view h3 = (if ok3 then posted react (take RDMA_MSG_SIZE r) (view h2) else view h2)"
    by (rule post_send_view [OF ep2 m(4), of r])
  have ok3: ok3 by (rule post_send_ok [OF ep2 m(4) send(1)])
  then have v3: "outbox (view h3) = outbox (view h) @ [take RDMA_MSG_SIZE r]" "recvs (view h3) = []"
    "pending_sends (view h3) = 1" "inbox (view h3) = ms"
    using send(3) v2 m' quiet by (simp_all add: posted_def)
  obtain c4 h4 where poll4: "poll_completion V c2 h3 = Some (True, c4, h4)"
    by (rule poll_completes [OF ep2 send(2)]) (use v3 in simp_all)
  note p = poll_sent [OF ep2 send(2) poll4 v3(2)]
  obtain resp where disp: "two_sided_dispatch kvs (parse_request (strip_newline (recv_data c2 h2))) = (resp, kvs1)"
    and r: "serialize_response resp = r" and q: "(req_type (parse_request (strip_newline (recv_data c2 h2))) = Quit) = quit"
    using line by (auto simp: serve_line_def two_sided_dispatch_handle m(3) m'(1) Let_def split: prod.splits)
  have "two_sided_body V rec kvs c h = (if quit then Some (kvs1, c4, h4) else rec V kvs1 c4 h4)"
    by (simp add: two_sided_body_def recv(1) poll ok1 disp r q send(1) ok3 poll4 Let_def)
  then show thesis by (rule that) (use p v3 ep2 in \<open>simp_all add: idle_link_def\<close>)
qed

lemma two_sided_loop_answers_all:
  assumes quiet: "react = (\<lambda>_ _. [])" and "endpoint qp cq lks c" and "good h" and "idle_link (view h)"
    and "\<forall>m\<in>set (inbox (view h)). length m \<le> RDMA_MSG_SIZE"
    and "\<exists>m\<in>set (inbox (view h)). quit_line (strip_newline m)"
  shows "\<exists>kvs' c' h' rs. two_sided_loop V kvs c h = Some (kvs', c', h')
    \<and> serve_messages (inbox (view h)) kvs = (rs, kvs') \<and> outbox (view h') = outbox (view h) @ map (take RDMA_MSG_SIZE) rs"
  using assms(2-)
proof (induction "inbox (view h)" arbitrary: kvs c h)
  case (Cons m ms)
  obtain r quit kvs1 where line: "serve_line kvs (strip_newline m) = (r, quit, kvs1)"
    by (cases "serve_line kvs (strip_newline m)")
  have inb: "inbox (view h) = m # ms" using Cons(2) by simp
  have len: "length m \<le> RDMA_MSG_SIZE" using Cons.prems(4) inb by simp
  obtain c' h' where one: "two_sided_body V two_sided_loop kvs c h = (if quit then Some (kvs1, c', h') else two_sided_loop V kvs1 c' h')"
    "endpoint qp cq lks c'" "good h'" "idle_link (view h')" "inbox (view h') = ms"
    "outbox (view h') = outbox (view h) @ [take RDMA_MSG_SIZE r]"
    by (rule reliable_round [OF Cons.prems(1-3) quiet inb len line])
  have q: "quit = quit_line (strip_newline m)" using serve_line_response [OF line] by simp
  show ?case
  proof (cases quit)
    case True
    then show ?thesis using one line inb by (simp add: two_sided_loop_body)
  next
    case False
    have "\<exists>kvs' c'' h'' rs. two_sided_loop V kvs1 c' h' = Some (kvs', c'', h'')
      \<and> serve_messages (inbox (view h')) kvs1 = (rs, kvs') \<and> outbox (view h'') = outbox (view h') @ map (take RDMA_MSG_SIZE) rs"
      by (rule Cons.hyps(1)) (use one Cons.prems inb q False in auto)
    with one line inb False show ?thesis by (auto simp: two_sided_loop_body)
  qed
qed simp

end

subsection \<open>Preloading\<close>

text \<open>Every stored key occupies a slot of its own.\<close>

lemma dom_le_used:
  assumes "store_inv st"
  shows "card (dom (rdma_map st)) \<le> used st"
proof -
  let ?P = "{p. p < length (slots st) \<and> occupied (slots st ! p) \<noteq> 0}"
  define f where "f = (\<lambda>k. the (tab.lookup (slots st) k))"
  have at: "f k < RDMA_NUM_SLOTS \<and> tab.holds (slots st) (f k) k" if k: "k \<in> dom (rdma_map st)" for k
  proof -
    obtain p where "tab.lookup (slots st) k = Some p"
      using k by (auto simp: rdma_map_def tab.contents_def split: option.splits)
    then show ?thesis using tab.lookup_SomeD by (simp add: f_def)
  qed
  have "inj_on f (dom (rdma_map st))"
  proof (rule inj_onI)
    fix j k assume jk: "j \<in> dom (rdma_map st)" "k \<in> dom (rdma_map st)" "f j = f k"
    then show "j = k" using at [OF jk(1)] at [OF jk(2)] by (simp add: tab.holds_def)
  qed
  moreover have "f ` dom (rdma_map st) \<subseteq> ?P"
    using at store_inv_length [OF assms] by (auto simp: tab.holds_def slot_status_cases)
  ultimately have "card (dom (rdma_map st)) \<le> card ?P" by (rule card_inj_on_le) simp
  also have "card ?P = used st" by (simp add: used_def length_filter_conv_card)
  finally show ?thesis .
qed

lemma preload_key_inject [simp]: "preload_key i = preload_key j \<longleftrightarrow> i = j"
  by (simp add: preload_key_def)

lemma preload_ok: "key_ok (preload_key i)" "key_ok (preload_value i)"
  by (simp_all add: key_ok_def preload_key_def preload_value_def)

lemma preload_fits: "i < RDMA_NUM_SLOTS \<Longrightarrow> fits (preload_key i) (preload_value i)"
  using length_to_string_le [of i 4] by (simp add: fits_def preload_key_def preload_value_def rdma_sizes)

lemma preload_result:
  fixes n :: nat
  defines "st \<equiv> preload (int n) RdmaStore_init"
  shows "store_inv st \<and> used st \<le> n
    \<and> rdma_map st = (\<lambda>k. if \<exists>i<min n RDMA_NUM_SLOTS. k = preload_key i then Some (preload_value (THE i. k = preload_key i)) else None)"
  unfolding st_def
proof (induction n)
  case 0
  then show ?case by (simp add: preload_def store_inv_init rdma_map_init)
next
  case (Suc n)
  let ?st = "preload (int n) RdmaStore_init" and ?k = "preload_key n" and ?v = "preload_value n"
  let ?m = "\<lambda>n k. if \<exists>i<min n RDMA_NUM_SLOTS. k = preload_key i then Some (preload_value (THE i. k = preload_key i)) else None"
  have inv: "store_inv ?st" and le: "used ?st \<le> n" and map: "rdma_map ?st = ?m n" using Suc.IH by simp_all
  have step: "preload (int (Suc n)) RdmaStore_init = snd (rdma_set ?k ?v ?st)"
    by (simp add: preload_def nat_add_distrib)
  have inv': "store_inv (snd (rdma_set ?k ?v ?st))" and le': "used (snd (rdma_set ?k ?v ?st)) \<le> Suc n"
    using rdma_set_refines(1) [OF inv preload_ok] rdma_set_used [OF inv preload_ok(1), of n ?v] le by simp_all
  have new: "rdma_map ?st ?k = None" by (simp add: map)
  have "rdma_map (snd (rdma_set ?k ?v ?st)) = ?m (Suc n)"
  proof (cases "n < RDMA_NUM_SLOTS")
    case True
    then have "fst (rdma_set ?k ?v ?st)"
      using le preload_fits by (simp add: rdma_set_accepts inv preload_ok)
    from rdma_set_refines(2) [OF inv preload_ok this]
    have "rdma_map (snd (rdma_set ?k ?v ?st)) = (rdma_map ?st)(?k \<mapsto> ?v)" .
    also have "\<dots> = ?m (Suc n)"
      using True by (rule_tac ext) (auto simp: map less_Suc_eq min_def)
    finally show ?thesis .
  next
    case False
    then have "preload_key ` {..<RDMA_NUM_SLOTS} \<subseteq> dom (rdma_map ?st)" by (auto simp: map)
    moreover have "card (preload_key ` {..<RDMA_NUM_SLOTS}) = RDMA_NUM_SLOTS"
      by (simp add: card_image inj_on_def)
    moreover have "finite (dom (rdma_map ?st))"
    proof -
      have "dom (rdma_map ?st) \<subseteq> preload_key ` {..<n}" by (auto simp: map split: if_splits)
      then show ?thesis by (rule finite_subset) simp
    qed
    ultimately have "RDMA_NUM_SLOTS \<le> used ?st"
      using dom_le_used [OF inv] card_mono [of "dom (rdma_map ?st)" "preload_key ` {..<RDMA_NUM_SLOTS}"] by simp
    then have "\<not> fst (rdma_set ?k ?v ?st)" using new by (simp add: rdma_set_accepts inv preload_ok)
    then have "snd (rdma_set ?k ?v ?st) = ?st" by (rule rdma_set_refused [OF inv preload_ok(1)])
    moreover have "min (Suc n) RDMA_NUM_SLOTS = min n RDMA_NUM_SLOTS" using False by simp
    ultimately show ?thesis by (simp add: map)
  qed
  with inv' le' show ?case unfolding step by blast
qed

lemma preload_get:
  "rdma_get (preload_key i) (preload n RdmaStore_init) = (if int i < n \<and> i < RDMA_NUM_SLOTS then Some (preload_value i) else None)"
proof -
  have n: "preload n RdmaStore_init = preload (int (nat n)) RdmaStore_init" by (simp add: preload_def)
  note r = preload_result [of "nat n", folded n]
  have "rdma_get (preload_key i) (preload n RdmaStore_init) = rdma_map (preload n RdmaStore_init) (preload_key i)"
    using r preload_ok by (simp add: rdma_get_map)
  with r show ?thesis by (auto simp: zless_nat_conj nat_less_iff)
qed

end
