(* ===== verification/RdmaClientLaws.thy ===== *)
theory RdmaClientLaws
  imports RdmaBenchmark RdmaServerLaws
begin

section \<open>The two-sided client on a reliable link\<close>

text \<open>
  A request of \<open>src/client/rdma_client.cpp\<close> on a link that satisfies \<open>reliable_link\<close> and whose far end
  answers it with one message: the two polls find the two completions, in either order, and the
  response is that message. Then the far end that is the two-sided server: \<open>server_reply\<close> answers
  as \<open>serve_messages\<close> does, and stops after \<open>QUIT\<close>.
\<close>

subsection \<open>One request\<close>

definition client_ready :: "ibv_qp \<Rightarrow> nat \<Rightarrow> u32 set \<Rightarrow> ('n host \<Rightarrow> bool) \<Rightarrow> ('n host \<Rightarrow> msg_view) \<Rightarrow> RdmaContext \<Rightarrow> 'n host \<Rightarrow> bool" where
  "client_ready qp cq lks good vw c h \<longleftrightarrow>
     endpoint qp cq lks c \<and> good h \<and> idle_link (vw h) \<and> inbox (vw h) = []"

context reliable_link
begin

lemma exchange_polls:
  assumes ready: "client_ready qp cq lks good view c h"
    and one: "react (outbox (view h)) (take RDMA_MSG_SIZE data) = [resp]" and len: "length resp \<le> RDMA_MSG_SIZE"
  obtains h1 h2 c3 h3 c4 h4 where "post_recv V c h = Some (True, h1)" and "post_send V data c h1 = Some (True, h2)"
    and "poll_completion V c h2 = Some (True, c3, h3)" and "poll_completion V c3 h3 = Some (True, c4, h4)"
    and "recv_data c4 h4 = resp" and "client_ready qp cq lks good view c4 h4"
    and "outbox (view h4) = outbox (view h) @ [take RDMA_MSG_SIZE data]"
proof -
  have ep: "endpoint qp cq lks c" and good: "good h" and idle: "recvs (view h) = []" "pending_sends (view h) = 0" "inbox (view h) = []"
    using ready by (simp_all add: client_ready_def idle_link_def)
  obtain ok1 h1 sge where recv: "post_recv V c h = Some (ok1, h1)" "good h1" "host_mem h1 = host_mem h"
    "sge_addr sge = recv_buf c" "unat (sge_length sge) = RDMA_MSG_SIZE"
    "view h1 = (if ok1 then (view h)\<lparr>recvs := recvs (view h) @ [sge]\<rparr> else view h)"
    by (rule post_recv_view [OF ep good])
  have ok1: ok1 by (rule post_recv_ok [OF ep good recv(1)])
  then have v1: "view h1 = (view h)\<lparr>recvs := [sge]\<rparr>" using recv idle by simp
  obtain ok2 h2 where send: "post_send V data c h1 = Some (ok2, h2)" "good h2"
    "view h2 = (if ok2 then posted react (take RDMA_MSG_SIZE data) (view h1) else view h1)"
    by (rule post_send_view [OF ep recv(2), of data])
  have ok2: ok2 by (rule post_send_ok [OF ep recv(2) send(1)])
  then have v2: "view h2 = \<lparr>inbox = [resp], outbox = outbox (view h) @ [take RDMA_MSG_SIZE data], recvs = [sge], pending_sends = 1\<rparr>"
    using send(3) v1 idle one by (simp add: posted_def)
  obtain c3 h3 where poll3: "poll_completion V c h2 = Some (True, c3, h3)"
    by (rule poll_completes [OF ep send(2)]) (use v2 in simp_all)
  obtain wc3 where good3: "good h3" and del3: "delivers view h2 wc3 h3"
    and c3: "c3 = (if wc_op wc3 = WC_RECV then c\<lparr>recv_len := wc_byte_len wc3\<rparr> else c)"
    using poll_completion_view [OF ep send(2) poll3] by auto
  have ep3: "endpoint qp cq lks c3" using ep c3 by simp
  have n: "unat (of_nat (length resp) :: u32) = length resp" using len by (simp add: unat_of_nat RDMA_MSG_SIZE_def)
  have read: "load (store mm (recv_buf c) resp) (recv_buf c) (length resp) = resp" for mm
    by (rule load_store_same) (use len in \<open>simp_all add: RDMA_MSG_SIZE_def\<close>)
  obtain c4 h4 where poll4: "poll_completion V c3 h3 = Some (True, c4, h4)"
    by (rule poll_completes [OF ep3 good3]) (use del3 v2 len recv(5) in \<open>auto simp: delivers_def\<close>)
  obtain wc4 where good4: "good h4" and del4: "delivers view h3 wc4 h4"
    and c4: "c4 = (if wc_op wc4 = WC_RECV then c3\<lparr>recv_len := wc_byte_len wc4\<rparr> else c3)"
    using poll_completion_view [OF ep3 good3 poll4] by auto
  have end4: "recv_data c4 h4 = resp \<and> view h4 = \<lparr>inbox = [], outbox = outbox (view h) @ [take RDMA_MSG_SIZE data], recvs = [], pending_sends = 0\<rparr>"
    using del3 del4 v2 c3 c4 n read recv(4) by (auto simp: delivers_def receives_into_def recv_data_def)
  have "endpoint qp cq lks c4" using ep3 c4 by simp
  with good4 end4 have "client_ready qp cq lks good view c4 h4" by (simp add: client_ready_def idle_link_def)
  with recv(1) send(1) poll3 poll4 ok1 ok2 end4 show thesis by (intro that [of h1 h2 c3 h3 c4 h4]) simp_all
qed

lemma request_answered:
  assumes "client_ready qp cq lks good view c h"
    and "react (outbox (view h)) (take RDMA_MSG_SIZE (command @ [NL])) = [resp]" and "length resp \<le> RDMA_MSG_SIZE"
  obtains c' h' where "two_sided_request_response V command c h = Some (Some (strip_line_end resp), c', h')"
    and "client_ready qp cq lks good view c' h'" and "outbox (view h') = outbox (view h) @ [take RDMA_MSG_SIZE (command @ [NL])]"
proof -
  obtain h1 h2 c3 h3 c4 h4 where steps: "post_recv V c h = Some (True, h1)" "post_send V (command @ [NL]) c h1 = Some (True, h2)"
    "poll_completion V c h2 = Some (True, c3, h3)" "poll_completion V c3 h3 = Some (True, c4, h4)"
    "recv_data c4 h4 = resp" "client_ready qp cq lks good view c4 h4"
    "outbox (view h4) = outbox (view h) @ [take RDMA_MSG_SIZE (command @ [NL])]"
    by (rule exchange_polls [OF assms])
  then show thesis by (intro that [of c4 h4]) (simp_all add: two_sided_request_response_def)
qed

end

subsection \<open>The two-sided server at the far end\<close>

definition ends_session :: "string list \<Rightarrow> bool" where
  "ends_session msgs \<longleftrightarrow> (\<exists>m\<in>set msgs. quit_line (strip_newline m))"

definition server_reply :: "KeyValueStore \<Rightarrow> string list \<Rightarrow> string \<Rightarrow> string list" where
  "server_reply kvs0 sent_msgs m =
     (if ends_session sent_msgs then []
      else [take RDMA_MSG_SIZE (fst (serve_line (snd (serve_messages sent_msgs kvs0)) (strip_newline m)))])"

text \<open>The replies are the responses of the server's loop, and the table behind them is its table.\<close>

lemma serve_messages_snoc:
  assumes "\<not> ends_session msgs" and "serve_messages msgs kvs = (rs, kvs1)" and "serve_line kvs1 (strip_newline m) = (r, quit, kvs2)"
  shows "serve_messages (msgs @ [m]) kvs = (rs @ [r], kvs2)"
  using assms
proof (induction msgs arbitrary: kvs rs)
  case (Cons x xs)
  obtain r1 q1 k1 where x: "serve_line kvs (strip_newline x) = (r1, q1, k1)" by (cases "serve_line kvs (strip_newline x)")
  have "\<not> q1" using serve_line_response [OF x] Cons.prems(1) by (simp add: ends_session_def)
  with x Cons show ?case by (auto simp: ends_session_def split: prod.splits)
qed simp

lemma ends_session_snoc [simp]: "ends_session (msgs @ [m]) \<longleftrightarrow> ends_session msgs \<or> quit_line (strip_newline m)"
  by (auto simp: ends_session_def)

lemma strip_newline_snoc [simp]: "strip_newline (line @ [NL]) = line"
  by (simp add: strip_newline_def)

text \<open>The line the server sees: a line that leaves no room for its newline is cut at 4096 bytes.\<close>

definition line_received :: "string \<Rightarrow> string" where
  "line_received line = (if length line < RDMA_MSG_SIZE then line else strip_newline (take RDMA_MSG_SIZE line))"

lemma line_received_eq: "strip_newline (take RDMA_MSG_SIZE (line @ [NL])) = line_received line"
  by (simp add: line_received_def)

lemma line_received_short [simp]: "length line < RDMA_MSG_SIZE \<Longrightarrow> line_received line = line"
  by (simp add: line_received_def)

text \<open>What the prompt shows.\<close>

fun two_sided_transcript :: "KeyValueStore \<Rightarrow> string list \<Rightarrow> string list" where
  "two_sided_transcript kvs [] = [''> '']"
| "two_sided_transcript kvs (line # stdin) =
     ''> '' # (if line = [] then two_sided_transcript kvs stdin
       else (case serve_line kvs (line_received line) of
          (r, quit, kvs1) \<Rightarrow>
            (take RDMA_MSG_SIZE r @ [NL])
              # (if sublist ''BYE'' (take RDMA_MSG_SIZE r) then [] else two_sided_transcript kvs1 stdin)))"

definition served_ready :: "ibv_qp \<Rightarrow> nat \<Rightarrow> u32 set \<Rightarrow> ('n host \<Rightarrow> bool) \<Rightarrow> ('n host \<Rightarrow> msg_view) \<Rightarrow> KeyValueStore
    \<Rightarrow> KeyValueStore \<Rightarrow> RdmaContext \<Rightarrow> 'n host \<Rightarrow> bool" where
  "served_ready qp cq lks good vw kvs0 kvs c h \<longleftrightarrow>
     client_ready qp cq lks good vw c h \<and> \<not> ends_session (outbox (vw h)) \<and> snd (serve_messages (outbox (vw h)) kvs0) = kvs"

lemma quit_shows_bye:
  assumes "serve_line kvs line = (r, quit, kvs1)" and quit
  shows "sublist ''BYE'' (take RDMA_MSG_SIZE r)"
proof -
  have "r = ''BYE'' @ [NL]"
    using assms by (auto simp: serve_line_def handle_request_def serialize_response_def Let_def split: prod.splits)
  then have "take RDMA_MSG_SIZE r = [] @ ''BYE'' @ [NL]" by (simp add: RDMA_MSG_SIZE_def)
  then show ?thesis unfolding sublist_def by blast
qed

context reliable_link
begin

lemma served_step:
  assumes far: "react = server_reply kvs0" and ready: "served_ready qp cq lks good view kvs0 kvs c h"
    and line: "serve_line kvs (line_received line) = (r, quit, kvs1)"
  shows "react (outbox (view h)) (take RDMA_MSG_SIZE (line @ [NL])) = [take RDMA_MSG_SIZE r]"
    and "client_ready qp cq lks good view c' h' \<Longrightarrow> outbox (view h') = outbox (view h) @ [take RDMA_MSG_SIZE (line @ [NL])] \<Longrightarrow>
      \<not> quit \<Longrightarrow> served_ready qp cq lks good view kvs0 kvs1 c' h'"
proof -
  let ?m = "take RDMA_MSG_SIZE (line @ [NL])"
  have m: "serve_line kvs (strip_newline ?m) = (r, quit, kvs1)" using line unfolding line_received_eq .
  show "react (outbox (view h)) ?m = [take RDMA_MSG_SIZE r]"
    using ready unfolding far server_reply_def served_ready_def by (simp only: m) simp
  assume "client_ready qp cq lks good view c' h'" and out: "outbox (view h') = outbox (view h) @ [?m]"
    and "\<not> quit"
  obtain rs where "serve_messages (outbox (view h)) kvs0 = (rs, kvs)"
    using ready by (cases "serve_messages (outbox (view h)) kvs0") (simp add: served_ready_def)
  moreover have open_session: "\<not> ends_session (outbox (view h))" using ready by (simp add: served_ready_def)
  ultimately have "serve_messages (outbox (view h) @ [?m]) kvs0 = (rs @ [r], kvs1)"
    using m by (intro serve_messages_snoc)
  moreover have "\<not> ends_session (outbox (view h) @ [?m])"
    using serve_line_response [OF m] \<open>\<not> quit\<close> open_session unfolding ends_session_snoc by simp
  ultimately show "served_ready qp cq lks good view kvs0 kvs1 c' h'"
    using \<open>client_ready qp cq lks good view c' h'\<close> unfolding served_ready_def out by simp
qed

lemma run_two_sided_loop_transcript:
  assumes far: "react = server_reply kvs0" and "served_ready qp cq lks good view kvs0 kvs c h"
  shows "\<exists>c' h'. run_two_sided_loop V stdin out c h = Some (out @ two_sided_transcript kvs stdin, c', h')"
  using assms(2)
proof (induction stdin arbitrary: out kvs c h)
  case (Cons line stdin)
  show ?case
  proof (cases "line = []")
    case True
    then show ?thesis using Cons.IH [OF Cons.prems, of "out @ [''> '']"] by simp
  next
    case False
    obtain r quit kvs1 where line: "serve_line kvs (line_received line) = (r, quit, kvs1)"
      by (cases "serve_line kvs (line_received line)")
    have ready: "client_ready qp cq lks good view c h" using Cons.prems by (simp add: served_ready_def)
    note step = served_step [OF far Cons.prems line]
    obtain h1 h2 c3 h3 c4 h4 where steps: "post_recv V c h = Some (True, h1)" "post_send V (line @ [NL]) c h1 = Some (True, h2)"
      "poll_completion V c h2 = Some (True, c3, h3)" "poll_completion V c3 h3 = Some (True, c4, h4)"
      "recv_data c4 h4 = take RDMA_MSG_SIZE r" "client_ready qp cq lks good view c4 h4"
      "outbox (view h4) = outbox (view h) @ [take RDMA_MSG_SIZE (line @ [NL])]"
      by (rule exchange_polls [OF ready step(1)]) simp
    have loop: "run_two_sided_loop V (line # stdin) out c h =
       (if sublist ''BYE'' (take RDMA_MSG_SIZE r) then Some (out @ [''> '', take RDMA_MSG_SIZE r @ [NL]], c4, h4)
        else run_two_sided_loop V stdin (out @ [''> '', take RDMA_MSG_SIZE r @ [NL]]) c4 h4)"
      using False steps by (simp add: Let_def)
    show ?thesis
    proof (cases "sublist ''BYE'' (take RDMA_MSG_SIZE r)")
      case True
      then show ?thesis using loop False line by simp
    next
      case nobye: False
      then have "\<not> quit" using quit_shows_bye [OF line] by blast
      with step(2) steps have "served_ready qp cq lks good view kvs0 kvs1 c4 h4" by blast
      from Cons.IH [OF this, of "out @ [''> '', take RDMA_MSG_SIZE r @ [NL]]"]
      obtain c' h' where "run_two_sided_loop V stdin (out @ [''> '', take RDMA_MSG_SIZE r @ [NL]]) c4 h4
          = Some ((out @ [''> '', take RDMA_MSG_SIZE r @ [NL]]) @ two_sided_transcript kvs1 stdin, c', h')" by auto
      then show ?thesis using loop nobye False line by simp
    qed
  qed
qed simp

end

end
