(* ===== verification/HandlerLaws.thy ===== *)
theory HandlerLaws
  imports RdmaServer RdmaLaws
begin

section \<open>What the handlers hold and release\<close>

text \<open>
  The world of a handler of \<open>src/server/rdma_main.cpp\<close> holds verbs resources (\<open>live\<close>) and a record
  of the descriptors closed so far (\<open>closes\<close>). \<open>handler_world\<close> says which calls touch which: the
  verbs calls close no descriptor, the socket calls leave the verbs resources alone, and posting
  and polling allocate nothing. Under it every handler returns with the resources it started with
  (plus the device list, when that is allocated and empty) and exactly one \<open>close\<close>, of the
  descriptor it was given.
\<close>

subsection \<open>Calls that leave a part of the world alone\<close>

definition data_calls_keep :: "'n verbs \<Rightarrow> ('n host \<Rightarrow> 'a) \<Rightarrow> bool" where
  "data_calls_keep V f \<longleftrightarrow>
     (\<forall>h mm. f (h\<lparr>host_mem := mm\<rparr>) = f h)
   \<and> (\<forall>q wr h. f (snd (ibv_post_recv V q wr h)) = f h)
   \<and> (\<forall>q wr h. f (snd (ibv_post_send V q wr h)) = f h)
   \<and> (\<forall>q h. f (snd (snd (ibv_poll_cq V q h))) = f h)
   \<and> (\<forall>q at msk h. f (snd (ibv_modify_qp V q at msk h)) = f h)"

definition control_calls_keep :: "'n verbs \<Rightarrow> ('n host \<Rightarrow> 'a) \<Rightarrow> bool" where
  "control_calls_keep V f \<longleftrightarrow>
     (\<forall>h. f (snd (ibv_get_device_list V h)) = f h) \<and> (\<forall>h. f (ibv_free_device_list V h) = f h)
   \<and> (\<forall>d h. f (snd (ibv_open_device V d h)) = f h) \<and> (\<forall>d h. f (ibv_close_device V d h) = f h)
   \<and> (\<forall>x h. f (snd (ibv_alloc_pd V x h)) = f h) \<and> (\<forall>p h. f (ibv_dealloc_pd V p h) = f h)
   \<and> (\<forall>x n h. f (snd (ibv_create_cq V x n h)) = f h) \<and> (\<forall>q h. f (ibv_destroy_cq V q h) = f h)
   \<and> (\<forall>p at h. f (snd (ibv_create_qp V p at h)) = f h) \<and> (\<forall>q h. f (ibv_destroy_qp V q h) = f h)
   \<and> (\<forall>p a n fl h. f (snd (ibv_reg_mr V p a n fl h)) = f h) \<and> (\<forall>m h. f (ibv_dereg_mr V m h) = f h)"

definition transfers_keep :: "'w kernel \<Rightarrow> ('w \<Rightarrow> 'a) \<Rightarrow> bool" where
  "transfers_keep K f \<longleftrightarrow> (\<forall>fd n w. f (snd (sys_read K fd n w)) = f w) \<and> (\<forall>fd bs w. f (snd (sys_write K fd bs w)) = f w)"

definition handler_world :: "'n verbs \<Rightarrow> 'n host kernel \<Rightarrow> ('n host \<Rightarrow> resource set) \<Rightarrow> ('n host \<Rightarrow> int list) \<Rightarrow> bool" where
  "handler_world V K live closes \<longleftrightarrow>
     verbs_accounting V live \<and> data_calls_keep V live \<and> data_calls_keep V closes \<and> control_calls_keep V closes
   \<and> transfers_keep K live \<and> transfers_keep K closes
   \<and> (\<forall>fd h. live (sys_close K fd h) = live h \<and> closes (sys_close K fd h) = closes h @ [fd])"

lemma buf_write_all_keeps:
  assumes K: "transfers_keep K f" and run: "buf_write_all K fd p w = Some (ok, w')"
  shows "f w' = f w"
proof -
  have keep: "f w1 = f w" if "sys_write K fd p w = (r, w1)" for fd p w r w1
    using K that unfolding transfers_keep_def by (metis snd_conv)
  have "K = K \<longrightarrow> f (snd (ok, w')) = f w"
    by (rule buf_write_all.raw_induct [where P = "\<lambda>K' fd p w r. K' = K \<longrightarrow> f (snd r) = f w", OF _ run])
      (auto split: if_splits prod.splits write_result.splits dest!: keep)
  then show ?thesis by simp
qed

lemma buf_read_all_keeps:
  assumes K: "transfers_keep K f" and run: "buf_read_all K fd buf n w = Some (ok, bs, w')"
  shows "f w' = f w"
proof -
  have keep: "f w1 = f w" if "sys_read K fd n w = (r, w1)" for fd n w r w1
    using K that unfolding transfers_keep_def by (metis snd_conv)
  have "K = K \<longrightarrow> f (snd (snd (ok, bs, w'))) = f w"
    by (rule buf_read_all.raw_induct [where P = "\<lambda>K' fd buf n w r. K' = K \<longrightarrow> f (snd (snd r)) = f w", OF _ run])
      (auto split: if_splits prod.splits read_result.splits dest!: keep)
  then show ?thesis by simp
qed

lemma exchange_info_keeps:
  assumes "transfers_keep K f" and "exchange_info K fd info h = Some (r, h')"
  shows "f h' = f h"
  using assms(2) unfolding exchange_info_def
  by (auto split: bind_splits if_splits
      dest!: buf_write_all_keeps [OF assms(1)] buf_read_all_keeps [OF assms(1)])

subsection \<open>The data path leaves them alone\<close>

lemma data_calls_keepD:
  assumes "data_calls_keep V f"
  shows "f (h\<lparr>host_mem := mm\<rparr>) = f h"
    and "ibv_post_recv V q rwr h = (ret, h') \<Longrightarrow> f h' = f h"
    and "ibv_post_send V q swr h = (ret, h') \<Longrightarrow> f h' = f h"
    and "ibv_poll_cq V cq h = (ret, wc, h') \<Longrightarrow> f h' = f h"
    and "ibv_modify_qp V q at msk h = (ret, h') \<Longrightarrow> f h' = f h"
  using assms unfolding data_calls_keep_def by (simp, (metis snd_conv)+)

lemma post_recv_keeps: "data_calls_keep V f \<Longrightarrow> post_recv V c h = Some (ok, h') \<Longrightarrow> f h' = f h"
  by (auto simp: post_recv_def Let_def split: option.splits prod.splits dest: data_calls_keepD)

lemma post_send_keeps:
  assumes "data_calls_keep V f" and "post_send V data c h = Some (ok, h')"
  shows "f h' = f h"
  using assms(2)
  by (auto simp: post_send_def Let_def data_calls_keepD(1) [OF assms(1)]
      split: option.splits prod.splits dest!: data_calls_keepD(3) [OF assms(1)])

lemma nth_poll_keeps:
  assumes "data_calls_keep V f"
  shows "f (snd (snd (nth_poll V cq n h))) = f h"
proof (induction n arbitrary: h)
  case 0
  then show ?case using assms by (simp add: data_calls_keep_def)
next
  case (Suc n)
  then show ?case using data_calls_keepD(4) [OF assms] by (auto split: prod.split)
qed

text \<open>The part of a context a completion does not touch.\<close>

definition ctx_core :: "RdmaContext \<Rightarrow> RdmaContext" where
  "ctx_core c = c\<lparr>recv_len := 0\<rparr>"

lemma ctx_core_fields:
  assumes "ctx_core c' = ctx_core c"
  shows "ctx_ptr c' = ctx_ptr c" "pd_ptr c' = pd_ptr c" "cq_ptr c' = cq_ptr c" "qp_ptr c' = qp_ptr c"
    "send_mr c' = send_mr c" "recv_mr c' = recv_mr c"
  using arg_cong [OF assms, of ctx_ptr] arg_cong [OF assms, of pd_ptr] arg_cong [OF assms, of cq_ptr]
    arg_cong [OF assms, of qp_ptr] arg_cong [OF assms, of send_mr] arg_cong [OF assms, of recv_mr]
  by (simp_all add: ctx_core_def)

lemma poll_completion_core: "poll_completion V c h = Some (ok, c', h') \<Longrightarrow> ctx_core c' = ctx_core c"
  by (auto simp: poll_completion_def ctx_core_def Let_def split: option.splits if_splits)

lemma poll_completion_keeps:
  assumes "data_calls_keep V f" and "poll_completion V c h = Some (ok, c', h')"
  shows "f h' = f h"
proof -
  obtain cq ret wc h1 where cq: "cq_ptr c = Some cq" and loop: "poll_loop V cq h = Some (ret, wc, h1)"
    using assms(2) by (auto simp: poll_completion_def split: option.splits)
  then have "h' = h1" using assms(2) by (auto simp: poll_completion_def Let_def split: if_splits)
  moreover obtain n where "nth_poll V cq n h = (ret, wc, h1)" using poll_loop_nth [OF loop] by blast
  then have "f h1 = f h" using nth_poll_keeps [OF assms(1), of cq n h] by simp
  ultimately show ?thesis by simp
qed

lemma two_sided_loop_keeps:
  assumes V: "data_calls_keep V f" and run: "two_sided_loop V kvs c h = Some (kvs', c', h')"
  shows "f h' = f h \<and> ctx_core c' = ctx_core c"
proof -
  let ?P = "\<lambda>V' kvs c h r. V' = V \<longrightarrow> (case r of (_, c', h') \<Rightarrow> f h' = f h \<and> ctx_core c' = ctx_core c)"
  have "?P V kvs c h (kvs', c', h')"
  proof (rule two_sided_loop.raw_induct [where P = ?P, OF _ run], intro impI, goal_cases)
    case (1 rec V' kvs c h r)
    have rec: "f h' = f h \<and> ctx_core c' = ctx_core c" if "rec V kvs c h = Some (kvs', c', h')" for kvs c h kvs' c' h'
      using 1(1) [OF that] by simp
    have poll: "f h' = f h \<and> ctx_core c' = ctx_core c" if "poll_completion V c h = Some (ok, c', h')" for ok c h c' h'
      using poll_completion_keeps [OF V that] poll_completion_core [OF that] by simp
    show ?case
      using 1(2) unfolding \<open>V' = V\<close>
      by (auto split: bind_splits if_splits prod.splits simp: Let_def
          dest!: post_recv_keeps [OF V] post_send_keeps [OF V] poll rec)
  qed
  then show ?thesis by simp
qed

lemma rdma_connect_keeps: "data_calls_keep V f \<Longrightarrow> rdma_connect V remote c h = Some (ok, h') \<Longrightarrow> f h' = f h"
  by (auto simp: rdma_connect_def split: option.splits prod.splits if_splits)
    (metis data_calls_keepD(5))+

subsection \<open>Set-up and teardown close no descriptor\<close>

lemma control_calls_keepD:
  assumes "control_calls_keep V f"
  shows "ibv_get_device_list V h = (l, h') \<Longrightarrow> f h' = f h" "f (ibv_free_device_list V h) = f h"
    "ibv_open_device V d h = (xo, h') \<Longrightarrow> f h' = f h" "f (ibv_close_device V d h) = f h"
    "ibv_alloc_pd V x h = (po, h') \<Longrightarrow> f h' = f h" "f (ibv_dealloc_pd V p h) = f h"
    "ibv_create_cq V x n h = (co, h') \<Longrightarrow> f h' = f h" "f (ibv_destroy_cq V q h) = f h"
    "ibv_create_qp V p at h = (qo, h') \<Longrightarrow> f h' = f h" "f (ibv_destroy_qp V qq h) = f h"
    "ibv_reg_mr V p a len fl h = (mo, h') \<Longrightarrow> f h' = f h" "f (ibv_dereg_mr V m h) = f h"
  using assms unfolding control_calls_keep_def by (metis snd_conv | simp)+

lemma drops_keep:
  assumes "control_calls_keep V f"
  shows "f (snd (drop_send_mr V ch)) = f (snd ch)" "f (snd (drop_recv_mr V ch)) = f (snd ch)"
    "f (snd (drop_qp V ch)) = f (snd ch)" "f (snd (drop_cq V ch)) = f (snd ch)"
    "f (snd (drop_pd V ch)) = f (snd ch)" "f (snd (drop_ctx V ch)) = f (snd ch)"
  by (simp_all add: drop_send_mr_def drop_recv_mr_def drop_qp_def drop_cq_def drop_pd_def drop_ctx_def
      control_calls_keepD(2,4,6,8,10,12) [OF assms] split: prod.split option.split)

lemma rdma_destroy_keeps: "control_calls_keep V f \<Longrightarrow> f (snd (rdma_destroy V c h)) = f h"
  by (simp add: rdma_destroy_def drops_keep)

lemma fail_destroy_keeps: "control_calls_keep V f \<Longrightarrow> f (snd (snd (fail_destroy V c h))) = f h"
  using rdma_destroy_keeps [of V f c h] by (simp add: fail_destroy_def prod.case_eq_if)

lemma init_opened_keeps:
  assumes "control_calls_keep V f" and "data_calls_keep V f"
  shows "f (snd (snd (init_opened V x c h))) = f h"
  using control_calls_keepD(5,7,9,11) [OF assms(1)] data_calls_keepD(5) [OF assms(2)]
  by (simp add: init_opened_def Let_def fail_destroy_keeps [OF assms(1)] split: prod.split option.split)

lemma rdma_init_keeps:
  assumes "control_calls_keep V f" and "data_calls_keep V f" and "rdma_init V dev c h = (ok, c', h')"
  shows "f h' = f h"
proof -
  have "f (snd (snd (rdma_init V dev c h))) = f h"
    using control_calls_keepD(1,3) [OF assms(1)] control_calls_keepD(2) [OF assms(1)]
    by (simp add: rdma_init_def Let_def init_opened_keeps [OF assms(1,2)] split: prod.split option.split)
  then show ?thesis by (simp add: assms(3))
qed

subsection \<open>Leaving a handler\<close>

lemma step_ok_core: "ctx_core c' = ctx_core c \<Longrightarrow> live h' = live h \<Longrightarrow> step_ok live rest (c, h) \<Longrightarrow> step_ok live rest (c', h')"
proof -
  assume core: "ctx_core c' = ctx_core c" and same: "live h' = live h" and ok: "step_ok live rest (c, h)"
  note fields = ctx_core_fields [OF core]
  have "owns_res c' r = owns_res c r" for r by (cases r) (simp_all add: fields)
  moreover have "has_handle c' x = has_handle c x" for x by (cases x) (simp_all add: fields)
  ultimately show ?thesis using ok by (simp add: step_ok_def owns_def owned_def nested_def fields same)
qed

lemma leave_step:
  assumes "handler_world V K live closes" and "step_ok live rest (c, h)"
  shows "live (leave V c h) = rest \<and> closes (leave V c h) = closes h"
  using rdma_destroy_releases [of V live c rest h] rdma_destroy_keeps [of V closes c h] assms
  by (simp add: leave_def handler_world_def step_ok_def)

lemma leave_null: "all_null c \<Longrightarrow> leave V c h = h"
  by (simp add: leave_def rdma_destroy_null_id)

text \<open>
  What a handler may leave behind: nothing, except the device list when it is allocated and empty
  (then \<open>init\<close> returns before it would free it).
\<close>

definition left_behind :: "'n verbs \<Rightarrow> 'n host \<Rightarrow> resource set" where
  "left_behind V h = (if fst (ibv_get_device_list V h) = Some [] then {DevList} else {})"

lemma handler_init:
  assumes W: "handler_world V K live closes" and "DevList \<notin> live h"
    and run: "rdma_init V dev (RdmaContext_default sbuf rbuf) h = (ok, c, h')"
  shows "closes h' = closes h \<and> (if ok then step_ok live (live h) (c, h') \<and> pd_ptr c \<noteq> None \<and> ctx_ptr c \<noteq> None \<and> qp_ptr c \<noteq> None
      \<and> left_behind V h = {}
    else all_null c \<and> live h' = left_behind V h \<union> live h)"
proof -
  have acc: "verbs_accounting V live" and keep: "control_calls_keep V closes" "data_calls_keep V closes"
    using W by (simp_all add: handler_world_def)
  show ?thesis
  proof (cases "fst (ibv_get_device_list V h) = Some []")
    case True
    from rdma_init_leaks_empty_device_list [OF acc True run] rdma_init_keeps [OF keep run] True default_null
    show ?thesis by (simp add: left_behind_def)
  next
    case False
    have "init_post live (live h) (ok, c, h')"
      using rdma_init_post [OF acc default_null assms(2) False, of dev sbuf rbuf] run by simp
    with rdma_init_keeps [OF keep run] False show ?thesis by (simp add: init_post_def left_behind_def split: if_splits)
  qed
qed

lemma handler_world_exchange:
  assumes "handler_world V K live closes" and "exchange_info K fd info h = Some (r, h')"
  shows "live h' = live h \<and> closes h' = closes h"
  using exchange_info_keeps [OF _ assms(2), of live] exchange_info_keeps [OF _ assms(2), of closes] assms(1)
  by (simp add: handler_world_def)

lemma handler_world_connect:
  assumes "handler_world V K live closes" and "rdma_connect V remote c h = Some (ok, h')"
  shows "live h' = live h \<and> closes h' = closes h"
  using rdma_connect_keeps [OF _ assms(2), of live] rdma_connect_keeps [OF _ assms(2), of closes] assms(1)
  by (simp add: handler_world_def)

lemma handler_world_close:
  "handler_world V K live closes \<Longrightarrow> live (sys_close K fd h) = live h \<and> closes (sys_close K fd h) = closes h @ [fd]"
  by (simp add: handler_world_def)

lemma two_sided_handler_releases:
  assumes W: "handler_world V K live closes" and "DevList \<notin> live h"
    and run: "handle_two_sided_client V K tcp_fd dev sbuf rbuf kvs h = Some (kvs', h')"
  shows "live h' = left_behind V h \<union> live h \<and> closes h' = closes h @ [tcp_fd]"
proof -
  obtain ok c h1 where init: "rdma_init V dev (RdmaContext_default sbuf rbuf) h = (ok, c, h1)"
    by (cases "rdma_init V dev (RdmaContext_default sbuf rbuf) h")
  note i = handler_init [OF W assms(2) init]
  have left: "live (leave V c' h2) = left_behind V h \<union> live h \<and> closes (leave V c' h2) = closes h2"
    if "ok" "ctx_core c' = ctx_core c" "live h2 = live h1" for c' h2
    using leave_step [OF W step_ok_core [OF that(2,3)], of "live h"] i that by simp
  show ?thesis
  proof (cases ok)
    case False
    then have "h' = sys_close K tcp_fd h1" using run init i by (simp add: handle_two_sided_client_def leave_null)
    then show ?thesis using i False handler_world_close [OF W] by simp
  next
    case True
    obtain info r h2 where ex: "exchange_info K tcp_fd info h1 = Some (r, h2)"
      and rest: "(case r of None \<Rightarrow> Some (kvs, leave V c (sys_close K tcp_fd h2))
        | Some remote \<Rightarrow> do {
            (ok, h) \<leftarrow> rdma_connect V remote c (sys_close K tcp_fd h2);
            if \<not> ok then Some (kvs, leave V c h)
            else do { (kvs, c, h) \<leftarrow> two_sided_loop V kvs c h; Some (kvs, leave V c h) }
          }) = Some (kvs', h')"
      using run True init by (auto simp: handle_two_sided_client_def split: bind_splits)
    note e = handler_world_exchange [OF W ex] handler_world_close [OF W]
    show ?thesis
    proof (cases r)
      case None
      then show ?thesis using rest left [OF True refl, of "sys_close K tcp_fd h2"] e i by auto
    next
      case (Some remote)
      obtain ok3 h3 where conn: "rdma_connect V remote c (sys_close K tcp_fd h2) = Some (ok3, h3)"
        and rest: "(if \<not> ok3 then Some (kvs, leave V c h3)
            else do { (kvs, c, h) \<leftarrow> two_sided_loop V kvs c h3; Some (kvs, leave V c h) }) = Some (kvs', h')"
        using rest Some by (auto split: bind_splits)
      note c3 = handler_world_connect [OF W conn]
      show ?thesis
      proof (cases ok3)
        case False
        then show ?thesis using rest left [OF True refl, of h3] c3 e i by auto
      next
        case ok3: True
        obtain kvs2 c4 h4 where loop: "two_sided_loop V kvs c h3 = Some (kvs2, c4, h4)" and h': "h' = leave V c4 h4"
          using rest ok3 by (auto split: bind_splits)
        have "data_calls_keep V live" "data_calls_keep V closes" using W by (simp_all add: handler_world_def)
        with two_sided_loop_keeps [OF _ loop, of live] two_sided_loop_keeps [OF _ loop, of closes]
        show ?thesis using left [OF True, of c4 h4] h' c3 e i by simp
      qed
    qed
  qed
qed

lemma one_sided_handler_releases:
  assumes W: "handler_world V K live closes" and "DevList \<notin> live h"
    and pause: "\<And>h h'. pause h = Some h' \<Longrightarrow> live h' = live h \<and> closes h' = closes h"
    and run: "handle_one_sided_client V K pause tcp_fd table_base num_slots dev sbuf rbuf h = Some h'"
  shows "live h' = left_behind V h \<union> live h \<and> closes h' = closes h @ [tcp_fd]"
proof -
  obtain ok c h1 where init: "rdma_init V dev (RdmaContext_default sbuf rbuf) h = (ok, c, h1)"
    by (cases "rdma_init V dev (RdmaContext_default sbuf rbuf) h")
  note i = handler_init [OF W assms(2) init]
  have acc: "verbs_accounting V live" and keep: "control_calls_keep V closes" using W by (simp_all add: handler_world_def)
  show ?thesis
  proof (cases ok)
    case False
    then have "h' = sys_close K tcp_fd h1" using run init i by (simp add: handle_one_sided_client_def leave_null)
    then show ?thesis using i False handler_world_close [OF W] by simp
  next
    case True
    then obtain p where p: "pd_ptr c = Some p" using i by auto
    have left: "live (leave V c' h2) = left_behind V h \<union> live h \<and> closes (leave V c' h2) = closes h2"
      if "ctx_core c' = ctx_core c" "live h2 = live h1" for c' h2
      using leave_step [OF W step_ok_core [OF that(1,2)], of "live h"] i True by simp
    obtain mo h2 where reg: "register_mr V p table_base h1 = (mo, h2)" by (cases "register_mr V p table_base h1")
    have acq: "acquires live (ibv_reg_mr V p table_base (RDMA_NUM_SLOTS * slot_size)
        [LOCAL_WRITE, REMOTE_READ, REMOTE_WRITE, REMOTE_ATOMIC]) (Mr p) HMr"
      using acc by (simp add: verbs_accounting_def)
    note a = acq [unfolded acquires_def, rule_format, of h1, folded register_mr_def, unfolded reg]
    have closes2: "closes h2 = closes h1" using control_calls_keepD(11) [OF keep] reg unfolding register_mr_def by metis
    show ?thesis
    proof (cases mo)
      case None
      then have "h' = leave V c (sys_close K tcp_fd h2)" using run True init p reg by (simp add: handle_one_sided_client_def)
      then show ?thesis using left [OF refl, of "sys_close K tcp_fd h2"] a None closes2 i handler_world_close [OF W] by simp
    next
      case (Some m)
      let ?c = "set_exported_region m num_slots c"
      have dereg: "live (ibv_dereg_mr V m h3) = live h1 \<and> closes (ibv_dereg_mr V m h3) = closes h3"
        if "live h3 = live h2" for h3
      proof -
        have live3: "live h3 = insert (Mr p m) (live h1)" and new: "\<forall>r\<in>live h1. HMr m \<notin> mentions r" using a Some that by simp_all
        have "releases live (ibv_dereg_mr V m) (HMr m)" using acc by (simp add: verbs_accounting_def)
        from releasesD [OF this, of h3 "Mr p m"] live3 new
        have "live (ibv_dereg_mr V m h3) = {r \<in> live h3. HMr m \<notin> mentions r}" by auto
        also have "\<dots> = live h1" using live3 new by auto
        finally show ?thesis using control_calls_keepD(12) [OF keep] by simp
      qed
      have left': "live (leave V ?c h3) = left_behind V h \<union> live h \<and> closes (leave V ?c h3) = closes h3" if "live h3 = live h1" for h3
      proof -
        have "owns_res ?c r = owns_res c r" for r by (cases r) (simp_all add: set_exported_region_def)
        moreover have "has_handle ?c x = has_handle c x" for x by (cases x) (simp_all add: set_exported_region_def)
        ultimately have "step_ok live (live h) (?c, h3)"
          using i True that
          by (simp add: step_ok_def owns_def owned_def) (simp add: nested_def set_exported_region_def)
        from leave_step [OF W this] show ?thesis using i True by simp
      qed
      obtain info r h3 where ex: "exchange_info K tcp_fd info h2 = Some (r, h3)"
        and rest: "(case r of None \<Rightarrow> Some (leave V ?c (sys_close K tcp_fd (ibv_dereg_mr V m h3)))
          | Some remote \<Rightarrow> do {
              (ok, h) \<leftarrow> rdma_connect V remote ?c (sys_close K tcp_fd h3);
              if \<not> ok then Some (leave V ?c (ibv_dereg_mr V m h))
              else do { h \<leftarrow> pause h; Some (leave V ?c (ibv_dereg_mr V m h)) }
            }) = Some h'"
        using run True init p reg Some by (auto simp: handle_one_sided_client_def Let_def split: bind_splits)
      note e = handler_world_exchange [OF W ex] handler_world_close [OF W]
      show ?thesis
      proof (cases r)
        case None
        then show ?thesis
          using rest left' [of "sys_close K tcp_fd (ibv_dereg_mr V m h3)"] dereg [of h3] e i closes2 by auto
      next
        case (Some remote)
        obtain ok3 h4 where conn: "rdma_connect V remote ?c (sys_close K tcp_fd h3) = Some (ok3, h4)"
          and rest: "(if \<not> ok3 then Some (leave V ?c (ibv_dereg_mr V m h4))
              else do { h \<leftarrow> pause h4; Some (leave V ?c (ibv_dereg_mr V m h)) }) = Some h'"
          using rest Some by (auto split: bind_splits)
        note c4 = handler_world_connect [OF W conn]
        show ?thesis
        proof (cases ok3)
          case False
          then show ?thesis using rest left' [of "ibv_dereg_mr V m h4"] dereg [of h4] c4 e i closes2 by auto
        next
          case True
          then obtain h5 where "pause h4 = Some h5" "h' = leave V ?c (ibv_dereg_mr V m h5)"
            using rest by (auto split: bind_splits)
          then show ?thesis using left' [of "ibv_dereg_mr V m h5"] dereg [of h5] pause [of h4 h5] c4 e i closes2 by simp
        qed
      qed
    qed
  qed
qed

end
