(* ===== verification/SimLink.thy ===== *)
theory SimLink
  imports SimVerbs RdmaClientLaws HandlerLaws
begin

section \<open>A simulated device with a message link and a side channel\<close>

text \<open>
  The device of \<open>SimVerbs\<close> for the set-up calls, a message link whose far end is the function \<open>react\<close>,
  and a byte stream with a log of the descriptors closed. The two-sided code runs on it in the
  properties' examples: with the model's own server as the far end (\<open>client_end\<close>), and with a
  client that sends fixed messages (\<open>server_end\<close>).
\<close>

record lnk =
  dev :: sim
  msgs :: msg_view
  closed_fds :: "int list"
  stream_in :: string
  stream_out :: string

definition down :: "lnk host \<Rightarrow> sim host" where
  "down h = \<lparr>host_mem = host_mem h, nic = dev (nic h)\<rparr>"

definition back_up :: "lnk host \<Rightarrow> sim host \<Rightarrow> lnk host" where
  "back_up h d = \<lparr>host_mem = host_mem d, nic = (nic h)\<lparr>dev := nic d\<rparr>\<rparr>"

definition lift1 :: "(sim host \<Rightarrow> 'a \<times> sim host) \<Rightarrow> lnk host \<Rightarrow> 'a \<times> lnk host" where
  "lift1 f h = (case f (down h) of (r, d) \<Rightarrow> (r, back_up h d))"

definition lift0 :: "(sim host \<Rightarrow> sim host) \<Rightarrow> lnk host \<Rightarrow> lnk host" where
  "lift0 f h = back_up h (f (down h))"

definition set_msgs :: "msg_view \<Rightarrow> lnk host \<Rightarrow> lnk host" where
  "set_msgs v h = h\<lparr>nic := (nic h)\<lparr>msgs := v\<rparr>\<rparr>"

definition lnk_view :: "lnk host \<Rightarrow> msg_view" where
  "lnk_view h = msgs (nic h)"

definition lnk_poll :: "nat \<Rightarrow> lnk host \<Rightarrow> int \<times> ibv_wc \<times> lnk host" where
  "lnk_poll cq h =
     (let v = lnk_view h in
      if 0 < pending_sends v then
        (1, \<lparr>wc_stat = WC_SUCCESS, wc_op = WC_SEND, wc_byte_len = 0\<rparr>, set_msgs (v\<lparr>pending_sends := pending_sends v - 1\<rparr>) h)
      else (case (recvs v, inbox v) of
          (s # ss, m # ms) \<Rightarrow>
            if length m \<le> unat (sge_length s)
            then (1, \<lparr>wc_stat = WC_SUCCESS, wc_op = WC_RECV, wc_byte_len = of_nat (length m)\<rparr>,
               set_msgs (v\<lparr>recvs := ss, inbox := ms\<rparr>) (h\<lparr>host_mem := receives_into s m (host_mem h)\<rparr>))
            else (0, \<lparr>wc_stat = WC_SUCCESS, wc_op = WC_SEND, wc_byte_len = 0\<rparr>, h)
        | _ \<Rightarrow> (0, \<lparr>wc_stat = WC_SUCCESS, wc_op = WC_SEND, wc_byte_len = 0\<rparr>, h)))"

definition lnk_verbs :: "(string list \<Rightarrow> string \<Rightarrow> string list) \<Rightarrow> lnk verbs" where
  "lnk_verbs react = \<lparr>
     ibv_get_device_list = lift1 (ibv_get_device_list sim_verbs),
     ibv_free_device_list = lift0 (ibv_free_device_list sim_verbs),
     ibv_get_device_name = ibv_get_device_name sim_verbs,
     ibv_open_device = (\<lambda>d. lift1 (ibv_open_device sim_verbs d)),
     ibv_close_device = (\<lambda>x. lift0 (ibv_close_device sim_verbs x)),
     ibv_alloc_pd = (\<lambda>x. lift1 (ibv_alloc_pd sim_verbs x)),
     ibv_dealloc_pd = (\<lambda>p. lift0 (ibv_dealloc_pd sim_verbs p)),
     ibv_create_cq = (\<lambda>x n. lift1 (ibv_create_cq sim_verbs x n)),
     ibv_destroy_cq = (\<lambda>q. lift0 (ibv_destroy_cq sim_verbs q)),
     ibv_create_qp = (\<lambda>p at. lift1 (ibv_create_qp sim_verbs p at)),
     ibv_destroy_qp = (\<lambda>q. lift0 (ibv_destroy_qp sim_verbs q)),
     ibv_reg_mr = (\<lambda>p a n fl. lift1 (ibv_reg_mr sim_verbs p a n fl)),
     ibv_dereg_mr = (\<lambda>m. lift0 (ibv_dereg_mr sim_verbs m)),
     ibv_modify_qp = (\<lambda>q at msk. lift1 (ibv_modify_qp sim_verbs q at msk)),
     ibv_query_port_lid = (\<lambda>x p h. 7),
     ibv_query_gid = (\<lambda>x p i h. replicate 16 NUL),
     ibv_post_recv = (\<lambda>qp wr h. (0, set_msgs ((lnk_view h)\<lparr>recvs := recvs (lnk_view h) @ [recv_sge wr]\<rparr>) h)),
     ibv_post_send = (\<lambda>qp rq h. (0, set_msgs (posted react (message_of rq h) (lnk_view h)) h)),
     ibv_poll_cq = lnk_poll\<rparr>"

lemma lnk_frame [simp]:
  "lnk_view (set_msgs v h) = v" "host_mem (set_msgs v h) = host_mem h" "lnk_view (h\<lparr>host_mem := mm\<rparr>) = lnk_view h"
  by (simp_all add: lnk_view_def set_msgs_def)

lemma lnk_delivers: "lnk_poll cq h = (ret, wc, h') \<Longrightarrow>
    (if ret = 0 then h' = h else 0 < ret \<and> wc_stat wc = WC_SUCCESS \<and> delivers lnk_view h wc h')"
  unfolding lnk_poll_def Let_def by (cases "recvs (lnk_view h)"; cases "inbox (lnk_view h)")
    (auto simp: delivers_def split: if_splits)

lemma lnk_nth_poll: "nth_poll (lnk_verbs react) cq n h = (ret, wc, h') \<Longrightarrow> ret \<noteq> 0 \<Longrightarrow>
    0 < ret \<and> wc_stat wc = WC_SUCCESS \<and> delivers lnk_view h wc h'"
proof (induction n arbitrary: h)
  case 0
  then show ?case using lnk_delivers [of cq h ret wc h'] by (simp add: lnk_verbs_def split: if_splits)
next
  case (Suc n)
  obtain r1 wc1 h1 where one: "lnk_poll cq h = (r1, wc1, h1)" by (cases "lnk_poll cq h")
  with Suc show ?case using lnk_delivers [OF one] by (auto simp: lnk_verbs_def split: if_splits)
qed

lemma lnk_progress:
  "0 < pending_sends (lnk_view h) \<or>
     (\<exists>s ss m ms. recvs (lnk_view h) = s # ss \<and> inbox (lnk_view h) = m # ms \<and> length m \<le> unat (sge_length s)) \<Longrightarrow>
   fst (lnk_poll cq h) \<noteq> 0"
  by (auto simp: lnk_poll_def Let_def)

lemma lnk_reliable: "reliable_link (lnk_verbs react) qp cq UNIV react (\<lambda>h. True) lnk_view"
proof unfold_locales
  fix n h ret wc h'
  assume "nth_poll (lnk_verbs react) cq n h = (ret, wc, h')" "ret \<noteq> 0"
  from lnk_nth_poll [OF this]
  show "if 0 < ret \<and> wc_stat wc = WC_SUCCESS then True \<and> delivers lnk_view h wc h' else outbox (lnk_view h') = outbox (lnk_view h)"
    and "0 < ret \<and> wc_stat wc = WC_SUCCESS" by simp_all
next
  fix h
  assume "0 < pending_sends (lnk_view h) \<or>
     (\<exists>s ss m ms. recvs (lnk_view h) = s # ss \<and> inbox (lnk_view h) = m # ms \<and> length m \<le> unat (sge_length s))"
  from lnk_progress [OF this, of cq] show "\<exists>n. fst (nth_poll (lnk_verbs react) cq n h) \<noteq> 0"
    by (intro exI [of _ 0]) (simp add: lnk_verbs_def)
qed (auto simp: lnk_verbs_def)

interpretation client_end: reliable_link "lnk_verbs (server_reply kvs0)" qp cq UNIV "server_reply kvs0" "\<lambda>h. True" lnk_view
  for kvs0 qp cq by (rule lnk_reliable)

interpretation server_end: reliable_link "lnk_verbs (\<lambda>_ _. [])" qp cq UNIV "\<lambda>_ _. []" "\<lambda>h. True" lnk_view
  for qp cq by (rule lnk_reliable)

subsection \<open>Resources and descriptors\<close>

definition lnk_resources :: "lnk host \<Rightarrow> resource set" where
  "lnk_resources h = sim_resources (down h)"

definition lnk_closes :: "lnk host \<Rightarrow> int list" where
  "lnk_closes h = closed_fds (nic h)"

lemma down_back_up [simp]: "down (back_up h d) = d"
  by (simp add: down_def back_up_def)

lemma lift_acquires: "acquires sim_resources f mk hnd \<Longrightarrow> acquires lnk_resources (lift1 f) mk hnd"
  by (simp add: acquires_def lnk_resources_def lift1_def prod.case_eq_if cong: option.case_cong)

lemma lift_releases: "releases sim_resources g hnd \<Longrightarrow> releases lnk_resources (lift0 g) hnd"
  by (simp add: releases_def lnk_resources_def lift0_def)

lemma lnk_accounting: "verbs_accounting (lnk_verbs react) lnk_resources"
  using sim_accounting unfolding verbs_accounting_def
  by (simp add: lnk_verbs_def lift_acquires lift_releases)
    (simp add: lnk_resources_def lift1_def lift0_def prod.case_eq_if cong: option.case_cong)

text \<open>The side channel: writes are taken seven bytes at a time, reads deliver what is there.\<close>

definition lnk_kernel :: "lnk host kernel" where
  "lnk_kernel = \<lparr>
     sys_socket = (\<lambda>fam ty pr w. (3, w)), sys_reuseaddr = (\<lambda>fd v w. (0, w)), sys_bind = (\<lambda>fd sa w. (0, w)),
     sys_listen = (\<lambda>fd n w. (0, w)), sys_connect = (\<lambda>fd a w. (0, w)), sys_accept = (\<lambda>fd w. (AcceptFail (EOTHER 1), w)),
     sys_getfl = (\<lambda>fd w. (0, w)), sys_setfl = (\<lambda>fd n w. (0, w)),
     sys_close = (\<lambda>fd h. h\<lparr>nic := (nic h)\<lparr>closed_fds := closed_fds (nic h) @ [fd]\<rparr>\<rparr>),
     sys_getaddrinfo = (\<lambda>h p fam ty w. ((0, [\<lparr>ai_family = AF_INET, ai_socktype = SOCK_STREAM, ai_protocol = 0, ai_addr = h\<rparr>]), w)),
     sys_freeaddrinfo = (\<lambda>l w. w),
     sys_recv = (\<lambda>fd n w. (ReadEof, w)), sys_send = (\<lambda>fd bs w. (Wrote (length bs), w)),
     sys_read = (\<lambda>fd n h. if stream_in (nic h) = [] then (ReadEof, h)
        else (ReadBytes (take n (stream_in (nic h))), h\<lparr>nic := (nic h)\<lparr>stream_in := drop n (stream_in (nic h))\<rparr>\<rparr>)),
     sys_write = (\<lambda>fd bs h. (Wrote (min 7 (length bs)), h\<lparr>nic := (nic h)\<lparr>stream_out := stream_out (nic h) @ take 7 bs\<rparr>\<rparr>))\<rparr>"

lemma lnk_keeps:
  "data_calls_keep (lnk_verbs react) lnk_resources" "data_calls_keep (lnk_verbs react) lnk_closes"
  "control_calls_keep (lnk_verbs react) lnk_closes"
  "transfers_keep lnk_kernel lnk_resources" "transfers_keep lnk_kernel lnk_closes"
proof -
  have poll: "lnk_resources (snd (snd (lnk_poll q h))) = lnk_resources h \<and> lnk_closes (snd (snd (lnk_poll q h))) = lnk_closes h" for q h
    by (cases "recvs (lnk_view h)"; cases "inbox (lnk_view h)")
      (simp_all add: lnk_poll_def Let_def lnk_resources_def lnk_closes_def down_def set_msgs_def sim_resources_def)
  show "data_calls_keep (lnk_verbs react) lnk_resources"
    using poll sim_accounting unfolding data_calls_keep_def verbs_accounting_def
    by (simp add: lnk_verbs_def) (simp add: lnk_resources_def lift1_def down_def set_msgs_def sim_resources_def back_up_def prod.case_eq_if)
  show "data_calls_keep (lnk_verbs react) lnk_closes"
    using poll unfolding data_calls_keep_def
    by (simp add: lnk_verbs_def) (simp add: lnk_closes_def lift1_def set_msgs_def back_up_def prod.case_eq_if)
  show "control_calls_keep (lnk_verbs react) lnk_closes"
    unfolding control_calls_keep_def
    by (simp add: lnk_verbs_def) (simp add: lnk_closes_def lift1_def lift0_def back_up_def prod.case_eq_if)
  show "transfers_keep lnk_kernel lnk_resources" "transfers_keep lnk_kernel lnk_closes"
    by (simp_all add: transfers_keep_def lnk_kernel_def lnk_resources_def lnk_closes_def down_def sim_resources_def)
qed

lemma lnk_handler_world: "handler_world (lnk_verbs react) lnk_kernel lnk_resources lnk_closes"
  using lnk_accounting lnk_keeps
  by (simp add: handler_world_def) (simp add: lnk_kernel_def lnk_resources_def lnk_closes_def down_def sim_resources_def)

end
