(* ===== verification/HandshakeLaws.thy ===== *)
theory HandshakeLaws
  imports RdmaServer SocketLaws
begin

section \<open>The handshake over the side channel\<close>

text \<open>
  The blocking transfers and the connection structure of \<open>src/server/rdma_main.cpp\<close> (the client
  repeats them), on a kernel whose \<open>read\<close> and \<open>write\<close> obey the laws of \<open>SocketLaws\<close>: a write sends a
  prefix of the buffer, all of it when it succeeds; a read takes exactly the bytes asked for, or
  fails having taken fewer; and the structure is recovered from its bytes.
\<close>

subsection \<open>The structure and its bytes\<close>

definition qp_info_ok :: "QpInfo \<Rightarrow> bool" where
  "qp_info_ok i \<longleftrightarrow> length (qi_gid i) = 16"

lemma length_encode_qp_info [simp]: "qp_info_ok i \<Longrightarrow> length (encode_qp_info i) = qp_info_size"
  by (simp add: encode_qp_info_def qp_info_ok_def qp_info_size_def)

lemma bytes_word32: "of_nat (bytes_nat (nat_bytes 4 (unat w))) = (w :: u32)"
proof -
  have "unat w < 256 ^ 4" using unsigned_less [of w] by simp
  then show ?thesis by (simp add: bytes_nat_bytes)
qed

lemma bytes_word16: "of_nat (bytes_nat (nat_bytes 2 (unat w))) = (w :: u16)"
proof -
  have "unat w < 256 ^ 2" using unsigned_less [of w] by simp
  then show ?thesis by (simp add: bytes_nat_bytes)
qed

lemma decode_encode_qp_info: "qp_info_ok i \<Longrightarrow> decode_qp_info (encode_qp_info i) = i"
  by (simp add: decode_qp_info_def encode_qp_info_def qp_info_ok_def bytes_word32 bytes_word16
      del: nat_bytes.simps bytes_nat.simps)

subsection \<open>Blocking transfers\<close>

lemma buf_write_all_sends:
  assumes law: "send_law good (\<lambda>w bs. sys_write K fd bs w) sent_bytes patience keep" and "good w"
  shows "\<exists>ok w' k. buf_write_all K fd p w = Some (ok, w') \<and> good w' \<and> keep w' = keep w
       \<and> sent_bytes w' = sent_bytes w @ take k p \<and> (ok \<longrightarrow> length p \<le> k)
       \<and> (\<not> ok \<longrightarrow> k < length p \<and> \<not> send_reliable good (\<lambda>w bs. sys_write K fd bs w))"
  using assms(2)
proof (induction "(length p, patience w)" arbitrary: p w rule: wf_induct_rule [OF wf_lex_prod [OF wf_less_than wf_less_than]])
  case (1 p w)
  show ?case
  proof (cases "p = []")
    case True
    then have "buf_write_all K fd p w = Some (True, w)" by (subst buf_write_all.simps) simp
    with True 1(2) show ?thesis by (intro exI [of _ True] exI [of _ w] exI [of _ "0::nat"]) simp
  next
    case ne: False
    obtain r w1 where call: "sys_write K fd p w = (r, w1)" by (cases "sys_write K fd p w")
    note l = law [unfolded send_law_def, rule_format, OF 1(2) ne, unfolded call, simplified]
    show ?thesis
    proof (cases r)
      case (Wrote n)
      with l have n: "0 < n" "n \<le> length p" and s: "sent_bytes w1 = sent_bytes w @ take n p" and i: "good w1" "keep w1 = keep w"
        by simp_all
      have "((length (drop n p), patience w1), length p, patience w) \<in> less_than <*lex*> less_than"
        using n ne by simp
      from 1(1) [OF this i(1)] obtain ok w' k where run: "buf_write_all K fd (drop n p) w1 = Some (ok, w')"
          "good w'" "keep w' = keep w1" "sent_bytes w' = sent_bytes w1 @ take k (drop n p)"
        and len: "ok \<longrightarrow> length (drop n p) \<le> k" "\<not> ok \<longrightarrow> k < length (drop n p)"
          "\<not> ok \<longrightarrow> \<not> send_reliable good (\<lambda>w bs. sys_write K fd bs w)" by blast
      have "buf_write_all K fd p w = Some (ok, w')"
        using run(1) n ne by (subst buf_write_all.simps) (simp add: call Wrote)
      moreover have "take n p @ take k (drop n p) = take (n + k) p"
        using take_add [of n k p] by simp
      ultimately show ?thesis
        using run len n s i by (intro exI [of _ ok] exI [of _ w'] exI [of _ "n + k"]) auto
    next
      case (WriteFail e)
      show ?thesis
      proof (cases "e = EINTR")
        case True
        then have "((length p, patience w1), length p, patience w) \<in> less_than <*lex*> less_than"
          using l WriteFail by simp
        note IH = 1(1) [OF this]
        have "buf_write_all K fd p w = buf_write_all K fd p w1"
          using True ne by (subst buf_write_all.simps) (simp add: call WriteFail)
        with IH l WriteFail show ?thesis by simp
      next
        case False
        have "\<not> send_reliable good (\<lambda>w bs. sys_write K fd bs w)"
          unfolding send_reliable_def using ne call WriteFail False 1(2) by blast
        moreover have "buf_write_all K fd p w = Some (False, w1)"
          using False ne by (subst buf_write_all.simps) (simp add: call WriteFail)
        ultimately show ?thesis
          using l WriteFail ne by (intro exI [of _ False] exI [of _ w1] exI [of _ "0::nat"]) simp
      qed
    qed
  qed
qed

lemma buf_read_all_takes:
  assumes law: "recv_law good (\<lambda>w n. sys_read K fd n w) coming patience keep" and "good w"
  shows "\<exists>ok w' got. buf_read_all K fd buf n w = Some (ok, buf @ got, w') \<and> good w' \<and> keep w' = keep w
       \<and> coming w = got @ coming w' \<and> (ok \<longrightarrow> length got = n) \<and> (\<not> ok \<longrightarrow> length got < n)
       \<and> (recv_reliable good (\<lambda>w n. sys_read K fd n w) coming \<longrightarrow> n \<le> length (coming w) \<longrightarrow> ok)"
  using assms(2)
proof (induction "(n, patience w)" arbitrary: n buf w rule: wf_induct_rule [OF wf_lex_prod [OF wf_less_than wf_less_than]])
  case (1 n w)
  show ?case
  proof (cases "n = 0")
    case True
    then have "buf_read_all K fd buf n w = Some (True, buf @ [], w)" by (subst buf_read_all.simps) simp
    with True 1(2) show ?thesis by (intro exI [of _ True] exI [of _ w] exI [of _ "[]"]) simp
  next
    case False
    then have pos: "0 < n" by simp
    obtain r w1 where call: "sys_read K fd n w = (r, w1)" by (cases "sys_read K fd n w")
    note l = law [unfolded recv_law_def, rule_format, OF 1(2) pos, unfolded call, simplified]
    have rel: "r \<noteq> ReadEof \<and> (\<forall>e. r = ReadFail e \<longrightarrow> e = EINTR)"
      if rec: "recv_reliable good (\<lambda>w n. sys_read K fd n w) coming" and "n \<le> length (coming w)"
    proof -
      have "coming w \<noteq> []" using that(2) pos by auto
      from rec [unfolded recv_reliable_def, rule_format, OF 1(2) pos this] call
      show ?thesis by auto
    qed
    show ?thesis
    proof (cases r)
      case (ReadBytes bs)
      with l have bs: "bs \<noteq> []" "length bs \<le> n" "coming w = bs @ coming w1" and i: "good w1" "keep w1 = keep w" by simp_all
      have "((n - length bs, patience w1), n, patience w) \<in> less_than <*lex*> less_than" using bs pos by simp
      from 1(1) [OF this i(1), of "buf @ bs"] obtain ok w' got where
        run: "buf_read_all K fd (buf @ bs) (n - length bs) w1 = Some (ok, (buf @ bs) @ got, w')" "good w'" "keep w' = keep w1"
        and g: "coming w1 = got @ coming w'" "ok \<longrightarrow> length got = n - length bs" "\<not> ok \<longrightarrow> length got < n - length bs"
          "recv_reliable good (\<lambda>w n. sys_read K fd n w) coming \<longrightarrow> n - length bs \<le> length (coming w1) \<longrightarrow> ok" by blast
      have "buf_read_all K fd buf n w = Some (ok, buf @ (bs @ got), w')"
        using run(1) bs pos by (subst buf_read_all.simps) (simp add: call ReadBytes)
      then show ?thesis
        using run g bs i by (intro exI [of _ ok] exI [of _ w'] exI [of _ "bs @ got"]) auto
    next
      case ReadEof
      then have "buf_read_all K fd buf n w = Some (False, buf @ [], w1)"
        using pos by (subst buf_read_all.simps) (simp add: call)
      then show ?thesis
        using l ReadEof rel pos by (intro exI [of _ False] exI [of _ w1] exI [of _ "[]"]) auto
    next
      case (ReadFail e)
      show ?thesis
      proof (cases "e = EINTR")
        case True
        then have "((n, patience w1), n, patience w) \<in> less_than <*lex*> less_than" using l ReadFail by simp
        note IH = 1(1) [OF this, of buf]
        have "buf_read_all K fd buf n w = buf_read_all K fd buf n w1"
          using True pos by (subst buf_read_all.simps) (simp add: call ReadFail)
        moreover have "coming w1 = coming w" "good w1" "keep w1 = keep w" using l ReadFail by simp_all
        ultimately show ?thesis using IH by simp
      next
        case False
        then have "buf_read_all K fd buf n w = Some (False, buf @ [], w1)"
          using pos by (subst buf_read_all.simps) (simp add: call ReadFail)
        then show ?thesis
          using l ReadFail rel pos False by (intro exI [of _ False] exI [of _ w1] exI [of _ "[]"]) auto
      qed
    qed
  qed
qed

subsection \<open>Listening and accepting\<close>

lemma make_tcp_listener_result:
  assumes K: "kernel_table K sk addr_lists" and run: "make_tcp_listener K port w = (fd, w')"
  shows "if fd \<ge> 0 then configuring sk (sk w) fd (listens port 16) w' else fd = -1 \<and> sk w' = sk w"
proof -
  let ?sa = "\<lparr>sin_family = AF_INET, sin_addr = INADDR_ANY, sin_port = port\<rparr>"
  obtain f w1 where sock: "sys_socket K AF_INET SOCK_STREAM 0 w = (f, w1)" by (cases "sys_socket K AF_INET SOCK_STREAM 0 w")
  obtain r2 w2 where reuse: "sys_reuseaddr K f 1 w1 = (r2, w2)" by (cases "sys_reuseaddr K f 1 w1")
  obtain r3 w3 where bnd: "sys_bind K f ?sa w2 = (r3, w3)" by (cases "sys_bind K f ?sa w2")
  obtain r4 w4 where lst: "sys_listen K f 16 w3 = (r4, w4)" by (cases "sys_listen K f 16 w3")
  note s1 = kernel_tableD(1) [OF K sock]
  note run' = run [unfolded make_tcp_listener_def, simplified sock reuse bnd lst Let_def prod.case]
  have closing: "sys_close K f w0 = close_socket K f w0" if "\<not> f < 0" for w0 using that by (simp add: close_socket_def)
  have c1: "configuring sk (sk w) f (\<lambda>s. True) w1" if "\<not> f < 0"
    using s1 that by (auto intro: configuring_mono [OF opens_configuring])
  note sets = kernel_tableD(2) [OF K, of f 1 w1, unfolded reuse]
  have c2: "configuring sk (sk w) f (\<lambda>s. True) w2" if "\<not> f < 0"
    using configuring_sets [OF sets c1 [OF that]] by (auto split: if_splits elim: configuring_mono)
  have al2: "addr_lists w2 = addr_lists w" if "\<not> f < 0"
    using configuring_sets [OF sets c1 [OF that]] s1 by simp
  have c3: "r3 = 0 \<and> configuring sk (sk w) f (\<lambda>s. sk_bound s = Some ?sa) w3 \<or> r3 = -1 \<and> closed_again K sk addr_lists f w w3"
    "addr_lists w3 = addr_lists w" if "\<not> f < 0"
    using configuring_step [OF K c2 [OF that] al2 [OF that] kernel_tableD(3) [OF K] bnd, of "\<lambda>s. sk_bound s = Some ?sa"] by simp_all
  have c4: "r4 = 0 \<and> configuring sk (sk w) f (listens port 16) w4 \<or> r4 = -1 \<and> closed_again K sk addr_lists f w w4"
    if "\<not> f < 0" "r3 = 0"
    using configuring_step [OF K _ c3(2) [OF that(1)] kernel_tableD(4) [OF K] lst, of "\<lambda>s. sk_bound s = Some ?sa" "listens port 16"]
      c3(1) [OF that(1)] that(2) by (simp add: listens_def)
  show ?thesis
    using run' s1 c3(1) c4 by (auto simp: closed_again_def closing split: if_splits)
qed

text \<open>
  What the accept loop relies on besides \<open>kernel_table\<close>. \<open>accepted\<close> and \<open>main_closed\<close> are the
  descriptors that the main thread's calls have so far returned from \<open>accept\<close> and closed; the
  detached threads touch no descriptor but those handed to them, and these they can only close.
\<close>

definition main_calls :: "'w kernel \<Rightarrow> (client_thread list \<Rightarrow> 'w \<Rightarrow> 'w) \<Rightarrow> ('w \<Rightarrow> int \<Rightarrow> sock option) \<Rightarrow> ('w \<Rightarrow> int list) \<Rightarrow> ('w \<Rightarrow> int list) \<Rightarrow> bool" where
  "main_calls K others sk accepted main_closed \<longleftrightarrow>
     (\<forall>fd w. case sys_accept K fd w of (a, w') \<Rightarrow> main_closed w' = main_closed w
        \<and> accepted w' = accepted w @ (case a of AcceptedFd c \<Rightarrow> [c] | AcceptFail e \<Rightarrow> []))
   \<and> (\<forall>fd w. accepted (sys_close K fd w) = accepted w \<and> main_closed (sys_close K fd w) = main_closed w @ [fd])
   \<and> (\<forall>fam ty pr w. case sys_socket K fam ty pr w of (fd, w') \<Rightarrow> accepted w' = accepted w \<and> main_closed w' = main_closed w)
   \<and> (\<forall>fd v w. case sys_reuseaddr K fd v w of (r, w') \<Rightarrow> accepted w' = accepted w \<and> main_closed w' = main_closed w)
   \<and> (\<forall>fd a w. case sys_bind K fd a w of (r, w') \<Rightarrow> accepted w' = accepted w \<and> main_closed w' = main_closed w)
   \<and> (\<forall>fd n w. case sys_listen K fd n w of (r, w') \<Rightarrow> accepted w' = accepted w \<and> main_closed w' = main_closed w)
   \<and> (\<forall>ts w. accepted (others ts w) = accepted w \<and> main_closed (others ts w) = main_closed w
        \<and> (\<forall>fd. sk (others ts w) fd = sk w fd \<or> fd \<in> thread_fd ` set ts \<and> sk (others ts w) fd = None))"

lemma main_callsD:
  assumes "main_calls K others sk accepted main_closed"
  shows "sys_accept K fd w = (a, w') \<Longrightarrow> main_closed w' = main_closed w
      \<and> accepted w' = accepted w @ (case a of AcceptedFd c \<Rightarrow> [c] | AcceptFail e \<Rightarrow> [])"
    and "accepted (sys_close K fd w) = accepted w" "main_closed (sys_close K fd w) = main_closed w @ [fd]"
    and "sys_socket K fam ty pr w = (f, w') \<Longrightarrow> accepted w' = accepted w \<and> main_closed w' = main_closed w"
    and "sys_reuseaddr K fd v w = (r, w') \<Longrightarrow> accepted w' = accepted w \<and> main_closed w' = main_closed w"
    and "sys_bind K fd sa w = (r, w') \<Longrightarrow> accepted w' = accepted w \<and> main_closed w' = main_closed w"
    and "sys_listen K fd n w = (r, w') \<Longrightarrow> accepted w' = accepted w \<and> main_closed w' = main_closed w"
    and "accepted (others ts w) = accepted w" "main_closed (others ts w) = main_closed w"
    and "sk (others ts w) x = sk w x \<or> x \<in> thread_fd ` set ts \<and> sk (others ts w) x = None"
  using assms unfolding main_calls_def by (fastforce split: prod.splits)+

text \<open>A successful listener leaves the main thread's account as it was.\<close>

lemma make_tcp_listener_account:
  assumes "main_calls K others sk accepted main_closed" and "make_tcp_listener K port w = (fd, w')" and "0 \<le> fd"
  shows "accepted w' = accepted w \<and> main_closed w' = main_closed w"
  using assms(2,3) main_callsD(4-7) [OF assms(1)]
  by (fastforce simp: make_tcp_listener_def Let_def split: prod.splits if_splits)

text \<open>
  The accept loop hands every accepted descriptor, in the order of acceptance, to one thread of the
  right kind; only descriptors that were handed over can have changed.
\<close>

definition hands_over :: "('w \<Rightarrow> int \<Rightarrow> sock option) \<Rightarrow> ('w \<Rightarrow> int list) \<Rightarrow> ('w \<Rightarrow> int list) \<Rightarrow> bool
    \<Rightarrow> client_thread list \<Rightarrow> 'w \<Rightarrow> client_thread list \<Rightarrow> 'w \<Rightarrow> bool" where
  "hands_over sk accepted main_closed one_sided before w after w' \<longleftrightarrow>
     (\<exists>new. after = before @ new \<and> accepted w' = accepted w @ map thread_fd new
        \<and> (\<forall>t\<in>set new. (\<exists>fd. t = OneSidedThread fd) = one_sided)
        \<and> (\<forall>fd\<in>thread_fd ` set new. sk w fd = None \<or> fd \<in> thread_fd ` set before))
   \<and> main_closed w' = main_closed w
   \<and> (\<forall>fd. fd \<notin> thread_fd ` set after \<longrightarrow> sk w' fd = sk w fd)"

lemma rdma_accept_loop_hands_over:
  assumes K: "kernel_table K sk addr_lists" and M: "main_calls K others sk accepted main_closed"
    and run: "rdma_accept_loop K others listen_fd one_sided spawned w = Some (ts, w')"
  shows "hands_over sk accepted main_closed one_sided spawned w ts w'"
proof -
  let ?H = "hands_over sk accepted main_closed one_sided"
  let ?P = "\<lambda>K' os' lfd os spawned w r. K' = K \<longrightarrow> os' = others \<longrightarrow> os = one_sided \<longrightarrow> ?H spawned w (fst r) (snd r)"
  have "?P K others listen_fd one_sided spawned w (ts, w')"
  proof (rule rdma_accept_loop.raw_induct [where P = ?P, OF _ run], intro impI, goal_cases)
    case (1 rec K' os' lfd os spawned w r)
    obtain a w1 where acc: "sys_accept K lfd (others spawned w) = (a, w1)" by (cases "sys_accept K lfd (others spawned w)")
    note oth = main_callsD(8-10) [OF M, of spawned w]
    note log1 = main_callsD(1) [OF M acc]
    show ?case
    proof (cases a)
      case (AcceptedFd fd)
      have op: "opens sk fd (others spawned w) w1" using kernel_tableD(8) [OF K] acc AcceptedFd by blast
      let ?t = "if one_sided then OneSidedThread fd else TwoSidedThread fd"
      have "rec K others lfd one_sided (spawned @ [?t]) w1 = Some r" using 1 acc AcceptedFd by simp
      from 1(1) [OF this] have rest: "?H (spawned @ [?t]) w1 (fst r) (snd r)" by simp
      then obtain new where new: "fst r = (spawned @ [?t]) @ new" "accepted (snd r) = accepted w1 @ map thread_fd new"
        "\<forall>t\<in>set new. (\<exists>fd. t = OneSidedThread fd) = one_sided"
        "\<forall>x\<in>thread_fd ` set new. sk w1 x = None \<or> x \<in> thread_fd ` set (spawned @ [?t])"
        unfolding hands_over_def by blast
      have fd: "thread_fd ?t = fd" by simp
      obtain s where none: "sk (others spawned w) fd = None" and w1: "sk w1 = (sk (others spawned w))(fd \<mapsto> s)"
        using op by (auto simp: opens_def)
      have fresh: "sk w fd = None \<or> fd \<in> thread_fd ` set spawned" using oth(3) [of fd] none by auto
      show ?thesis
        unfolding hands_over_def
      proof (intro conjI exI [of _ "?t # new"] ballI allI impI, goal_cases)
        case (3 t)
        then show ?case using new(3) by (auto split: if_splits)
      next
        case (4 x)
        show ?case
        proof (cases "x = fd")
          case False
          then have "sk w1 x = None \<or> x \<in> thread_fd ` set spawned" using 4 new(4) fd by auto
          then show ?thesis using oth(3) [of x] w1 False by auto
        qed (use fresh in simp)
      next
        case (6 x)
        then have "x \<noteq> fd" using new(1) fd by force
        moreover have "sk (snd r) x = sk w1 x" using rest 6 by (simp add: hands_over_def)
        moreover have "sk (others spawned w) x = sk w x" using oth(3) [of x] 6 new(1) by auto
        ultimately show ?case using w1 by simp
      qed (use new log1 oth AcceptedFd fd rest in \<open>auto simp: hands_over_def\<close>)
    next
      case (AcceptFail e)
      have same: "sk w1 = sk (others spawned w)" using kernel_tableD(9) [OF K] acc AcceptFail by blast
      have logs: "accepted w1 = accepted w" "main_closed w1 = main_closed w" using log1 oth AcceptFail by simp_all
      show ?thesis
      proof (cases "e = EINTR")
        case True
        then have "rec K others lfd one_sided spawned w1 = Some r" using 1 acc AcceptFail by simp
        from 1(1) [OF this] have rest: "?H spawned w1 (fst r) (snd r)" by simp
        have weaker: "sk w x = None \<or> x \<in> thread_fd ` set spawned"
          if "sk (others spawned w) x = None \<or> x \<in> thread_fd ` set spawned" for x using oth(3) [of x] that by auto
        have kept: "sk (others spawned w) x = sk w x" if "x \<notin> thread_fd ` set spawned" for x using oth(3) [of x] that by auto
        obtain new where new: "fst r = spawned @ new" "accepted (snd r) = accepted w @ map thread_fd new"
          "\<forall>t\<in>set new. (\<exists>fd. t = OneSidedThread fd) = one_sided"
          "\<forall>x\<in>thread_fd ` set new. sk (others spawned w) x = None \<or> x \<in> thread_fd ` set spawned"
          using rest unfolding hands_over_def logs same by blast
        moreover have "main_closed (snd r) = main_closed w"
          and "\<forall>x. x \<notin> thread_fd ` set (fst r) \<longrightarrow> sk (snd r) x = sk (others spawned w) x"
          using rest unfolding hands_over_def logs same by blast+
        ultimately show ?thesis
          unfolding hands_over_def using weaker kept by (intro conjI exI [of _ new]) (auto simp: image_Un)
      next
        case False
        then have "r = (spawned, w1)" using 1 acc AcceptFail by simp
        have "sk (others spawned w) x = sk w x" if "x \<notin> thread_fd ` set spawned" for x using oth(3) [of x] that by auto
        with \<open>r = _\<close> show ?thesis by (simp add: hands_over_def same logs)
      qed
    qed
  qed
  then show ?thesis by simp
qed

lemma rdma_server_main_hands_over:
  assumes K: "kernel_table K sk addr_lists" and M: "main_calls K others sk accepted main_closed"
    and run: "rdma_server_main K others argv w = Some (EXIT_SUCCESS, st, spawned, w')"
  shows "\<exists>opts lfd. parse_server_options argv server_defaults = Inr opts
       \<and> accepted w' = accepted w @ map thread_fd spawned \<and> main_closed w' = main_closed w @ [lfd]
       \<and> lfd \<notin> thread_fd ` set spawned \<and> sk w lfd = None
       \<and> (\<forall>t\<in>set spawned. (\<exists>fd. t = OneSidedThread fd) = so_one_sided opts)
       \<and> (\<forall>fd. if fd \<in> thread_fd ` set spawned then sk w fd = None else sk w' fd = sk w fd)"
proof -
  obtain opts where opts: "parse_server_options argv server_defaults = Inr opts"
    using run by (cases "parse_server_options argv server_defaults") (simp_all add: rdma_server_main_def)
  obtain lfd w1 where lst: "make_tcp_listener K (so_port opts) w = (lfd, w1)" by (cases "make_tcp_listener K (so_port opts) w")
  note l = make_tcp_listener_result [OF K lst]
  have pos: "0 \<le> lfd" using run opts lst by (auto simp: rdma_server_main_def Let_def split: if_splits)
  obtain w2 where acc: "rdma_accept_loop K others lfd (so_one_sided opts) [] w1 = Some (spawned, w2)"
    and w': "w' = sys_close K lfd (others spawned w2)"
    using run opts lst pos by (auto simp: rdma_server_main_def Let_def split: bind_splits)
  have ho: "hands_over sk accepted main_closed (so_one_sided opts) [] w1 spawned w2"
    by (rule rdma_accept_loop_hands_over [OF K M acc])
  note m1 = make_tcp_listener_account [OF M lst pos]
  note oth = main_callsD(8-10) [OF M, of spawned w2]
  obtain s where none: "sk w lfd = None" and w1: "sk w1 = (sk w)(lfd \<mapsto> s)" using l pos by (auto simp: configuring_def)
  have new: "sk w1 x = None" if "x \<in> thread_fd ` set spawned" for x using ho that by (auto simp: hands_over_def)
  have fresh: "lfd \<notin> thread_fd ` set spawned" using new [of lfd] w1 by auto
  have old: "sk w2 x = sk w1 x" if "x \<notin> thread_fd ` set spawned" for x using ho that by (simp add: hands_over_def)
  have table: "if x \<in> thread_fd ` set spawned then sk w x = None else sk w' x = sk w x" for x
  proof (cases "x \<in> thread_fd ` set spawned")
    case True
    then show ?thesis using new [OF True] w1 fresh by (auto split: if_splits)
  next
    case False
    then have "sk (others spawned w2) x = sk w1 x" using oth(3) [of x] old [OF False] by simp
    then show ?thesis using False none w1 by (simp add: w' kernel_tableD(10) [OF K])
  qed
  have account: "accepted w' = accepted w @ map thread_fd spawned" "main_closed w' = main_closed w @ [lfd]"
    using ho m1 oth by (auto simp: hands_over_def w' main_callsD(2,3) [OF M])
  have kinds: "\<forall>t\<in>set spawned. (\<exists>fd. t = OneSidedThread fd) = so_one_sided opts" using ho by (simp add: hands_over_def)
  show ?thesis using opts account kinds fresh none table by blast
qed

end
