(* ===== verification/RdmaServerProps.thy ===== *)
theory RdmaServerProps
  imports SimLink SimKernel HandshakeLaws RdmaProps
begin

section \<open>Properties of the RDMA server\<close>

text \<open>
  What the handlers, the handshake, the preloading loop and \<open>main\<close> of \<open>src/server/rdma_main.cpp\<close>
  guarantee, each with a run on the simulated device or kernel.
\<close>

subsection \<open>Two-sided clients\<close>

text \<open>
  C14: Whatever fails on the link, a two-sided session that ends has executed exactly a prefix of the
  client's messages, each once and in order, with the effect the TCP server's request handling has
  on the same lines, and nothing after \<open>QUIT\<close>; and what it has handed to the NIC are the responses
  to exactly these messages in order (cut at 4096 bytes), the last one possibly not.
\<close>
theorem two_sided_session_serves_prefix:
  assumes "message_link V qp cq lks (\<lambda>_ _. []) good link" and "endpoint qp cq lks c" and "good h"
    and "idle_link (link h)" and "two_sided_loop V kvs c h = Some (kvs', c', h')"
  shows "\<exists>k rs. serve_messages (take k (inbox (link h))) kvs = (rs, kvs')
       \<and> (outbox (link h') = outbox (link h) @ map (take RDMA_MSG_SIZE) rs
          \<or> outbox (link h') = outbox (link h) @ map (take RDMA_MSG_SIZE) (butlast rs))"
  using message_link.two_sided_loop_prefix [OF assms(1) refl assms(5,2,3,4)] by (simp add: serves_prefix_def)

definition lnk_ctx :: RdmaContext where
  "lnk_ctx = (RdmaContext_default 4096 8192)\<lparr>ctx_ptr := Some 0, pd_ptr := Some 0, cq_ptr := Some 0,
     qp_ptr := Some \<lparr>qp_handle = 0, qp_number = 0\<rparr>,
     send_mr := Some \<lparr>mr_handle = 1, mr_addr = 4096, mr_lkey = 1, mr_rkey = 1\<rparr>,
     recv_mr := Some \<lparr>mr_handle = 2, mr_addr = 8192, mr_lkey = 2, mr_rkey = 2\<rparr>\<rparr>"

definition lnk_host :: "string list \<Rightarrow> string \<Rightarrow> lnk host" where
  "lnk_host coming bytes = \<lparr>host_mem = (\<lambda>_. NUL), nic = \<lparr>
     dev = \<lparr>sim_live = [], sim_qst = (\<lambda>_. QPS_RESET), sim_remote = (\<lambda>_. NUL), sim_pending = None, sim_polled = False\<rparr>,
     msgs = \<lparr>inbox = coming, outbox = [], recvs = [], pending_sends = 0\<rparr>, closed_fds = [], stream_in = bytes, stream_out = []\<rparr>\<rparr>"

lemma lnk_endpoint: "endpoint \<lparr>qp_handle = 0, qp_number = 0\<rparr> 0 UNIV lnk_ctx"
  by (simp add: endpoint_def lnk_ctx_def)

lemma lnk_host_view [simp]:
  "lnk_view (lnk_host coming bytes) = \<lparr>inbox = coming, outbox = [], recvs = [], pending_sends = 0\<rparr>"
  "idle_link (lnk_view (lnk_host coming bytes))"
  by (simp_all add: lnk_host_def lnk_view_def idle_link_def)

definition example_messages :: "string list" where
  "example_messages = [''SET a b'' @ [NL], ''GET a'' @ [NL], ''quit'', ''GET a'']"

lemma example_served:
  "serve_messages example_messages empty_store = ([''OK'' @ [NL], ''VALUE b'' @ [NL], ''BYE'' @ [NL]], snd (kv_set ''a'' ''b'' empty_store))"
  by code_simp

text \<open>
  C13: On a reliable link, when the client's messages fit the receive buffer and one of them is
  \<open>QUIT\<close>, the two-sided session ends by itself: its polls all return, every message up to and
  including the first \<open>QUIT\<close> is executed as the TCP server would, and the client is sent exactly the
  responses, each cut at 4096 bytes.
\<close>
theorem two_sided_session_answers_until_quit:
  assumes "reliable_link V qp cq lks (\<lambda>_ _. []) good link" and "endpoint qp cq lks c" and "good h"
    and "idle_link (link h)" and "\<forall>m\<in>set (inbox (link h)). length m \<le> RDMA_MSG_SIZE"
    and "\<exists>m\<in>set (inbox (link h)). quit_line (strip_newline m)"
  shows "\<exists>kvs' c' h' rs. two_sided_loop V kvs c h = Some (kvs', c', h')
     \<and> serve_messages (inbox (link h)) kvs = (rs, kvs')
     \<and> outbox (link h') = outbox (link h) @ map (take RDMA_MSG_SIZE) rs"
  by (rule reliable_link.two_sided_loop_answers_all [OF assms(1) refl assms(2-)])

theorem two_sided_session_answers_until_quit_witness:
  "\<exists>c' h'. two_sided_loop (lnk_verbs (\<lambda>_ _. [])) empty_store lnk_ctx (lnk_host example_messages [])
       = Some (snd (kv_set ''a'' ''b'' empty_store), c', h')
     \<and> outbox (lnk_view h') = [''OK'' @ [NL], ''VALUE b'' @ [NL], ''BYE'' @ [NL]]"
proof -
  let ?h = "lnk_host example_messages []"
  have short: "\<forall>m\<in>set (inbox (lnk_view ?h)). length m \<le> RDMA_MSG_SIZE"
    by (simp add: example_messages_def RDMA_MSG_SIZE_def)
  have quit: "\<exists>m\<in>set (inbox (lnk_view ?h)). quit_line (strip_newline m)"
    unfolding lnk_host_view msg_view.simps by code_simp
  obtain kvs' c' h' rs where run: "two_sided_loop (lnk_verbs (\<lambda>_ _. [])) empty_store lnk_ctx ?h = Some (kvs', c', h')"
    "serve_messages (inbox (lnk_view ?h)) empty_store = (rs, kvs')" "outbox (lnk_view h') = outbox (lnk_view ?h) @ map (take RDMA_MSG_SIZE) rs"
    using two_sided_session_answers_until_quit [OF lnk_reliable lnk_endpoint TrueI lnk_host_view(2) short quit, where kvs = empty_store]
    by blast
  from run(2) have "rs = [''OK'' @ [NL], ''VALUE b'' @ [NL], ''BYE'' @ [NL]]" "kvs' = snd (kv_set ''a'' ''b'' empty_store)"
    by (simp_all add: example_served)
  with run(1,3) show ?thesis by (simp add: RDMA_MSG_SIZE_def)
qed

theorem two_sided_session_serves_prefix_witness:
  "\<exists>kvs' k rs. serve_messages (take k example_messages) empty_store = (rs, kvs')
     \<and> map_option fst (two_sided_loop (lnk_verbs (\<lambda>_ _. [])) empty_store lnk_ctx (lnk_host example_messages [])) = Some kvs'"
proof -
  let ?h = "lnk_host example_messages []"
  have quit: "\<exists>m\<in>set (inbox (lnk_view ?h)). quit_line (strip_newline m)"
    unfolding lnk_host_view msg_view.simps by code_simp
  obtain kvs' c' h' where run: "two_sided_loop (lnk_verbs (\<lambda>_ _. [])) empty_store lnk_ctx ?h = Some (kvs', c', h')"
    using server_end.two_sided_loop_answers_all [OF refl lnk_endpoint TrueI lnk_host_view(2) _ quit, where kvs = empty_store]
    by (auto simp: example_messages_def RDMA_MSG_SIZE_def)
  have link: "message_link (lnk_verbs (\<lambda>_ _. [])) \<lparr>qp_handle = 0, qp_number = 0\<rparr> 0 UNIV (\<lambda>_ _. []) (\<lambda>h. True) lnk_view"
    using lnk_reliable by (simp add: reliable_link_def)
  show ?thesis
    using two_sided_session_serves_prefix [OF link lnk_endpoint TrueI lnk_host_view(2) run] run by auto
qed

subsection \<open>Handlers release what they hold\<close>

text \<open>
  C16: On every path through a handler, from a failed \<open>init\<close> to the end of the session, it has
  closed exactly the descriptor it was given, exactly once, and the verbs resources that exist when
  it returns are those that existed when it was called (in the one-sided handler the region of the
  table included, deregistered before its protection domain goes) - except when the device list is
  allocated but empty: then \<open>init\<close> fails without freeing the list, which stays behind.
\<close>
theorem rdma_handlers_release_everything:
  assumes "handler_world V K live closes" and "DevList \<notin> live h"
    and "\<And>h h'. pause h = Some h' \<Longrightarrow> live h' = live h \<and> closes h' = closes h"
  shows "(\<forall>kvs' h'. handle_two_sided_client V K tcp_fd device_name sbuf rbuf kvs h = Some (kvs', h') \<longrightarrow>
            live h' = (if fst (ibv_get_device_list V h) = Some [] then insert DevList (live h) else live h)
            \<and> closes h' = closes h @ [tcp_fd])
       \<and> (\<forall>h'. handle_one_sided_client V K pause tcp_fd table_base num_slots device_name sbuf rbuf h = Some h' \<longrightarrow>
            live h' = (if fst (ibv_get_device_list V h) = Some [] then insert DevList (live h) else live h)
            \<and> closes h' = closes h @ [tcp_fd])"
  using two_sided_handler_releases [OF assms(1,2)] one_sided_handler_releases [OF assms] by (auto simp: left_behind_def)

lemma lnk_streams:
  "send_law (\<lambda>h. True) (\<lambda>w bs. sys_write lnk_kernel fd bs w) (\<lambda>h. stream_out (nic h)) (\<lambda>h. 0) (\<lambda>h. (stream_in (nic h), msgs (nic h)))"
  "send_reliable (\<lambda>h. True) (\<lambda>w bs. sys_write lnk_kernel fd bs w)"
  "recv_law (\<lambda>h. True) (\<lambda>w n. sys_read lnk_kernel fd n w) (\<lambda>h. stream_in (nic h)) (\<lambda>h. 0) (\<lambda>h. (stream_out (nic h), msgs (nic h)))"
  "recv_reliable (\<lambda>h. True) (\<lambda>w n. sys_read lnk_kernel fd n w) (\<lambda>h. stream_in (nic h))"
  by (auto simp: send_law_def send_reliable_def recv_law_def recv_reliable_def lnk_kernel_def min_def)

lemma lnk_init:
  obtains c h' where "rdma_init (lnk_verbs react) None (RdmaContext_default 4096 8192) (lnk_host coming bytes) = (True, c, h')"
    and "stream_in (nic h') = bytes" and "msgs (nic h') = msgs (nic (lnk_host coming bytes))" and "ctx_ptr c \<noteq> None" and "qp_ptr c \<noteq> None"
  by (simp add: rdma_init_def init_opened_def lnk_verbs_def sim_verbs_def lnk_host_def sim_add_def sim_new_def lift1_def lift0_def
      down_def back_up_def sim_modify_def init_attr_def init_mask_def zero_qp_attr_def fresh_def Let_def RdmaContext_default_def)

theorem rdma_handlers_release_everything_witness:
  "\<exists>kvs' h'. handle_two_sided_client (lnk_verbs (\<lambda>_ _. [])) lnk_kernel 5 None 4096 8192 empty_store (lnk_host [] []) = Some (kvs', h')
     \<and> lnk_resources h' = {} \<and> lnk_closes h' = [5]"
proof -
  let ?V = "lnk_verbs (\<lambda>_ _. [])" and ?h = "lnk_host [] []"
  have none: "lnk_resources ?h = {}" "lnk_closes ?h = []"
    by (simp_all add: lnk_resources_def lnk_closes_def sim_resources_def down_def lnk_host_def)
  then have dl: "DevList \<notin> lnk_resources ?h" by simp
  have list: "fst (ibv_get_device_list ?V ?h) \<noteq> Some []" by (simp add: lnk_verbs_def lift1_def sim_verbs_def prod.case_eq_if)
  obtain c h1 where init: "rdma_init ?V None (RdmaContext_default 4096 8192) ?h = (True, c, h1)" "stream_in (nic h1) = []"
    "ctx_ptr c \<noteq> None" "qp_ptr c \<noteq> None" by (rule lnk_init)
  then obtain info where info: "local_info ?V c h1 = Some info" by (auto simp: local_info_def)
  obtain h2 where wr: "buf_write_all lnk_kernel 5 (encode_qp_info info) h1 = Some (True, h2)" "stream_in (nic h2) = []"
    using buf_write_all_sends [OF lnk_streams(1) TrueI, of 5 "encode_qp_info info" h1] lnk_streams(2) init(2) by auto
  have "buf_read_all lnk_kernel 5 [] qp_info_size h2 = Some (False, [], h2)"
    using wr(2) by (subst buf_read_all.simps) (simp add: lnk_kernel_def qp_info_size_def)
  with wr have "exchange_info lnk_kernel 5 info h1 = Some (None, h2)" by (simp add: exchange_info_def)
  with init info obtain kvs' h' where run: "handle_two_sided_client ?V lnk_kernel 5 None 4096 8192 empty_store ?h = Some (kvs', h')"
    by (simp add: handle_two_sided_client_def)
  note released = rdma_handlers_release_everything [where pause = "\<lambda>h. None", OF lnk_handler_world dl, simplified,
      THEN conjunct1, rule_format, OF run]
  show ?thesis using released run none list by auto
qed

subsection \<open>The handshake\<close>

text \<open>
  C17: Over a reliable side channel the handshake gives each end exactly the structure the other one
  has sent, field by field: the server writes all 48 bytes of its structure before it reads the
  client's, the client reads before it writes, and each takes exactly these 48 bytes from the stream.
\<close>
theorem handshake_exchanges_qp_info:
  assumes "send_law good (\<lambda>w bs. sys_write K fd bs w) sent_bytes patience coming"
    and "send_reliable good (\<lambda>w bs. sys_write K fd bs w)"
    and "recv_law good (\<lambda>w n. sys_read K fd n w) coming patience sent_bytes"
    and "recv_reliable good (\<lambda>w n. sys_read K fd n w) coming"
    and "qp_info_ok server_qp" and "qp_info_ok client_qp" and "good hs" and "good hc"
    and "coming hs = encode_qp_info client_qp @ rest" and "coming hc = encode_qp_info server_qp @ rest'"
  shows "(\<exists>h. exchange_info K fd server_qp hs = Some (Some client_qp, h)
           \<and> sent_bytes h = sent_bytes hs @ encode_qp_info server_qp \<and> coming h = rest)
       \<and> (\<exists>bytes h1 h. client_read_all K fd qp_info_size hc = Some (True, bytes, h1) \<and> decode_qp_info bytes = server_qp
           \<and> client_write_all K fd (encode_qp_info client_qp) h1 = Some (True, h)
           \<and> sent_bytes h = sent_bytes hc @ encode_qp_info client_qp \<and> coming h = rest')"
proof -
  have wrote: "\<exists>h'. buf_write_all K fd (encode_qp_info i) h = Some (True, h') \<and> good h' \<and> coming h' = coming h
      \<and> sent_bytes h' = sent_bytes h @ encode_qp_info i" if "good h" for i h
    using buf_write_all_sends [OF assms(1) that, of "encode_qp_info i"] assms(2) by (metis take_all)
  have took: "\<exists>h'. buf_read_all K fd [] qp_info_size h = Some (True, encode_qp_info i, h') \<and> good h' \<and> coming h' = r
      \<and> sent_bytes h' = sent_bytes h" if gd: "good h" and cm: "coming h = encode_qp_info i @ r" and qi: "qp_info_ok i" for i h r
  proof -
    obtain ok h' got where g: "buf_read_all K fd [] qp_info_size h = Some (ok, got, h')" "good h'" "sent_bytes h' = sent_bytes h"
      "coming h = got @ coming h'" "ok \<longrightarrow> length got = qp_info_size"
      "recv_reliable good (\<lambda>w n. sys_read K fd n w) coming \<longrightarrow> qp_info_size \<le> length (coming h) \<longrightarrow> ok"
      using buf_read_all_takes [OF assms(3) gd, of "[]" qp_info_size] by auto
    have ok using g(6) assms(4) cm qi by simp
    then have "length got = length (encode_qp_info i)" using g(5) qi by simp
    then have "got = encode_qp_info i \<and> coming h' = r" using g(4) cm by simp
    with g \<open>ok\<close> show ?thesis by auto
  qed
  obtain h1 where s1: "buf_write_all K fd (encode_qp_info server_qp) hs = Some (True, h1)" "good h1" "coming h1 = coming hs"
    "sent_bytes h1 = sent_bytes hs @ encode_qp_info server_qp" using wrote [OF assms(7)] by blast
  obtain h2 where s2: "buf_read_all K fd [] qp_info_size h1 = Some (True, encode_qp_info client_qp, h2)" "coming h2 = rest"
    "sent_bytes h2 = sent_bytes h1" using took [OF s1(2) _ assms(6)] s1(3) assms(9) by metis
  obtain h3 where c1: "buf_read_all K fd [] qp_info_size hc = Some (True, encode_qp_info server_qp, h3)" "good h3" "coming h3 = rest'"
    "sent_bytes h3 = sent_bytes hc" using took [OF assms(8,10,5)] by blast
  obtain h4 where c2: "buf_write_all K fd (encode_qp_info client_qp) h3 = Some (True, h4)" "coming h4 = coming h3"
    "sent_bytes h4 = sent_bytes h3 @ encode_qp_info client_qp" using wrote [OF c1(2)] by blast
  show ?thesis
    using s1 s2 c1 c2 by (simp add: exchange_info_def client_read_all_def client_write_all_def decode_encode_qp_info assms(5,6))
qed

definition example_info :: QpInfo where
  "example_info = \<lparr>qi_qp_num = 291, qi_lid = 7, qi_gid = replicate 16 (CHR ''g''), qi_rkey = 66, qi_addr = 140737488355328, qi_num_slots = 4096\<rparr>"

theorem handshake_exchanges_qp_info_witness:
  "\<exists>h. exchange_info lnk_kernel 4 zero_info (lnk_host [] (encode_qp_info example_info)) = Some (Some example_info, h)
     \<and> stream_out (nic h) = encode_qp_info zero_info"
proof -
  have ok: "qp_info_ok zero_info" "qp_info_ok example_info" by (simp_all add: qp_info_ok_def zero_info_def example_info_def)
  have "stream_in (nic (lnk_host [] (encode_qp_info example_info))) = encode_qp_info example_info @ []"
    "stream_in (nic (lnk_host [] (encode_qp_info zero_info))) = encode_qp_info zero_info @ []"
    "stream_out (nic (lnk_host [] (encode_qp_info example_info))) = []" by (simp_all add: lnk_host_def)
  note facts = this
  have laws: "send_law (\<lambda>h. True) (\<lambda>w bs. sys_write lnk_kernel 4 bs w) (\<lambda>h. stream_out (nic h)) (\<lambda>h. 0) (\<lambda>h. stream_in (nic h))"
    "recv_law (\<lambda>h. True) (\<lambda>w n. sys_read lnk_kernel 4 n w) (\<lambda>h. stream_in (nic h)) (\<lambda>h. 0) (\<lambda>h. stream_out (nic h))"
    by (auto simp: send_law_def recv_law_def lnk_kernel_def min_def)
  show ?thesis
    using handshake_exchanges_qp_info [OF laws(1) lnk_streams(2) laws(2) lnk_streams(4) ok TrueI TrueI facts(1,2), THEN conjunct1] facts(3)
    by auto
qed

subsection \<open>Preloading, accepting\<close>

text \<open>
  C28: After \<open>--preload n\<close>, whatever \<open>n\<close>, the table returns \<open>value\<close>\<open>i\<close> for \<open>key\<close>\<open>i\<close> exactly for the first
  \<open>min n 4096\<close> numbers: the keys are distinct and fit, each of the first 4096 finds a slot however
  the hashes collide, and every later one is dropped without a word (5904 of the default 10000).
\<close>
theorem preload_stores_first_4096:
  "rdma_get (preload_key i) (preload n RdmaStore_init) =
     (if int i < n \<and> i < RDMA_NUM_SLOTS then Some (preload_value i) else None)"
  by (rule preload_get)

text \<open>
  C27: The main thread and the threads it detaches. Whatever the detached handlers do between two
  calls of the main thread (closing their own descriptors included, so that \<open>accept\<close> may return the
  same number again), every connection \<open>accept\<close> returned is handed to exactly one thread, in the
  order of acceptance, and every thread is of the kind \<open>--mode\<close> chose; \<open>main\<close> itself closes one
  descriptor, its listener, which it never handed to a thread; and no descriptor is lost: what was
  not handed over is as it was before \<open>main\<close>. When the arguments are refused or the listener fails, no thread
  is started and the table of descriptors is unchanged.
\<close>
theorem rdma_server_hands_over_every_client:
  assumes "kernel_table K sk addr_lists" and "main_calls K others sk accepted main_closed"
    and "rdma_server_main K others argv w = Some (e, st, spawned, w')"
  shows "case e of
      Uncaught x \<Rightarrow> parse_server_options argv server_defaults = Inl x \<and> spawned = [] \<and> w' = w
    | EXIT_FAILURE \<Rightarrow> spawned = [] \<and> sk w' = sk w
    | EXIT_SUCCESS \<Rightarrow> (\<exists>opts lfd. parse_server_options argv server_defaults = Inr opts
        \<and> accepted w' = accepted w @ map thread_fd spawned \<and> main_closed w' = main_closed w @ [lfd]
        \<and> lfd \<notin> thread_fd ` set spawned \<and> sk w lfd = None
        \<and> (\<forall>t\<in>set spawned. (\<exists>fd. t = OneSidedThread fd) = so_one_sided opts)
        \<and> (\<forall>fd. if fd \<in> thread_fd ` set spawned then sk w fd = None else sk w' fd = sk w fd))"
proof (cases e)
  case EXIT_SUCCESS
  then show ?thesis using rdma_server_main_hands_over [OF assms(1,2)] assms(3) by simp
next
  case EXIT_FAILURE
  then show ?thesis
    using assms(3) make_tcp_listener_result [OF assms(1)]
    by (fastforce simp: rdma_server_main_def Let_def split: sum.splits prod.splits if_splits bind_splits)
next
  case (Uncaught x)
  then show ?thesis
    using assms(3) by (auto simp: rdma_server_main_def Let_def split: sum.splits prod.splits if_splits bind_splits)
qed

text \<open>
  A kernel whose \<open>accept\<close> yields a number of clients and then fails, with the main thread's account
  of its calls; the detached threads close their descriptors at once, so the number is used again.
\<close>

definition account_kernel :: "(nat \<times> int list \<times> int list) ksim kernel" where
  "account_kernel = (sim_kernel (\<lambda>bs x. (Wrote (length bs), x)) (\<lambda>n x. (ReadEof, x)))
     \<lparr>sys_accept := (\<lambda>fd w. case ks_conn w of (n, acc, cl) \<Rightarrow>
        if n = 0 then (AcceptFail (EOTHER 24), w)
        else (AcceptedFd (ks_fresh w), snd (ks_open AF_INET (w\<lparr>ks_conn := (n - 1, acc @ [ks_fresh w], cl)\<rparr>)))),
      sys_close := (\<lambda>fd w. w\<lparr>ks_socks := AList.delete fd (ks_socks w),
        ks_conn := (case ks_conn w of (n, acc, cl) \<Rightarrow> (n, acc, cl @ [fd]))\<rparr>)\<rparr>"

definition closing_threads :: "client_thread list \<Rightarrow> 'x ksim \<Rightarrow> 'x ksim" where
  "closing_threads ts w = fold (\<lambda>t w. w\<lparr>ks_socks := AList.delete (thread_fd t) (ks_socks w)\<rparr>) ts w"

lemma account_table: "kernel_table account_kernel ks_table ks_lists"
  unfolding account_kernel_def
proof (rule kernel_table_replace [OF sim_kernel_table], goal_cases)
  case (1 fd w)
  have "0 \<le> ks_fresh w \<and> opens ks_table (ks_fresh w) w (snd (ks_open AF_INET (w\<lparr>ks_conn := x\<rparr>)))
      \<and> ks_lists (snd (ks_open AF_INET (w\<lparr>ks_conn := x\<rparr>))) = ks_lists w" for x
    using ks_fresh [of w]
    by (auto simp: ks_open_def opens_def ks_table_def ks_fresh_def update_conv' intro!: exI [of _ "2::int"])
  then show ?case by (auto split: prod.split)
next
  case (2 fd w)
  then show ?case by (simp add: ks_table_def delete_conv')
qed

lemma closing_threads_table:
  "ks_conn (closing_threads ts w) = ks_conn w"
  "ks_table (closing_threads ts w) fd = (if fd \<in> thread_fd ` set ts then None else ks_table w fd)"
  by (induction ts arbitrary: w) (auto simp: closing_threads_def ks_table_def delete_conv')

lemma account_calls:
  "main_calls account_kernel closing_threads ks_table (\<lambda>w. fst (snd (ks_conn w))) (\<lambda>w. snd (snd (ks_conn w)))"
  by (auto simp: main_calls_def account_kernel_def sim_kernel_def ks_open_def ks_set_def closing_threads_table
      split: option.splits prod.splits)

definition fresh_world :: "'x \<Rightarrow> 'x ksim" where
  "fresh_world x = \<lparr>ks_socks = [], ks_lists = 0, ks_hosts = [], ks_dead = [], ks_taken = [], ks_conn = x\<rparr>"

theorem rdma_server_hands_over_every_client_witness:
  "\<exists>st w'. rdma_server_main account_kernel closing_threads [''--mode'', ''two-sided''] (fresh_world (2, [], []))
       = Some (EXIT_SUCCESS, st, [TwoSidedThread 4, TwoSidedThread 4], w')
     \<and> fst (snd (ks_conn w')) = [4, 4] \<and> (\<exists>lfd. snd (snd (ks_conn w')) = [lfd] \<and> lfd \<noteq> 4)"
proof -
  let ?w = "fresh_world (2, [], [])"
  obtain st w' where run: "rdma_server_main account_kernel closing_threads [''--mode'', ''two-sided''] ?w
      = Some (EXIT_SUCCESS, st, [TwoSidedThread 4, TwoSidedThread 4], w')"
    by (simp add: rdma_server_main_def server_defaults_def make_tcp_listener_def account_kernel_def sim_kernel_def fresh_world_def
        ks_open_def ks_fresh_def ks_set_def ks_table_def Let_def rdma_accept_loop.simps closing_threads_def)
  from rdma_server_hands_over_every_client [OF account_table account_calls run]
  have "fst (snd (ks_conn w')) = [4, 4] \<and> (\<exists>lfd. snd (snd (ks_conn w')) = [lfd] \<and> lfd \<noteq> 4)"
    by (auto simp: fresh_world_def)
  with run show ?thesis by blast
qed

end
