(* ===== verification/RdmaReport.thy ===== *)
theory RdmaReport
  imports RdmaBenchmark
begin

section \<open>The client's benchmark runs (\<open>src/client/rdma_client.cpp\<close>)\<close>

text \<open>
  The split of the operations over the workers, the totals and figures, the CSV row, the two
  benchmarks, the options and \<open>main\<close>. The workers run in threads: \<open>run_all\<close> takes the machine (the
  verbs, the kernel, the clock), the body of a thread and the jobs, runs a thread for each job and
  joins them. The body takes the machine as the thread meets it: \<open>run_all\<close> gives every thread its own
  view, in which the steps of the other threads come between its calls. Standard output is the list
  of texts printed, a file the string it holds; messages on \<open>std::cerr\<close> are left out.
\<close>

subsection \<open>Splitting the work, adding up the results\<close>

definition worker_share :: "nat \<Rightarrow> nat \<Rightarrow> nat \<Rightarrow> nat" where
  "worker_share n clients i = n div clients + (if i < n mod clients then 1 else 0)"

definition worker_jobs :: "nat \<Rightarrow> nat \<Rightarrow> nat \<Rightarrow> (nat \<times> nat \<times> nat) list" where
  "worker_jobs clients ops warmup_count =
     map (\<lambda>i. (i, worker_share ops clients i, worker_share warmup_count clients i)) [0..<clients]"

definition add_result :: "BenchmarkResult \<Rightarrow> BenchmarkResult \<Rightarrow> BenchmarkResult" where
  "add_result s r = \<lparr>latencies_us = latencies_us s @ latencies_us r,
     measured_ok_responses = measured_ok_responses s + measured_ok_responses r,
     measured_errors = measured_errors s + measured_errors r,
     warmup_ok_responses = warmup_ok_responses s + warmup_ok_responses r,
     warmup_errors = warmup_errors s + warmup_errors r\<rparr>"

definition sum_results :: "BenchmarkResult list \<Rightarrow> BenchmarkResult" where
  "sum_results results =
     (let s = fold (\<lambda>r s. add_result s r) results empty_result in s\<lparr>latencies_us := sort (latencies_us s)\<rparr>)"

subsection \<open>Figures\<close>

record 'd figures =
  elapsed_s :: 'd
  throughput :: 'd
  mean_us :: 'd
  p50_us :: 'd
  p95_us :: 'd
  p99_us :: 'd

definition mean_latency :: "'d fp \<Rightarrow> int list \<Rightarrow> 'd" where
  "mean_latency F latencies =
     (if latencies = [] then fp_literal F ''0.0''
      else fp_div F (fp_int F (sum_list latencies)) (fp_int F (int (length latencies))))"

text \<open>The two-sided benchmark rounds down before it converts, the one-sided converts directly.\<close>

definition two_sided_percentile :: "'d fp \<Rightarrow> int list \<Rightarrow> 'd \<Rightarrow> 'd" where
  "two_sided_percentile F latencies frac =
     (if latencies = [] then fp_literal F ''0.0''
      else
        let idx = min (length latencies - 1)
              (fp_truncate F (fp_floor F (fp_mult F frac (fp_int F (int (length latencies - 1))))))
        in fp_int F (latencies ! idx))"

definition one_sided_percentile :: "'d fp \<Rightarrow> int list \<Rightarrow> 'd \<Rightarrow> 'd" where
  "one_sided_percentile F latencies frac =
     (if latencies = [] then fp_literal F ''0.0''
      else
        let idx = min (length latencies - 1) (fp_truncate F (fp_mult F frac (fp_int F (int (length latencies - 1)))))
        in fp_int F (latencies ! idx))"

text \<open>\<open>ns\<close> is the time between the two readings of the clock around the workers.\<close>

definition make_figures :: "'d fp \<Rightarrow> (int list \<Rightarrow> 'd \<Rightarrow> 'd) \<Rightarrow> int \<Rightarrow> u64 \<Rightarrow> int list \<Rightarrow> 'd figures" where
  "make_figures F percentile ns ops latencies =
     (let elapsed = fp_seconds F ns in
      \<lparr>elapsed_s = elapsed, throughput = fp_div F (fp_int F (uint ops)) elapsed, mean_us = mean_latency F latencies,
       p50_us = percentile latencies (fp_literal F ''0.50''), p95_us = percentile latencies (fp_literal F ''0.95''),
       p99_us = percentile latencies (fp_literal F ''0.99'')\<rparr>)"

definition figure_texts :: "'d fp \<Rightarrow> 'd figures \<Rightarrow> string list" where
  "figure_texts F f = map (fp_show F) [elapsed_s f, throughput f, mean_us f, p50_us f, p95_us f, p99_us f]"

definition count_texts :: "BenchmarkResult \<Rightarrow> string list" where
  "count_texts s = map to_string [measured_ok_responses s, measured_errors s, warmup_ok_responses s, warmup_errors s]"

subsection \<open>The CSV file\<close>

text \<open>The files: the contents of each that exists, and whether it can be opened for appending.\<close>

record files =
  file_contents :: "string \<Rightarrow> string option"
  can_append :: "string \<Rightarrow> bool"

definition append_file :: "string \<Rightarrow> string \<Rightarrow> files \<Rightarrow> files" where
  "append_file path txt fs =
     fs\<lparr>file_contents := (file_contents fs)(path \<mapsto>
       (case file_contents fs path of None \<Rightarrow> [] | Some old \<Rightarrow> old) @ txt)\<rparr>"

definition csv_header :: string where
  "csv_header = ''host,port,clients,operations,keys,value_size,get_ratio,zipf_s,''
     @ ''warmup,prefill,elapsed_seconds,throughput_rps,mean_latency_us,''
     @ ''p50_latency_us,p95_latency_us,p99_latency_us,''
     @ ''measured_ok_responses,measured_errors,''
     @ ''warmup_ok_responses,warmup_errors'' @ [NL]"

fun csv_line :: "string list \<Rightarrow> string" where
  "csv_line [] = [NL]"
| "csv_line [f] = f @ [NL]"
| "csv_line (f # fs) = f @ '','' @ csv_line fs"

text \<open>The header is due when the file cannot be read or has nothing to read.\<close>

definition csv_probe :: "files \<Rightarrow> string \<Rightarrow> string" where
  "csv_probe fs path =
     (if file_contents fs path = None \<or> file_contents fs path = Some [] then csv_header else [])"

definition csv_row :: "'d fp \<Rightarrow> string \<Rightarrow> u16 \<Rightarrow> u64 \<Rightarrow> u64 \<Rightarrow> u64 \<Rightarrow> u64 \<Rightarrow> 'd figures \<Rightarrow> BenchmarkResult \<Rightarrow> string" where
  "csv_row F host port clients ops key_count warmup f s =
     csv_line ([host, to_string (unat port), to_string (unat clients), to_string (unat ops), to_string (unat key_count),
         ''0'', fp_show F (fp_literal F ''1.0''), fp_show F (fp_literal F ''0.0''), to_string (unat warmup), ''1'']
       @ figure_texts F f @ count_texts s)"

definition write_csv_row :: "string \<Rightarrow> 'd fp \<Rightarrow> string \<Rightarrow> u16 \<Rightarrow> u64 \<Rightarrow> u64 \<Rightarrow> u64 \<Rightarrow> u64
    \<Rightarrow> 'd figures \<Rightarrow> BenchmarkResult \<Rightarrow> files \<Rightarrow> files" where
  "write_csv_row path F host port clients ops key_count warmup f s fs =
     (if \<not> can_append fs path then fs
      else append_file path (csv_probe fs path @ csv_row F host port clients ops key_count warmup f s) fs)"

definition benchmark_csv_row :: "'d fp \<Rightarrow> string \<Rightarrow> u16 \<Rightarrow> u64 \<Rightarrow> u64 \<Rightarrow> u64 \<Rightarrow> u64 \<Rightarrow> 'd \<Rightarrow> 'd
    \<Rightarrow> u64 \<Rightarrow> bool \<Rightarrow> 'd figures \<Rightarrow> BenchmarkResult \<Rightarrow> string" where
  "benchmark_csv_row F host port clients ops key_count value_size get_ratio zipf_s warmup prefill f s =
     csv_line ([host, to_string (unat port), to_string (unat clients), to_string (unat ops), to_string (unat key_count),
         to_string (unat value_size), fp_show F get_ratio, fp_show F zipf_s, to_string (unat warmup),
         if prefill then ''1'' else ''0'']
       @ figure_texts F f @ count_texts s)"

definition write_benchmark_csv_row :: "string \<Rightarrow> 'd fp \<Rightarrow> string \<Rightarrow> u16 \<Rightarrow> u64 \<Rightarrow> u64 \<Rightarrow> u64 \<Rightarrow> u64 \<Rightarrow> 'd \<Rightarrow> 'd
    \<Rightarrow> u64 \<Rightarrow> bool \<Rightarrow> 'd figures \<Rightarrow> BenchmarkResult \<Rightarrow> files \<Rightarrow> files" where
  "write_benchmark_csv_row path F host port clients ops key_count value_size get_ratio zipf_s warmup prefill f s fs =
     (if \<not> can_append fs path then fs
      else append_file path (csv_probe fs path
        @ benchmark_csv_row F host port clients ops key_count value_size get_ratio zipf_s warmup prefill f s) fs)"

subsection \<open>What is printed\<close>

definition report_lines :: "string list \<Rightarrow> 'd fp \<Rightarrow> 'd figures \<Rightarrow> BenchmarkResult \<Rightarrow> string list" where
  "report_lines labels F f s =
     [NL # ''Results'' @ [NL]] @ map (\<lambda>(l, x). l @ x @ [NL]) (zip labels (figure_texts F f @ count_texts s))"

definition two_sided_labels :: "string list" where
  "two_sided_labels =
     [''  elapsed_s:              '', ''  throughput_rps:         '', ''  mean_latency_us:        '',
      ''  p50_latency_us:         '', ''  p95_latency_us:         '', ''  p99_latency_us:         '',
      ''  measured_ok_responses:  '', ''  measured_errors:        '',
      ''  warmup_ok_responses:    '', ''  warmup_errors:          '']"

definition one_sided_labels :: "string list" where
  "one_sided_labels =
     [''  elapsed_s:        '', ''  throughput_rps:   '', ''  mean_latency_us:  '',
      ''  p50_latency_us:   '', ''  p95_latency_us:   '', ''  p99_latency_us:   '',
      ''  ok_ops:           '', ''  errors:           '',
      ''  warmup_ok:        '', ''  warmup_errors:    '']"

definition csv_notice :: "string \<Rightarrow> string list" where
  "csv_notice path = (if path = [] then [] else [''  csv: '' @ path @ [NL]])"

subsection \<open>The two benchmarks\<close>

text \<open>\<open>'v\<close> is what a thread calls: the machine as it meets it.\<close>

type_synonym ('v, 'w) worker_body = "'v \<Rightarrow> nat \<times> nat \<times> nat \<Rightarrow> 'w \<Rightarrow> (BenchmarkResult \<times> 'w) option"

type_synonym ('v, 'w) workers =
  "'v \<Rightarrow> ('v, 'w) worker_body \<Rightarrow> (nat \<times> nat \<times> nat) list \<Rightarrow> 'w \<Rightarrow> (BenchmarkResult list \<times> 'w) option"

type_synonym 'n machine = "'n verbs \<times> 'n host kernel \<times> ('n host \<Rightarrow> int)"

text \<open>Where the local variables of a thread lie: the buffers of its context, the slot, the result
of the atomic.\<close>

record stack =
  st_send :: u64
  st_recv :: u64
  st_slot :: u64
  st_atomic :: u64

text \<open>What a benchmark yields: its return value, the totals, what it has printed, the files. The totals are
empty when it returns early.\<close>

record bench =
  b_ok :: bool
  b_totals :: BenchmarkResult
  b_out :: "string list"
  b_files :: files

definition two_sided_args_ok :: "'d fp \<Rightarrow> u64 \<Rightarrow> u64 \<Rightarrow> u64 \<Rightarrow> u64 \<Rightarrow> 'd \<Rightarrow> 'd \<Rightarrow> bool" where
  "two_sided_args_ok F clients ops key_count value_size get_ratio zipf_s \<longleftrightarrow>
     \<not> (clients = 0 \<or> ops = 0 \<or> key_count = 0 \<or> value_size = 0
        \<or> value_size + 128 > of_nat RDMA_MSG_SIZE
        \<or> fp_less F get_ratio (fp_literal F ''0.0'') \<or> fp_less F (fp_literal F ''1.0'') get_ratio
        \<or> fp_less F zipf_s (fp_literal F ''0.0'') \<or> clients > ops)"

definition two_sided_banner :: "'d fp \<Rightarrow> u64 \<Rightarrow> u64 \<Rightarrow> u64 \<Rightarrow> u64 \<Rightarrow> u64 \<Rightarrow> 'd \<Rightarrow> 'd \<Rightarrow> string list" where
  "two_sided_banner F clients ops warmup_count key_count value_size get_ratio zipf_s =
     [''Two-sided RDMA benchmark'' @ [NL],
      ''  clients='' @ to_string (unat clients) @ ''  ops='' @ to_string (unat ops) @ ''  warmup='' @ to_string (unat warmup_count)
        @ ''  keys='' @ to_string (unat key_count) @ ''  value_size='' @ to_string (unat value_size)
        @ ''  get_ratio='' @ fp_show F get_ratio @ ''  zipf_s='' @ fp_show F zipf_s @ [NL]]"

text \<open>The thread of worker \<open>i\<close>.\<close>

definition two_sided_thread :: "('g, 'd) rng \<Rightarrow> 'd fp \<Rightarrow> (nat \<Rightarrow> stack)
    \<Rightarrow> string \<Rightarrow> u16 \<Rightarrow> string option \<Rightarrow> string list \<Rightarrow> 'd list \<Rightarrow> nat \<Rightarrow> 'd \<Rightarrow> 'd
    \<Rightarrow> ('n machine, 'n host) worker_body" where
  "two_sided_thread R F stacks host port device_name keys zipf_cdf value_size get_ratio zipf_s = (\<lambda>(V, K, clock) (i, worker_ops, worker_warmup) h.
     run_two_sided_worker V K clock R F host port device_name
       \<lparr>job_keys = keys, job_cdf = zipf_cdf, job_worker = i, job_value_size = value_size, job_get_ratio = get_ratio, job_zipf_s = zipf_s\<rparr>
       worker_ops worker_warmup (st_send (stacks i)) (st_recv (stacks i)) h)"

definition run_two_sided_benchmark :: "'n verbs \<Rightarrow> 'n host kernel \<Rightarrow> ('n host \<Rightarrow> int) \<Rightarrow> ('g, 'd) rng \<Rightarrow> 'd fp \<Rightarrow> ('n machine, 'n host) workers
    \<Rightarrow> stack \<Rightarrow> (nat \<Rightarrow> stack) \<Rightarrow> string \<Rightarrow> u16 \<Rightarrow> string option \<Rightarrow> u64 \<Rightarrow> u64 \<Rightarrow> u64 \<Rightarrow> u64 \<Rightarrow> u64 \<Rightarrow> 'd \<Rightarrow> 'd \<Rightarrow> bool \<Rightarrow> string
    \<Rightarrow> files \<Rightarrow> 'n host \<Rightarrow> (bench \<times> 'n host) option" where
  "run_two_sided_benchmark V K clock R F run_all own stacks host port device_name clients ops warmup_count key_count value_size
       get_ratio zipf_s prefill csv_path fs h =
     (if \<not> two_sided_args_ok F clients ops key_count value_size get_ratio zipf_s
      then Some (\<lparr>b_ok = False, b_totals = empty_result, b_out = [], b_files = fs\<rparr>, h)
      else
        let out = two_sided_banner F clients ops warmup_count key_count value_size get_ratio zipf_s;
            keys = map make_benchmark_key [0..<unat key_count];
            zipf_cdf = build_zipf_cdf F (unat key_count) zipf_s;
            out = (if prefill then out @ [''  pre-filling...'' @ [NL]] else out)
        in do {
          (ok, h) \<leftarrow> (if prefill
             then run_two_sided_prefill V K host port device_name keys (unat value_size) (st_send own) (st_recv own) h
             else Some (True, h));
          if \<not> ok then Some (\<lparr>b_ok = False, b_totals = empty_result, b_out = out, b_files = fs\<rparr>, h)
          else
            let out = out @ [''  measuring...'' @ [NL]]; wall_start = clock h in do {
              (results, h) \<leftarrow> run_all (V, K, clock)
                 (two_sided_thread R F stacks host port device_name keys zipf_cdf (unat value_size) get_ratio zipf_s)
                 (worker_jobs (unat clients) (unat ops) (unat warmup_count)) h;
              let s = sum_results results;
                  f = make_figures F (two_sided_percentile F) (clock h - wall_start) ops (latencies_us s);
                  fs = (if csv_path = [] then fs
                        else write_benchmark_csv_row csv_path F host port clients ops key_count value_size get_ratio zipf_s
                          warmup_count prefill f s fs)
              in Some (\<lparr>b_ok = True, b_totals = s, b_out = out @ report_lines two_sided_labels F f s @ csv_notice csv_path,
                   b_files = fs\<rparr>, h)
            }
        })"

definition one_sided_args_ok :: "u64 \<Rightarrow> u64 \<Rightarrow> u64 \<Rightarrow> bool" where
  "one_sided_args_ok clients ops key_count \<longleftrightarrow> \<not> (clients = 0 \<or> ops = 0 \<or> key_count = 0 \<or> clients > ops)"

definition one_sided_banner :: "u64 \<Rightarrow> u64 \<Rightarrow> u64 \<Rightarrow> u64 \<Rightarrow> bool \<Rightarrow> string list" where
  "one_sided_banner clients ops warmup_count key_count simulate_metadata =
     [''One-sided RDMA benchmark'' @ [NL],
      ''  clients='' @ to_string (unat clients) @ ''  ops='' @ to_string (unat ops) @ ''  warmup='' @ to_string (unat warmup_count)
        @ ''  keys='' @ to_string (unat key_count) @ ''  metadata='' @ (if simulate_metadata then ''yes'' else ''no'') @ [NL]]"

definition one_sided_thread :: "('g, 'd) rng \<Rightarrow> (nat \<Rightarrow> stack)
    \<Rightarrow> string \<Rightarrow> u16 \<Rightarrow> string option \<Rightarrow> nat \<Rightarrow> bool \<Rightarrow> ('n machine, 'n host) worker_body" where
  "one_sided_thread R stacks host port device_name key_count simulate_metadata = (\<lambda>(V, K, clock) (i, worker_ops, worker_warmup) h.
     run_one_sided_worker V K clock R host port device_name i worker_ops worker_warmup key_count simulate_metadata
       (st_send (stacks i)) (st_recv (stacks i)) (st_slot (stacks i)) (st_atomic (stacks i)) h)"

definition run_one_sided_benchmark :: "'n verbs \<Rightarrow> 'n host kernel \<Rightarrow> ('n host \<Rightarrow> int) \<Rightarrow> ('g, 'd) rng \<Rightarrow> 'd fp \<Rightarrow> ('n machine, 'n host) workers
    \<Rightarrow> (nat \<Rightarrow> stack) \<Rightarrow> string \<Rightarrow> u16 \<Rightarrow> string option \<Rightarrow> u64 \<Rightarrow> u64 \<Rightarrow> u64 \<Rightarrow> u64 \<Rightarrow> bool \<Rightarrow> string
    \<Rightarrow> files \<Rightarrow> 'n host \<Rightarrow> (bench \<times> 'n host) option" where
  "run_one_sided_benchmark V K clock R F run_all stacks host port device_name clients ops warmup_count key_count
       simulate_metadata csv_path fs h =
     (if \<not> one_sided_args_ok clients ops key_count
      then Some (\<lparr>b_ok = False, b_totals = empty_result, b_out = [], b_files = fs\<rparr>, h)
      else
        let out = one_sided_banner clients ops warmup_count key_count simulate_metadata @ [''  measuring...'' @ [NL]];
            wall_start = clock h
        in do {
          (results, h) \<leftarrow> run_all (V, K, clock)
             (one_sided_thread R stacks host port device_name (unat key_count) simulate_metadata)
             (worker_jobs (unat clients) (unat ops) (unat warmup_count)) h;
          let s = sum_results results;
              f = make_figures F (one_sided_percentile F) (clock h - wall_start) ops (latencies_us s);
              fs = (if csv_path = [] then fs
                    else write_csv_row csv_path F host port clients ops key_count warmup_count f s fs)
          in Some (\<lparr>b_ok = (measured_errors s = 0 \<and> warmup_errors s = 0), b_totals = s,
               b_out = out @ report_lines one_sided_labels F f s @ csv_notice csv_path, b_files = fs\<rparr>, h)
        })"

subsection \<open>Options and \<open>main\<close>\<close>

record 'd client_options =
  co_host :: string
  co_port :: u16
  co_one_sided :: bool
  co_device :: "string option"
  co_benchmark :: bool
  co_ops :: u64
  co_warmup :: u64
  co_keys :: u64
  co_clients :: u64
  co_value_size :: u64
  co_get_ratio :: 'd
  co_zipf_s :: 'd
  co_prefill :: bool
  co_metadata :: bool
  co_csv :: string

definition client_defaults :: "'d fp \<Rightarrow> 'd client_options" where
  "client_defaults F = \<lparr>co_host = ''localhost'', co_port = 9091, co_one_sided = False, co_device = None,
     co_benchmark = False, co_ops = 10000, co_warmup = 1000, co_keys = 1024, co_clients = 1, co_value_size = 64,
     co_get_ratio = fp_literal F ''0.95'', co_zipf_s = fp_literal F ''0.8'', co_prefill = True, co_metadata = False,
     co_csv = []\<rparr>"

definition client_flag :: "string \<Rightarrow> 'd client_options \<Rightarrow> 'd client_options" where
  "client_flag arg opts =
     (if arg = ''--benchmark'' then opts\<lparr>co_benchmark := True\<rparr>
      else if arg = ''--no-prefill'' then opts\<lparr>co_prefill := False\<rparr>
      else if arg = ''--metadata'' then opts\<lparr>co_metadata := True\<rparr>
      else opts)"

text \<open>An option with a value; \<open>None\<close> when \<open>arg\<close> is none.\<close>

definition client_value_option :: "'d fp \<Rightarrow> string \<Rightarrow> string \<Rightarrow> 'd client_options \<Rightarrow> (string + 'd client_options) option" where
  "client_value_option F arg val opts =
     (let number = (\<lambda>upd. case stoul val of Inl e \<Rightarrow> Inl e | Inr n \<Rightarrow> Inr (upd n));
          dbl = (\<lambda>upd. case fp_stod F val of Inl e \<Rightarrow> Inl e | Inr x \<Rightarrow> Inr (upd x)) in
      if arg = ''--host'' then Some (Inr (opts\<lparr>co_host := val\<rparr>))
      else if arg = ''--port'' then Some (case stoi val of Inl e \<Rightarrow> Inl e | Inr n \<Rightarrow> Inr (opts\<lparr>co_port := to_port n\<rparr>))
      else if arg = ''--mode'' then Some (Inr (opts\<lparr>co_one_sided := (val = ''one-sided'')\<rparr>))
      else if arg = ''--device'' then Some (Inr (opts\<lparr>co_device := Some val\<rparr>))
      else if arg = ''--ops'' then Some (number (\<lambda>n. opts\<lparr>co_ops := n\<rparr>))
      else if arg = ''--warmup'' then Some (number (\<lambda>n. opts\<lparr>co_warmup := n\<rparr>))
      else if arg = ''--keys'' then Some (number (\<lambda>n. opts\<lparr>co_keys := n\<rparr>))
      else if arg = ''--clients'' then Some (number (\<lambda>n. opts\<lparr>co_clients := n\<rparr>))
      else if arg = ''--value-size'' then Some (number (\<lambda>n. opts\<lparr>co_value_size := n\<rparr>))
      else if arg = ''--get-ratio'' then Some (dbl (\<lambda>x. opts\<lparr>co_get_ratio := x\<rparr>))
      else if arg = ''--zipf-s'' then Some (dbl (\<lambda>x. opts\<lparr>co_zipf_s := x\<rparr>))
      else if arg = ''--csv'' then Some (Inr (opts\<lparr>co_csv := val\<rparr>))
      else None)"

fun parse_client_options :: "'d fp \<Rightarrow> string list \<Rightarrow> 'd client_options \<Rightarrow> string + 'd client_options" where
  "parse_client_options F [] opts = Inr opts"
| "parse_client_options F [arg] opts = Inr (client_flag arg opts)"
| "parse_client_options F (arg # val # rest) opts =
     (case client_value_option F arg val opts of
        Some (Inl e) \<Rightarrow> Inl e
      | Some (Inr opts) \<Rightarrow> parse_client_options F rest opts
      | None \<Rightarrow> parse_client_options F (val # rest) (client_flag arg opts))"

text \<open>\<open>main\<close>, for \<open>argv\<close> without the program name: the exit status, what is printed, the files, the world.\<close>

definition client_benchmark :: "'n verbs \<Rightarrow> 'n host kernel \<Rightarrow> ('n host \<Rightarrow> int) \<Rightarrow> ('g, 'd) rng \<Rightarrow> 'd fp \<Rightarrow> ('n machine, 'n host) workers
    \<Rightarrow> stack \<Rightarrow> (nat \<Rightarrow> stack) \<Rightarrow> 'd client_options \<Rightarrow> files \<Rightarrow> 'n host \<Rightarrow> (bench \<times> 'n host) option" where
  "client_benchmark V K clock R F run_all own stacks opts fs h =
     (if \<not> co_one_sided opts then
        run_two_sided_benchmark V K clock R F run_all own stacks (co_host opts) (co_port opts) (co_device opts) (co_clients opts)
          (co_ops opts) (co_warmup opts) (co_keys opts) (co_value_size opts) (co_get_ratio opts) (co_zipf_s opts) (co_prefill opts)
          (co_csv opts) fs h
      else
        run_one_sided_benchmark V K clock R F run_all stacks (co_host opts) (co_port opts) (co_device opts) (co_clients opts)
          (co_ops opts) (co_warmup opts) (co_keys opts) (co_metadata opts) (co_csv opts) fs h)"

definition rdma_client_main :: "'n verbs \<Rightarrow> 'n host kernel \<Rightarrow> ('n host \<Rightarrow> int) \<Rightarrow> ('g, 'd) rng \<Rightarrow> 'd fp \<Rightarrow> ('n machine, 'n host) workers
    \<Rightarrow> stack \<Rightarrow> (nat \<Rightarrow> stack) \<Rightarrow> string list \<Rightarrow> string list \<Rightarrow> files \<Rightarrow> 'n host
    \<Rightarrow> (exit_status \<times> string list \<times> files \<times> 'n host) option" where
  "rdma_client_main V K clock R F run_all own stacks argv stdin fs h =
     (case parse_client_options F argv (client_defaults F) of
        Inl e \<Rightarrow> Some (Uncaught e, [], fs, h)
      | Inr opts \<Rightarrow>
          if co_benchmark opts then do {
            (b, h) \<leftarrow> client_benchmark V K clock R F run_all own stacks opts fs h;
            Some (if b_ok b then EXIT_SUCCESS else EXIT_FAILURE, b_out b, b_files b, h)
          }
          else do {
            (info, c, h) \<leftarrow> connect_rdma_session V K (co_host opts) (co_port opts) (co_device opts)
               (RdmaContext_default (st_send own) (st_recv own)) h;
            case info of
              None \<Rightarrow> Some (EXIT_FAILURE, [], fs, leave V c h)
            | Some info \<Rightarrow>
                if co_one_sided opts \<and> (qi_addr info = 0 \<or> qi_num_slots info \<noteq> of_nat RDMA_NUM_SLOTS)
                then Some (EXIT_FAILURE, [], fs, leave V c h)
                else do {
                  (out, c, h) \<leftarrow> (if co_one_sided opts then run_one_sided_interactive V info (st_slot own) (st_atomic own) stdin c h
                                 else run_two_sided V stdin c h);
                  Some (EXIT_SUCCESS, out, fs, leave V c h)
                }
          })"

end
