(* ===== verification/BenchmarkLaws.thy ===== *)
theory BenchmarkLaws
  imports RdmaClientLaws RdmaReport
begin

section \<open>What the benchmark counts\<close>

text \<open>
  Every operation of a worker of \<open>src/client/rdma_client.cpp\<close> is counted once, as a success or an
  error, on any link; the shares of the workers add up; the commands fit the message buffers; and
  on a reliable link to the two-sided server every operation is a success.
\<close>

subsection \<open>Counting\<close>

definition grows :: "bool \<Rightarrow> nat \<Rightarrow> BenchmarkResult \<Rightarrow> BenchmarkResult \<Rightarrow> bool" where
  "grows measured n r r' \<longleftrightarrow>
     measured_ok_responses r' + measured_errors r' = measured_ok_responses r + measured_errors r + (if measured then n else 0)
   \<and> warmup_ok_responses r' + warmup_errors r' = warmup_ok_responses r + warmup_errors r + (if measured then 0 else n)
   \<and> length (latencies_us r') = length (latencies_us r) + (if measured then n else 0)"

lemma grows_0 [simp]: "grows measured 0 r r"
  by (simp add: grows_def)

lemma grows_tally: "grows measured (Suc 0) r (tally measured valid x r)"
  by (simp add: grows_def tally_def)

lemma grows_trans: "grows measured m r s \<Longrightarrow> grows measured n s t \<Longrightarrow> grows measured (m + n) r t"
  by (simp add: grows_def)

lemma two_sided_phase_grows:
  "two_sided_phase V clock R F job measured is g r c h = Some (g', r', c', h') \<Longrightarrow> grows measured (length is) r r'"
proof (induction "is" arbitrary: g r c h)
  case (Cons i "is")
  obtain do_get k g1 where p: "pick_op R F job g = (do_get, k, g1)" by (cases "pick_op R F job g") auto
  obtain resp c1 h1 where
    rest: "two_sided_phase V clock R F job measured is g1 (tally measured (valid_response do_get resp) (micros (clock h1 - clock h)) r) c1 h1
      = Some (g', r', c', h')"
    using Cons.prems by (auto simp: p Let_def split: bind_splits)
  from grows_trans [OF grows_tally Cons.IH [OF this]] show ?case by simp
qed simp

lemma one_sided_phase_grows:
  "one_sided_phase V clock R info ls sl ar al keys meta measured n g r c h = Some (g', r', c', h') \<Longrightarrow> grows measured n r r'"
proof (induction n arbitrary: g r c h)
  case (Suc n)
  obtain k g1 where p: "rng_index R (keys - Suc 0) g = (k, g1)" by (cases "rng_index R (keys - Suc 0) g")
  obtain ok c1 h1 where
    rest: "one_sided_phase V clock R info ls sl ar al keys meta measured n g1 (tally measured ok (micros (clock h1 - clock h)) r) c1 h1
      = Some (g', r', c', h')"
    using Suc.prems by (auto simp: p Let_def split: bind_splits)
  from grows_trans [OF grows_tally Suc.IH [OF this]] show ?case by simp
qed simp

definition accounted :: "nat \<Rightarrow> nat \<Rightarrow> BenchmarkResult \<Rightarrow> bool" where
  "accounted n_ops n_warmup r \<longleftrightarrow>
     measured_ok_responses r + measured_errors r = n_ops \<and> warmup_ok_responses r + warmup_errors r = n_warmup
   \<and> measured_ok_responses r \<le> length (latencies_us r) \<and> length (latencies_us r) \<le> n_ops"

lemma accounted_failed: "accounted n_ops n_warmup (all_failed n_ops n_warmup empty_result)"
  by (simp add: accounted_def all_failed_def empty_result_def)

lemma accounted_phases:
  "grows False n_warmup empty_result r \<Longrightarrow> grows True n_ops r r' \<Longrightarrow> accounted n_ops n_warmup r'"
  by (simp add: accounted_def grows_def empty_result_def)

lemma two_sided_worker_accounted:
  "run_two_sided_worker V K clock R F host port dev job n_ops n_warmup sbuf rbuf h = Some (r, h') \<Longrightarrow>
     accounted n_ops n_warmup r"
  by (auto simp: run_two_sided_worker_def accounted_failed split: bind_splits option.splits
      dest!: two_sided_phase_grows)
    (metis accounted_phases)+

lemma one_sided_worker_accounted:
  "run_one_sided_worker V K clock R host port dev w n_ops n_warmup keys meta sbuf rbuf ls ar h = Some (r, h') \<Longrightarrow>
     accounted n_ops n_warmup r"
  by (auto simp: run_one_sided_worker_def accounted_failed Let_def split: bind_splits option.splits if_splits
      dest!: one_sided_phase_grows)
    (metis accounted_phases)+

subsection \<open>Shares and totals\<close>

lemma sum_worker_share: "0 < clients \<Longrightarrow> (\<Sum>i<clients. worker_share n clients i) = n"
proof -
  assume "0 < clients"
  then have m: "n mod clients \<le> clients" by (simp add: less_imp_le)
  have "(\<Sum>i<clients. if i < n mod clients then 1 else (0::nat)) = card {i. i < n mod clients}"
  proof -
    have "{..<clients} \<inter> {i. i < n mod clients} = {i. i < n mod clients}" using m by auto
    then show ?thesis by (subst sum.If_cases) simp_all
  qed
  then have "(\<Sum>i<clients. worker_share n clients i) = clients * (n div clients) + n mod clients"
    by (simp add: worker_share_def sum.distrib)
  then show ?thesis by simp
qed

lemma accounted_fold:
  assumes "list_all2 (\<lambda>(i, n, m) r. accounted n m r) jobs results" and "accounted a b s"
  shows "accounted (a + sum_list (map (\<lambda>(i, n, m). n) jobs)) (b + sum_list (map (\<lambda>(i, n, m). m) jobs))
    (fold (\<lambda>r s. add_result s r) results s)"
  using assms
proof (induction jobs results arbitrary: a b s rule: list_all2_induct)
  case (Cons job jobs r results)
  obtain i n m where job: "job = (i, n, m)" by (cases job)
  have "accounted (a + n) (b + m) (add_result s r)"
    using Cons.hyps(1) Cons.prems by (simp add: job accounted_def add_result_def)
  from Cons.IH [OF this] show ?case by (simp add: job add.assoc)
qed simp

lemma worker_jobs_total:
  assumes "0 < clients"
  shows "sum_list (map (\<lambda>(i, n, m). n) (worker_jobs clients n_ops n_warmup)) = n_ops"
    and "sum_list (map (\<lambda>(i, n, m). m) (worker_jobs clients n_ops n_warmup)) = n_warmup"
  using sum_worker_share [OF assms]
  by (simp_all add: worker_jobs_def comp_def interv_sum_list_conv_sum_set_nat atLeast0LessThan)

lemma accounted_sum_results:
  assumes "list_all2 (\<lambda>(i, n, m) r. accounted n m r) (worker_jobs clients n_ops n_warmup) results" and "0 < clients"
  shows "accounted n_ops n_warmup (sum_results results)"
proof -
  have empty: "accounted 0 0 empty_result" by (simp add: accounted_def empty_result_def)
  from accounted_fold [OF assms(1) empty] worker_jobs_total [OF assms(2), of n_ops n_warmup] show ?thesis
    by (simp add: sum_results_def Let_def accounted_def)
qed

text \<open>
  Threads store what their body returns: the result of every job is that of its body, run from some
  state of the world on some view of the machine. Of the view nothing is asked, so the steps of the
  other threads may come between any two of its calls, and may do anything to what it shares with
  them. A sequential run, and the same run on disturbed views, are instances.
\<close>

definition threads_run :: "('v, 'w) workers \<Rightarrow> bool" where
  "threads_run run_all \<longleftrightarrow> (\<forall>v body jobs h rs h'. run_all v body jobs h = Some (rs, h') \<longrightarrow>
     list_all2 (\<lambda>job r. \<exists>v' h0 h1. body v' job h0 = Some (r, h1)) jobs rs)"

lemma threads_runD:
  "threads_run run_all \<Longrightarrow> run_all v body jobs h = Some (rs, h') \<Longrightarrow>
     list_all2 (\<lambda>job r. \<exists>v' h0 h1. body v' job h0 = Some (r, h1)) jobs rs"
  unfolding threads_run_def by blast

fun one_by_one :: "('v, 'w) workers" where
  "one_by_one v body [] h = Some ([], h)"
| "one_by_one v body (job # jobs) h = do {
     (r, h) \<leftarrow> body v job h;
     (rs, h) \<leftarrow> one_by_one v body jobs h;
     Some (r # rs, h)
   }"

lemma threads_run_one_by_one: "threads_run one_by_one"
proof -
  have "list_all2 (\<lambda>job r. \<exists>v' h0 h1. body v' job h0 = Some (r, h1)) jobs rs"
    if "one_by_one v body jobs h = Some (rs, h')" for v body jobs h rs h'
    using that by (induction jobs arbitrary: h rs) (auto split: bind_splits, blast)
  then show ?thesis unfolding threads_run_def by blast
qed

lemma threads_run_disturbed: "threads_run run_all \<Longrightarrow> threads_run (\<lambda>v. run_all (disturb v))"
  unfolding threads_run_def by blast

subsection \<open>Figures\<close>

lemma length_zipf_cumulate: "length (zipf_cumulate F s w x is) = length is"
  by (induction "is" arbitrary: x) (simp_all add: Let_def)

lemma length_build_zipf_cdf: "length (build_zipf_cdf F n s) = n"
  by (simp add: build_zipf_cdf_def length_zipf_cumulate Let_def)

lemma last_build_zipf_cdf: "0 < n \<Longrightarrow> last (build_zipf_cdf F n s) = fp_literal F ''1.0''"
  by (simp add: build_zipf_cdf_def Let_def last_list_update length_zipf_cumulate flip: length_greater_0_conv)

lemma percentile_is_latency:
  assumes "latencies \<noteq> []"
  shows "two_sided_percentile F latencies frac \<in> fp_int F ` set latencies"
    and "one_sided_percentile F latencies frac \<in> fp_int F ` set latencies"
  using assms by (auto simp: two_sided_percentile_def one_sided_percentile_def Let_def length_greater_0_conv [symmetric]
      simp del: length_greater_0_conv intro!: imageI nth_mem)

subsection \<open>The commands\<close>

lemma length_to_string64: "n < 2 ^ 64 \<Longrightarrow> length (to_string n) \<le> 20"
  by (rule length_to_string_le) simp_all

lemma length_zero_padded64: "n < 2 ^ 64 \<Longrightarrow> length (zero_padded 8 n) \<le> 20"
  using length_to_string64 [of n] by (simp add: zero_padded_def)

lemma make_benchmark_key_eq: "n < 2 ^ 64 \<Longrightarrow> make_benchmark_key n = ''key_'' @ zero_padded 8 n"
  using length_zero_padded64 [of n] by (simp add: make_benchmark_key_def)

lemma digit_not_space: "is_digit c \<Longrightarrow> \<not> isspace c"
  by (auto simp: is_digit_def isspace_def)

lemma zero_padded_nonempty: "zero_padded w n \<noteq> []"
  by (simp add: zero_padded_def)

definition plain_key :: "string \<Rightarrow> bool" where
  "plain_key k \<longleftrightarrow> trimmed k \<and> SP \<notin> set k \<and> length k \<le> 24"

lemma plain_benchmark_key:
  assumes "n < 2 ^ 64"
  shows "plain_key (make_benchmark_key n)"
proof -
  note ds = zero_padded_digits [of 8 n]
  have "is_digit (last (zero_padded 8 n))" using ds zero_padded_nonempty [of 8 n] by simp
  then have "\<not> isspace (last (zero_padded 8 n))" by (rule digit_not_space)
  moreover have "SP \<notin> set (zero_padded 8 n)" using ds digit_free_chars by blast
  ultimately show ?thesis
    using length_zero_padded64 [OF assms] zero_padded_nonempty [of 8 n]
    by (simp add: plain_key_def make_benchmark_key_eq [OF assms] trimmed_def) (simp add: isspace_def)
qed

lemma length_make_value [simp]: "length (make_value n seed) = n"
  by (simp add: make_value_def)

lemma make_value_letter: "c \<in> set (make_value n seed) \<Longrightarrow> \<not> isspace c"
proof -
  assume "c \<in> set (make_value n seed)"
  then obtain x :: u64 where c: "c = char_of (97 + unat (x mod 26))" by (auto simp: make_value_def)
  have "unat (x mod 26) < 26" by (simp add: unat_mod)
  then have "(of_char c :: nat) = 97 + unat (x mod 26)" by (simp add: c)
  then show ?thesis by (auto simp: isspace_def)
qed

lemma trimmed_make_value: "0 < n \<Longrightarrow> trimmed (make_value n seed)"
  using make_value_letter [of "hd (make_value n seed)" n seed] make_value_letter [of "last (make_value n seed)" n seed]
    length_make_value [of n seed]
  by (metis hd_in_set last_in_set length_0_conv less_irrefl trimmed_def)

lemma serve_get_line:
  assumes "plain_key key"
  shows "serve_line kvs (''GET '' @ key)
     = (case kv_get key kvs of Some v \<Rightarrow> ''VALUE '' @ v @ [NL] | None \<Rightarrow> ''NOT_FOUND'' @ [NL], False, kvs)"
proof -
  let ?r = "default_request\<lparr>req_type := Get, req_key := key\<rparr>"
  have "wf_request ?r" using assms by (simp add: wf_request.simps plain_key_def)
  from parse_print [OF this] have parse: "parse_request (''GET '' @ key) = ?r" by (simp add: print_request.simps)
  show ?thesis
    by (simp add: serve_line_def handle_request_def parse [simplified] serialize_response_def Let_def split: option.split)
qed

lemma serve_set_line:
  assumes "plain_key key" and "0 < n"
  obtains kvs1 where "serve_line kvs (''SET '' @ key @ '' '' @ make_value n seed) = (''OK'' @ [NL], False, kvs1)"
proof -
  let ?r = "default_request\<lparr>req_type := Set, req_key := key, req_value := make_value n seed\<rparr>"
  have "wf_request ?r" using assms trimmed_make_value [of n seed] by (simp add: wf_request.simps plain_key_def trimmed_def)
  from parse_print [OF this] have parse: "parse_request (''SET '' @ key @ '' '' @ make_value n seed) = ?r"
    by (simp add: print_request.simps)
  have "\<exists>kvs1. serve_line kvs (''SET '' @ key @ '' '' @ make_value n seed) = (''OK'' @ [NL], False, kvs1)"
    by (simp add: parse [simplified] serve_line_def handle_request_def serialize_response_def Let_def)
  with that show thesis by blast
qed

lemma serve_get_valid:
  assumes "plain_key key"
  shows "\<exists>r kvs1. serve_line kvs (''GET '' @ key) = (r, False, kvs1) \<and> valid_response True (Some (strip_line_end (take RDMA_MSG_SIZE r)))"
proof -
  have shown: "response_starts_with (strip_line_end (take RDMA_MSG_SIZE (''VALUE '' @ v @ [NL]))) ''VALUE ''" for v
  proof -
    define rest where "rest = take (RDMA_MSG_SIZE - 6) (v @ [NL])"
    have cut: "take RDMA_MSG_SIZE (''VALUE '' @ v @ [NL]) = ''VALUE '' @ rest"
      by (simp add: rest_def RDMA_MSG_SIZE_def)
    have eq: "strip_line_end (''VALUE '' @ rest) = ''VALUE '' @ strip_line_end rest"
      by (simp add: strip_line_end_def dropWhile_append)
    show ?thesis unfolding cut eq by (simp add: response_starts_with_def)
  qed
  show ?thesis
  proof (cases "kv_get key kvs")
    case None
    then show ?thesis
      using serve_get_line [OF assms, of kvs] by (simp add: valid_response_def strip_line_end_def RDMA_MSG_SIZE_def)
  next
    case (Some v)
    then show ?thesis using serve_get_line [OF assms, of kvs] shown [of v] by (simp add: valid_response_def)
  qed
qed

lemma serve_set_valid:
  assumes "plain_key key" and "0 < n"
  shows "\<exists>r kvs1. serve_line kvs (''SET '' @ key @ '' '' @ make_value n seed) = (r, False, kvs1)
     \<and> strip_line_end (take RDMA_MSG_SIZE r) = ''OK''"
  by (rule serve_set_line [OF assms, of kvs seed]) (auto simp: strip_line_end_def RDMA_MSG_SIZE_def)

definition job_ok :: "'d two_sided_job \<Rightarrow> bool" where
  "job_ok job \<longleftrightarrow> job_keys job \<noteq> [] \<and> (\<forall>k\<in>set (job_keys job). plain_key k) \<and> length (job_cdf job) = length (job_keys job)
     \<and> 0 < job_value_size job \<and> job_value_size job + 128 \<le> RDMA_MSG_SIZE"

text \<open>The documented range of \<open>uniform_int_distribution\<close>.\<close>

definition rng_in_range :: "('g, 'd) rng \<Rightarrow> bool" where
  "rng_in_range R \<longleftrightarrow> (\<forall>n g. fst (rng_index R n g) \<le> n)"

lemma sample_key_in_range: "zipf_cdf \<noteq> [] \<Longrightarrow> fst (sample_key R F g zipf_cdf) < length zipf_cdf"
  using length_takeWhile_le [of "\<lambda>x. fp_less F x (fst (rng_unit R g))" zipf_cdf]
  by (auto simp: sample_key_def Let_def le_less split: prod.split)

lemma pick_op_in_range:
  assumes "rng_in_range R" and keys: "job_keys job \<noteq> []" "length (job_cdf job) = length (job_keys job)"
    and "pick_op R F job g = (do_get, k, g')"
  shows "k < length (job_keys job)"
proof -
  have pos: "0 < length (job_keys job)" using keys by simp
  have "fst (sample_key R F g1 (job_cdf job)) < length (job_keys job)" for g1
    using sample_key_in_range [of "job_cdf job"] keys by fastforce
  moreover have "fst (rng_index R (length (job_keys job) - 1) g1) < length (job_keys job)" for g1
    using assms(1) pos unfolding rng_in_range_def by (metis Suc_pred' le_imp_less_Suc diff_Suc_1)
  ultimately show ?thesis
    using assms(4) by (auto simp: pick_op_def Let_def split: prod.splits if_splits) (metis fst_conv)+
qed

lemma command_served:
  assumes "rng_in_range R" and job: "job_ok job" and pick: "pick_op R F job g = (do_get, k, g')"
  shows "length (benchmark_command job do_get k i) < RDMA_MSG_SIZE"
    and "\<exists>r kvs1. serve_line kvs (benchmark_command job do_get k i) = (r, False, kvs1)
       \<and> valid_response do_get (Some (strip_line_end (take RDMA_MSG_SIZE r)))"
proof -
  have "job_keys job ! k \<in> set (job_keys job)" using pick_op_in_range [OF assms(1) _ _ pick] job by (simp add: job_ok_def)
  then have key: "plain_key (job_keys job ! k)" and n: "0 < job_value_size job" "job_value_size job + 128 \<le> RDMA_MSG_SIZE"
    using job by (simp_all add: job_ok_def)
  show "length (benchmark_command job do_get k i) < RDMA_MSG_SIZE"
    using key n by (simp add: benchmark_command_def plain_key_def RDMA_MSG_SIZE_def Let_def)
  show "\<exists>r kvs1. serve_line kvs (benchmark_command job do_get k i) = (r, False, kvs1)
       \<and> valid_response do_get (Some (strip_line_end (take RDMA_MSG_SIZE r)))"
  proof (cases do_get)
    case True
    then show ?thesis using serve_get_valid [OF key, of kvs] by (simp add: benchmark_command_def)
  next
    case False
    then show ?thesis
      using serve_set_valid [OF key n(1), of kvs "of_nat (job_worker job) * 1315423911 + of_nat i"]
      by (auto simp: benchmark_command_def valid_response_def)
  qed
qed

subsection \<open>On a reliable link every operation succeeds\<close>

definition grows_ok :: "bool \<Rightarrow> nat \<Rightarrow> BenchmarkResult \<Rightarrow> BenchmarkResult \<Rightarrow> bool" where
  "grows_ok measured n r r' \<longleftrightarrow> grows measured n r r' \<and> measured_errors r' = measured_errors r \<and> warmup_errors r' = warmup_errors r"

lemma grows_ok_tally: "valid \<Longrightarrow> grows_ok measured (Suc 0) r (tally measured valid x r)"
  by (simp add: grows_ok_def grows_tally) (simp add: tally_def)

lemma grows_ok_trans: "grows_ok measured m r s \<Longrightarrow> grows_ok measured n s t \<Longrightarrow> grows_ok measured (m + n) r t"
  using grows_trans by (auto simp: grows_ok_def)

context reliable_link
begin

lemma two_sided_phase_succeeds:
  assumes far: "react = server_reply kvs0" and R: "rng_in_range R" and job: "job_ok job"
    and "served_ready qp cq lks good view kvs0 kvs c h"
  shows "\<exists>g' r' c' h' kvs'. two_sided_phase V clock R F job measured js g r c h = Some (g', r', c', h')
     \<and> grows_ok measured (length js) r r' \<and> served_ready qp cq lks good view kvs0 kvs' c' h'"
  using assms(4)
proof (induction js arbitrary: g r kvs c h)
  case Nil
  then show ?case by (auto simp: grows_ok_def)
next
  case (Cons i js)
  obtain do_get k g1 where p: "pick_op R F job g = (do_get, k, g1)" by (cases "pick_op R F job g") auto
  let ?cmd = "benchmark_command job do_get k i"
  note short = command_served(1) [OF R job p, of i]
  obtain x kvs1 where line: "serve_line kvs ?cmd = (x, False, kvs1)"
    and valid: "valid_response do_get (Some (strip_line_end (take RDMA_MSG_SIZE x)))"
    using command_served(2) [OF R job p, of kvs i] by blast
  have ready: "client_ready qp cq lks good view c h" using Cons.prems by (simp add: served_ready_def)
  note step = served_step [OF far Cons.prems, of ?cmd, unfolded line_received_short [OF short], OF line]
  obtain c1 h1 where one: "two_sided_request_response V ?cmd c h = Some (Some (strip_line_end (take RDMA_MSG_SIZE x)), c1, h1)"
    "client_ready qp cq lks good view c1 h1" "outbox (view h1) = outbox (view h) @ [take RDMA_MSG_SIZE (?cmd @ [NL])]"
    by (rule request_answered [OF ready step(1)]) simp
  have "served_ready qp cq lks good view kvs0 kvs1 c1 h1" using step(2) one by blast
  from Cons.IH [OF this, of g1 "tally measured True (micros (clock h1 - clock h)) r"]
  obtain g' r' c' h' kvs' where rest: "two_sided_phase V clock R F job measured js g1 (tally measured True (micros (clock h1 - clock h)) r) c1 h1
      = Some (g', r', c', h')" "grows_ok measured (length js) (tally measured True (micros (clock h1 - clock h)) r) r'"
    "served_ready qp cq lks good view kvs0 kvs' c' h'" by blast
  have "grows_ok measured (Suc 0 + length js) r r'"
    by (rule grows_ok_trans [OF grows_ok_tally rest(2)]) simp
  with rest one valid show ?case by (auto simp: p)
qed

end

text \<open>Examples: a double type with a single value, and numbers in turn.\<close>

definition unit_fp :: "unit fp" where
  "unit_fp = \<lparr>fp_literal = (\<lambda>s. ()), fp_stod = (\<lambda>s. Inr ()), fp_show = (\<lambda>x. ''0''), fp_less = (\<lambda>x y. False),
     fp_int = (\<lambda>i. ()), fp_add = (\<lambda>x y. ()), fp_mult = (\<lambda>x y. ()), fp_div = (\<lambda>x y. ()), fp_pow = (\<lambda>x y. ()),
     fp_floor = (\<lambda>x. ()), fp_truncate = (\<lambda>x. 0), fp_seconds = (\<lambda>n. ())\<rparr>"

definition unit_rng :: "(nat, unit) rng" where
  "unit_rng = \<lparr>rng_seed = (\<lambda>s. unat s), rng_unit = (\<lambda>g. ((), g + 1)), rng_index = (\<lambda>n g. (g mod (n + 1), g + 1))\<rparr>"

end
