(* ===== verification/RdmaClientProps.thy ===== *)
theory RdmaClientProps
  imports BenchmarkLaws RdmaServerProps OneSidedPrompt
begin

section \<open>Properties of the RDMA client\<close>

text \<open>
  The two-sided prompt against the two-sided server, the connection helper, and the benchmark's
  counts, commands and CSV rows (\<open>src/client/rdma_client.cpp\<close>).
\<close>

subsection \<open>The prompt\<close>

text \<open>
  C15: Over a reliable link to the two-sided server, what the interactive client shows for any lines
  typed: for each one the server's response (cut at 4096 bytes) to the line it receives, which is the
  line typed or, when that has no room for its newline, its first 4096 bytes, the server's table
  evolving as under the TCP server's request handling; the two completions of a request may come in
  either order. The client stops at the end of input or after the first response that contains
  \<open>BYE\<close>, which every \<open>QUIT\<close> yields, but also any stored value with these letters.
\<close>
theorem two_sided_prompt_shows_server_answers:
  assumes "reliable_link V qp cq lks (server_reply kvs) good link" and "endpoint qp cq lks c" and "good h"
    and "link h = \<lparr>inbox = [], outbox = [], recvs = [], pending_sends = 0\<rparr>"
  shows "\<exists>c' h'. run_two_sided V stdin c h =
     Some ([''Connected (two-sided RDMA).'' @ [NL], ''Commands: GET <k>  SET <k> <v>  DEL <k>  QUIT'' @ [NL]]
           @ two_sided_transcript kvs stdin, c', h')"
proof -
  have "served_ready qp cq lks good link kvs kvs c h"
    using assms(2-4) by (simp add: served_ready_def client_ready_def idle_link_def ends_session_def)
  then show ?thesis
    unfolding run_two_sided_def by (rule reliable_link.run_two_sided_loop_transcript [OF assms(1) refl])
qed

lemma lnk_host_idle: "lnk_view (lnk_host [] bytes) = \<lparr>inbox = [], outbox = [], recvs = [], pending_sends = 0\<rparr>"
  by simp

theorem two_sided_prompt_shows_server_answers_witness:
  "\<exists>c' h'. run_two_sided (lnk_verbs (server_reply empty_store)) [''set a GOODBYE'', ''GET b'', [], ''GET a'', ''GET b''] lnk_ctx (lnk_host [] [])
     = Some ([''Connected (two-sided RDMA).'' @ [NL], ''Commands: GET <k>  SET <k> <v>  DEL <k>  QUIT'' @ [NL],
         ''> '', ''OK'' @ [NL, NL], ''> '', ''NOT_FOUND'' @ [NL, NL], ''> '', ''> '', ''VALUE GOODBYE'' @ [NL, NL]], c', h')"
proof -
  let ?stdin = "[''set a GOODBYE'', ''GET b'', [], ''GET a'', ''GET b'']"
  have shown: "two_sided_transcript empty_store ?stdin
     = [''> '', ''OK'' @ [NL, NL], ''> '', ''NOT_FOUND'' @ [NL, NL], ''> '', ''> '', ''VALUE GOODBYE'' @ [NL, NL]]"
    by code_simp
  show ?thesis
    using two_sided_prompt_shows_server_answers [OF lnk_reliable lnk_endpoint TrueI lnk_host_idle [of "[]"], where stdin = ?stdin and kvs = empty_store]
    unfolding shown by simp
qed

text \<open>
  C5: On a device that never fails, the one-sided prompt behaves as a map of at most 4096 keys to
  values with access counts, for every input in which no \<open>SET\<close> line carries a NUL byte: it shows, after
  the banner, exactly what the specification shows for the lines typed (the value of a \<open>GET\<close>; the value
  and the count before of a \<open>GET_META\<close>, which counts one access; \<open>OK\<close> or one of the three reasons for
  a \<open>SET\<close>, which keeps the count of a key it overwrites; \<open>NOT_FOUND\<close>; the parser's error text, empty
  for \<open>DEL\<close>), it ends at the end of input or a \<open>QUIT\<close>, and the server's table, which no server thread
  touches, is well-formed and holds what the specification holds, counts included.
\<close>
theorem one_sided_prompt_is_bounded_map:
  assumes "one_sided_session V c info lks remote idle" and "session_never_fails V c info lks idle"
    and "registers V c lks remote idle" and "8 dvd unat (qi_addr info)" and "misses local slot_size atomic 8"
    and "idle h" and "store_inv (exported info (remote h))"
    and "\<forall>line\<in>set stdin. req_type (parse_request line) = Set \<longrightarrow> NUL \<notin> set line"
  shows "\<exists>h'. run_one_sided_interactive V info local atomic stdin c h
         = Some (prompt_banner info @ fst (prompt_session (counted_map (exported info (remote h))) stdin), c, h')
     \<and> store_inv (exported info (remote h'))
     \<and> counted_map (exported info (remote h')) = snd (prompt_session (counted_map (exported info (remote h))) stdin)
     \<and> rdma_map (exported info (remote h')) = (\<lambda>k. map_option fst (counted_map (exported info (remote h')) k))"
  using interactive_refines [OF assms] by (simp add: counted_map_fst)

lemma sim_session_any:
  "one_sided_session sim_verbs sim_ctx zero_info UNIV (\<lambda>h. sim_remote (nic h)) sim_idle"
  "session_never_fails sim_verbs sim_ctx zero_info UNIV sim_idle"
  "registers sim_verbs sim_ctx UNIV (\<lambda>h. sim_remote (nic h)) sim_idle"
  by (simp_all add: one_sided_session_def session_never_fails_def sim_data_path sim_never_fails)
    (simp_all add: sim_ctx_def registers_def sim_verbs_def sim_new_def sim_add_def sim_drop_def sim_idle_def Let_def)

lemma example_parses:
  "parse_request ''GET a'' = default_request\<lparr>req_type := Get, req_key := ''a''\<rparr>"
  "parse_request ''SET a 1'' = default_request\<lparr>req_type := Set, req_key := ''a'', req_value := ''1''\<rparr>"
  "parse_request ''SET a 2'' = default_request\<lparr>req_type := Set, req_key := ''a'', req_value := ''2''\<rparr>"
  "parse_request ''DEL a'' = default_request\<lparr>req_type := Del, req_key := ''a''\<rparr>"
  by code_simp+

lemma example_counts: "to_string 0 = ''0''" "to_string (Suc 0) = ''1''" by code_simp+

theorem one_sided_prompt_is_bounded_map_witness:
  "\<exists>h'. run_one_sided_interactive sim_verbs zero_info 65536 0
         [''GET a'', ''SET a 1'', [], ''GET_META a'', ''SET a 2'', ''GET_META a'', ''DEL a''] sim_ctx (sim_peer (\<lambda>_. NUL))
       = Some (prompt_banner zero_info @ [''> '', ''NOT_FOUND'' @ [NL], ''> '', ''OK'' @ [NL], ''> '',
           ''> '', ''VALUE 1'' @ [NL], ''  [access_count was 0]'' @ [NL], ''> '', ''OK'' @ [NL],
           ''> '', ''VALUE 2'' @ [NL], ''  [access_count was 1]'' @ [NL], ''> '', ''ERROR '' @ [NL], ''> ''], sim_ctx, h')
     \<and> counted_map (exported zero_info (sim_remote (nic h'))) = [''a'' \<mapsto> (''2'', 2)]"
proof -
  let ?stdin = "[''GET a'', ''SET a 1'', [], ''GET_META a'', ''SET a 2'', ''GET_META a'', ''DEL a'']"
  have al: "8 dvd unat (qi_addr zero_info)" by (simp add: zero_info_def)
  have inv: "store_inv (exported zero_info (sim_remote (nic (sim_peer (\<lambda>_. NUL)))))"
    by (simp add: zero_mem_exported store_inv_init)
  have lines: "\<forall>line\<in>set ?stdin. req_type (parse_request line) = Set \<longrightarrow> NUL \<notin> set line" by simp
  have shown: "prompt_session Map.empty ?stdin = ([''> '', ''NOT_FOUND'' @ [NL], ''> '', ''OK'' @ [NL], ''> '',
           ''> '', ''VALUE 1'' @ [NL], ''  [access_count was 0]'' @ [NL], ''> '', ''OK'' @ [NL],
           ''> '', ''VALUE 2'' @ [NL], ''  [access_count was 1]'' @ [NL], ''> '', ''ERROR '' @ [NL], ''> ''], [''a'' \<mapsto> (''2'', 2)])"
    by (simp add: prompt_session.simps(2) example_parses counted_set_def bounded_set_def rdma_sizes Let_def example_counts)
  show ?thesis
    using one_sided_prompt_is_bounded_map [OF sim_session_any al sim_buffers sim_peer(2) inv lines]
    by (auto simp: zero_mem_exported counted_map_init shown)
qed

subsection \<open>Connecting\<close>

lemma tcp_candidates_eq: "tcp_candidates K cands (-1) w = try_candidates K cands (-1) w"
proof -
  have "tcp_candidates K cands fd w = try_candidates K cands fd w" for fd
    by (induction cands arbitrary: fd w) (auto simp: close_socket_def split: prod.split)
  then show ?thesis .
qed

text \<open>
  The RDMA client's connection helper is the TCP client's: on every kernel both make the same
  calls with the same results, so the guarantees of \<open>create_client_socket\<close> (the first reachable
  address wins, nothing leaks) hold for the side channel too.
\<close>
theorem tcp_connect_is_create_client_socket:
  "tcp_connect K host port w = create_client_socket K host port w"
  by (simp add: tcp_connect_def create_client_socket_def tcp_candidates_eq Let_def cong: if_cong)

subsection \<open>The benchmark\<close>

lemma totals_accounted:
  assumes "threads_run run_all" and "run_all v body (worker_jobs (unat clients) (unat n_ops) (unat n_warmup)) h = Some (rs, h')"
    and "clients \<noteq> (0 :: u64)" and "\<And>v i n m h0 r h1. body v (i, n, m) h0 = Some (r, h1) \<Longrightarrow> accounted n m r"
  shows "accounted (unat n_ops) (unat n_warmup) (sum_results rs) \<and> sorted (latencies_us (sum_results rs))"
proof -
  have "list_all2 (\<lambda>(i, n, m) r. accounted n m r) (worker_jobs (unat clients) (unat n_ops) (unat n_warmup)) rs"
    by (rule list_all2_mono [OF threads_runD [OF assms(1,2)]]) (auto dest: assms(4))
  then have "accounted (unat n_ops) (unat n_warmup) (sum_results rs)"
    by (rule accounted_sum_results) (simp add: assms(3) unat_gt_0)
  then show ?thesis by (simp add: sum_results_def Let_def)
qed

lemma two_sided_benchmark_accounted:
  assumes "threads_run run_all" and bench: "run_two_sided_benchmark V K clock R F run_all own stacks host port device_name clients n_ops n_warmup key_count
              value_size get_ratio zipf_s prefill csv_path fs h = Some (b, h')" and ok: "b_ok b"
  shows "accounted (unat n_ops) (unat n_warmup) (b_totals b) \<and> sorted (latencies_us (b_totals b))"
proof -
  obtain h1 rs h2 keys cdf where pos: "clients \<noteq> 0" and s: "b_totals b = sum_results rs"
    and run: "run_all (V, K, clock) (two_sided_thread R F stacks host port device_name keys cdf (unat value_size) get_ratio zipf_s)
       (worker_jobs (unat clients) (unat n_ops) (unat n_warmup)) h1 = Some (rs, h2)"
    using bench ok by (auto simp: run_two_sided_benchmark_def two_sided_args_ok_def Let_def split: if_splits bind_splits)
  show ?thesis unfolding s
    by (rule totals_accounted [OF assms(1) run pos]) (auto simp: two_sided_thread_def dest: two_sided_worker_accounted)
qed

lemma one_sided_benchmark_accounted:
  assumes "threads_run run_all" and bench: "run_one_sided_benchmark V K clock R F run_all stacks host port device_name clients n_ops n_warmup key_count
              simulate_metadata csv_path fs h = Some (b, h')"
    and args: "one_sided_args_ok clients n_ops key_count"
  shows "accounted (unat n_ops) (unat n_warmup) (b_totals b) \<and> sorted (latencies_us (b_totals b))
    \<and> b_ok b = (measured_ok_responses (b_totals b) = unat n_ops \<and> warmup_ok_responses (b_totals b) = unat n_warmup)"
proof -
  obtain h1 rs h2 where pos: "clients \<noteq> 0" and s: "b_totals b = sum_results rs"
    and ok: "b_ok b = (measured_errors (b_totals b) = 0 \<and> warmup_errors (b_totals b) = 0)"
    and run: "run_all (V, K, clock) (one_sided_thread R stacks host port device_name (unat key_count) simulate_metadata)
       (worker_jobs (unat clients) (unat n_ops) (unat n_warmup)) h1 = Some (rs, h2)"
    using bench args by (auto simp: run_one_sided_benchmark_def one_sided_args_ok_def Let_def split: if_splits bind_splits)
  have "accounted (unat n_ops) (unat n_warmup) (b_totals b) \<and> sorted (latencies_us (b_totals b))" unfolding s
    by (rule totals_accounted [OF assms(1) run pos]) (auto simp: one_sided_thread_def dest: one_sided_worker_accounted)
  then show ?thesis by (auto simp: ok accounted_def)
qed

text \<open>
  C26: Both benchmarks account for every operation exactly once, whatever fails and whatever the
  threads do to each other: each thread may meet, at every call it makes, a world that the other
  threads have changed (\<open>threads_run\<close> asks only that a thread stores what its worker returns). Successes
  and errors add up to the number of operations asked for, those of the warm-up to the warm-up count,
  there is a latency for every success and none too many, the latencies are sorted, and the one-sided
  benchmark returns true exactly when every operation of both phases succeeded.
\<close>
theorem benchmark_counts_every_operation:
  assumes "threads_run run_all"
  shows "(\<forall>b h'. run_two_sided_benchmark V K clock R F run_all own stacks host port device_name clients n_ops n_warmup key_count
              value_size get_ratio zipf_s prefill csv_path fs h = Some (b, h') \<longrightarrow> b_ok b \<longrightarrow>
            accounted (unat n_ops) (unat n_warmup) (b_totals b) \<and> sorted (latencies_us (b_totals b)))
       \<and> (\<forall>b h'. run_one_sided_benchmark V K clock R F run_all stacks host port device_name clients n_ops n_warmup key_count
              simulate_metadata csv_path fs h = Some (b, h') \<longrightarrow> one_sided_args_ok clients n_ops key_count \<longrightarrow>
            accounted (unat n_ops) (unat n_warmup) (b_totals b) \<and> sorted (latencies_us (b_totals b))
            \<and> b_ok b = (measured_ok_responses (b_totals b) = unat n_ops \<and> warmup_ok_responses (b_totals b) = unat n_warmup))"
  by (intro conjI [OF allI [OF allI [OF impI [OF impI]]] allI [OF allI [OF impI [OF impI]]]])
    (rule two_sided_benchmark_accounted [OF assms] one_sided_benchmark_accounted [OF assms]; assumption)+

text \<open>A name service that knows no host.\<close>

definition deaf_kernel :: "lnk host kernel" where
  "deaf_kernel = lnk_kernel\<lparr>sys_getaddrinfo := (\<lambda>h p fam ty w. ((-2, []), w))\<rparr>"

definition example_stack :: stack where
  "example_stack = \<lparr>st_send = 4096, st_recv = 8192, st_slot = 16384, st_atomic = 20480\<rparr>"

definition example_files :: files where
  "example_files = \<lparr>file_contents = (\<lambda>p. None), can_append = (\<lambda>p. True)\<rparr>"

definition example_job :: "nat \<Rightarrow> unit two_sided_job" where
  "example_job i = \<lparr>job_keys = map make_benchmark_key [0..<2], job_cdf = [(), ()], job_worker = i, job_value_size = 3,
     job_get_ratio = (), job_zipf_s = ()\<rparr>"

lemma deaf_connect: "connect_rdma_session V deaf_kernel host port device_name c h = Some (None, c, h)"
  by (simp add: connect_rdma_session_def tcp_connect_def deaf_kernel_def)

lemma leave_default: "leave V (RdmaContext_default sbuf rbuf) h = h"
  by (rule leave_null) (rule default_null)

text \<open>
  A disturbed machine: before each call of a thread another one closes a descriptor of its own and
  receives a byte.
\<close>

definition others_step :: "lnk host \<Rightarrow> lnk host" where
  "others_step h = h\<lparr>nic := (nic h)\<lparr>closed_fds := closed_fds (nic h) @ [99], stream_in := stream_in (nic h) @ ''x''\<rparr>\<rparr>"

definition disturbed :: "lnk machine \<Rightarrow> lnk machine" where
  "disturbed = (\<lambda>(V, K, clock).
     (V\<lparr>ibv_post_recv := (\<lambda>q wr h. ibv_post_recv V q wr (others_step h)),
        ibv_post_send := (\<lambda>q wr h. ibv_post_send V q wr (others_step h)),
        ibv_poll_cq := (\<lambda>q h. ibv_poll_cq V q (others_step h))\<rparr>,
      K\<lparr>sys_getaddrinfo := (\<lambda>host p fam ty h. sys_getaddrinfo K host p fam ty (others_step h)),
        sys_read := (\<lambda>fd n h. sys_read K fd n (others_step h)),
        sys_write := (\<lambda>fd bs h. sys_write K fd bs (others_step h)),
        sys_close := (\<lambda>fd h. sys_close K fd (others_step h))\<rparr>,
      \<lambda>h. clock (others_step h)))"

theorem benchmark_counts_every_operation_witness:
  "\<exists>b h'. run_one_sided_benchmark (lnk_verbs (\<lambda>_ _. [])) deaf_kernel (\<lambda>h. 0) unit_rng unit_fp (\<lambda>v. one_by_one (disturbed v)) (\<lambda>i. example_stack)
        ''kv'' 9091 None 3 10 4 8 False [] example_files (lnk_host [] []) = Some (b, h')
     \<and> closed_fds (nic h') = [99, 99, 99] \<and> accounted 10 4 (b_totals b) \<and> \<not> b_ok b"
proof -
  let ?h = "lnk_host [] []" and ?run = "\<lambda>v. one_by_one (disturbed v) :: (lnk machine, lnk host) worker_body \<Rightarrow> _"
  have args: "one_sided_args_ok 3 10 8" by (simp add: one_sided_args_ok_def)
  have deaf: "connect_rdma_session (fst (disturbed (V, deaf_kernel, clock))) (fst (snd (disturbed (V, deaf_kernel, clock)))) host port dev c h
      = Some (None, c, others_step h)" for V clock host port dev c h
    by (simp add: disturbed_def connect_rdma_session_def tcp_connect_def deaf_kernel_def)
  obtain b where run: "run_one_sided_benchmark (lnk_verbs (\<lambda>_ _. [])) deaf_kernel (\<lambda>h. 0) unit_rng unit_fp ?run (\<lambda>i. example_stack)
        ''kv'' 9091 None 3 10 4 8 False [] example_files ?h = Some (b, others_step (others_step (others_step ?h)))"
    and err: "\<not> b_ok b"
    by (simp add: run_one_sided_benchmark_def args worker_jobs_def upt_rec one_sided_thread_def run_one_sided_worker_def deaf
        case_prod_unfold leave_default worker_share_def sum_results_def add_result_def all_failed_def empty_result_def Let_def)
  show ?thesis
    using benchmark_counts_every_operation [OF threads_run_disturbed [OF threads_run_one_by_one], THEN conjunct2, rule_format, OF run args]
      run err by (auto simp: others_step_def lnk_host_def)
qed

text \<open>
  Every index the benchmark computes from doubles and random numbers stays inside its array, whatever
  the doubles are: the cumulative distribution has an entry per key and ends with one, the key picked
  is one of the keys, and each percentile is one of the measured latencies. Of the random numbers only
  the documented range of \<open>uniform_int_distribution\<close> is used.
\<close>
theorem benchmark_indices_in_bounds:
  assumes "rng_in_range R" and "job_keys job \<noteq> []" and "job_cdf job = build_zipf_cdf F (length (job_keys job)) s"
    and "pick_op R F job g = (do_get, k, g')" and "latencies \<noteq> []"
  shows "k < length (job_keys job)
       \<and> length (job_cdf job) = length (job_keys job) \<and> last (job_cdf job) = fp_literal F ''1.0''
       \<and> two_sided_percentile F latencies frac \<in> fp_int F ` set latencies
       \<and> one_sided_percentile F latencies frac \<in> fp_int F ` set latencies"
  using pick_op_in_range [OF assms(1,2) _ assms(4)] assms(2,3) percentile_is_latency [OF assms(5), of F frac]
  by (simp add: length_build_zipf_cdf last_build_zipf_cdf)

theorem benchmark_indices_in_bounds_witness:
  "fst (snd (pick_op unit_rng unit_fp (example_job 1) 7)) < 2
   \<and> two_sided_percentile unit_fp [3, 5, 8] () \<in> fp_int unit_fp ` {3, 5, 8}"
proof -
  have R: "rng_in_range unit_rng" by (simp add: rng_in_range_def unit_rng_def)
  have keys: "job_keys (example_job 1) \<noteq> []"
    and cdf: "job_cdf (example_job 1) = build_zipf_cdf unit_fp (length (job_keys (example_job 1))) ()"
    by (simp_all add: example_job_def build_zipf_cdf_def upt_rec Let_def)
  have pick: "pick_op unit_rng unit_fp (example_job 1) 7 = (False, 0, 9)"
    by (simp add: pick_op_def unit_rng_def unit_fp_def example_job_def) presburger
  show ?thesis
    using benchmark_indices_in_bounds [OF R keys cdf pick, of "[3, 5, 8]" "()"] pick by (simp add: example_job_def)
qed

text \<open>
  On a reliable link to the two-sided server, a worker's measured phase succeeds on every
  operation whatever the random numbers and the table behind the server: as many successes and
  latencies as operations, no error. Every \<open>GET\<close> finds a value or \<open>NOT_FOUND\<close>, every \<open>SET\<close> is \<open>OK\<close>.
\<close>
theorem two_sided_worker_never_fails_on_reliable_link:
  assumes "reliable_link V qp cq lks (server_reply kvs) good link" and "endpoint qp cq lks c" and "good h"
    and "link h = \<lparr>inbox = [], outbox = [], recvs = [], pending_sends = 0\<rparr>"
    and "rng_in_range R" and "job_ok job"
  shows "\<exists>g' r' c' h'. two_sided_phase V clock R F job True [0..<n] g empty_result c h = Some (g', r', c', h')
       \<and> measured_ok_responses r' = n \<and> measured_errors r' = 0 \<and> length (latencies_us r') = n"
proof -
  have "served_ready qp cq lks good link kvs kvs c h"
    using assms(2-4) by (simp add: served_ready_def client_ready_def idle_link_def ends_session_def)
  from reliable_link.two_sided_phase_succeeds [OF assms(1) refl assms(5,6) this, where clock = clock and F = F and measured = True
      and js = "[0..<n]" and g = g and r = empty_result]
  show ?thesis by (auto simp: grows_ok_def grows_def empty_result_def)
qed

lemma example_job_ok: "job_ok (example_job i)"
  using plain_benchmark_key by (auto simp: job_ok_def example_job_def RDMA_MSG_SIZE_def)

theorem two_sided_worker_never_fails_on_reliable_link_witness:
  "\<exists>g' r' c' h'. two_sided_phase (lnk_verbs (server_reply empty_store)) (\<lambda>h. 0) unit_rng unit_fp (example_job 1) True [0..<5] 0
       empty_result lnk_ctx (lnk_host [] []) = Some (g', r', c', h')
     \<and> measured_ok_responses r' = 5 \<and> measured_errors r' = 0"
proof -
  have R: "rng_in_range unit_rng" by (simp add: rng_in_range_def unit_rng_def)
  show ?thesis
    using two_sided_worker_never_fails_on_reliable_link [OF lnk_reliable lnk_endpoint TrueI lnk_host_idle R example_job_ok,
        where n = 5 and g = 0 and clock = "\<lambda>h. 0" and F = unit_fp]
    by blast
qed

text \<open>
  C29: The argument check keeps the benchmark's commands inside the message buffers: with arguments it
  accepts, and as long as \<open>value_size + 128\<close> does not wrap, every command of every worker, newline
  included, has at most 4096 bytes, its keys are distinct single words, and nothing is cut on the way.
  The check itself adds in 64 bits: a value size within 128 of \<open>2 ^ 64\<close> passes it.
\<close>
theorem benchmark_commands_fit_messages:
  assumes "two_sided_args_ok F clients n_ops key_count value_size get_ratio zipf_s" and "unat value_size + 128 < 2 ^ 64"
    and "job_keys job = map make_benchmark_key [0..<unat key_count]" and "job_value_size job = unat value_size"
    and "k < unat key_count"
  shows "length (benchmark_command job do_get k i @ [NL]) \<le> RDMA_MSG_SIZE
       \<and> plain_key (job_keys job ! k) \<and> distinct (job_keys job)"
proof -
  have small: "unat value_size + 128 \<le> RDMA_MSG_SIZE"
  proof -
    have "value_size + 128 \<le> of_nat RDMA_MSG_SIZE" using assms(1) by (auto simp: two_sided_args_ok_def not_less)
    then have "unat (value_size + 128) \<le> unat (of_nat RDMA_MSG_SIZE :: u64)" by (simp add: word_le_nat_alt)
    moreover have "unat (value_size + 128) = unat value_size + 128" using assms(2) by (simp add: unat_word_ariths)
    ultimately show ?thesis by (simp add: RDMA_MSG_SIZE_def)
  qed
  have bound: "j < 2 ^ 64" if "j < unat key_count" for j using that unat_less64 [of key_count] by simp
  have key: "plain_key (job_keys job ! k)" using assms(3,5) plain_benchmark_key [OF bound [OF assms(5)]] by simp
  have "length (benchmark_command job do_get k i @ [NL]) \<le> RDMA_MSG_SIZE"
    using key small assms(4) by (simp add: benchmark_command_def plain_key_def RDMA_MSG_SIZE_def Let_def)
  moreover have "distinct (job_keys job)"
  proof -
    have "inj_on make_benchmark_key {0..<unat key_count}"
    proof (rule inj_onI)
      fix x y assume "x \<in> {0..<unat key_count}" "y \<in> {0..<unat key_count}" "make_benchmark_key x = make_benchmark_key y"
      then have "zero_padded 8 x = zero_padded 8 y" using make_benchmark_key_eq bound by simp
      then show "x = y" by (metis number_of_zero_padded)
    qed
    then show ?thesis by (simp add: assms(3) distinct_map)
  qed
  ultimately show ?thesis using key by blast
qed

theorem benchmark_commands_fit_messages_witness:
  "length (benchmark_command (\<lparr>job_keys = map make_benchmark_key [0..<2], job_cdf = [], job_worker = 0, job_value_size = 3968,
       job_get_ratio = (), job_zipf_s = ()\<rparr>) False 1 0 @ [NL]) \<le> 4096
   \<and> two_sided_args_ok unit_fp 1 1 2 (- 1) () ()"
proof -
  let ?job = "\<lparr>job_keys = map make_benchmark_key [0..<2], job_cdf = [], job_worker = 0, job_value_size = 3968,
       job_get_ratio = (), job_zipf_s = ()\<rparr>"
  have ok: "two_sided_args_ok unit_fp 1 1 2 3968 () ()" by (simp add: two_sided_args_ok_def unit_fp_def RDMA_MSG_SIZE_def)
  have wrap: "two_sided_args_ok unit_fp 1 1 2 (- 1) () ()" by (simp add: two_sided_args_ok_def unit_fp_def RDMA_MSG_SIZE_def)
  have facts: "unat (3968 :: u64) + 128 < 2 ^ 64" "job_keys ?job = map make_benchmark_key [0..<unat (2 :: u64)]"
    "job_value_size ?job = unat (3968 :: u64)" "1 < unat (2 :: u64)" by simp_all
  show ?thesis
    using benchmark_commands_fit_messages [OF ok facts, of False 0] wrap by (simp add: RDMA_MSG_SIZE_def)
qed

subsection \<open>CSV\<close>

definition columns :: "string \<Rightarrow> nat" where
  "columns line = Suc (length (filter (\<lambda>c. c = CHR '','') line))"

lemma columns_csv_line:
  "fs \<noteq> [] \<Longrightarrow> \<forall>f\<in>set fs. CHR '','' \<notin> set f \<Longrightarrow> columns (csv_line fs) = length fs"
proof (induction fs rule: csv_line.induct)
  case (2 f)
  have "filter (\<lambda>c. c = CHR '','') f = []" using 2 by (auto simp: filter_empty_conv)
  then show ?case by (simp add: columns_def)
next
  case (3 f g fs)
  have "filter (\<lambda>c. c = CHR '','') f = []" using 3 by (auto simp: filter_empty_conv)
  with 3 show ?case by (simp add: columns_def)
qed simp

lemma suffix_csv_line: "gs \<noteq> [] \<Longrightarrow> suffix (csv_line gs) (csv_line (fs @ hs @ gs))"
proof -
  have app: "gs \<noteq> [] \<Longrightarrow> suffix (csv_line gs) (csv_line (fs @ gs))" for fs
  proof (induction fs)
    case (Cons f fs)
    obtain g gs' where "fs @ gs = g # gs'" using Cons.prems by (cases "fs @ gs") auto
    with Cons show ?case by (auto simp: suffix_def)
  qed simp
  show "gs \<noteq> [] \<Longrightarrow> suffix (csv_line gs) (csv_line (fs @ hs @ gs))" using app [of "fs @ hs"] by simp
qed

text \<open>
  Both CSV writers add to the file, and to no other, one row with exactly the 20 columns of the
  header, for every host name without a comma and every way of printing doubles without one; the row
  ends with the four counts, the old contents stay, and the header is written exactly when the file
  is missing or empty.
\<close>
theorem csv_rows_have_header_columns:
  assumes "CHR '','' \<notin> set host" and "\<forall>x. CHR '','' \<notin> set (fp_show F x)" and "can_append fs path"
    and "old = (case file_contents fs path of None \<Rightarrow> [] | Some contents \<Rightarrow> contents)"
  shows "\<exists>row row'.
         file_contents (write_csv_row path F host port clients n_ops key_count n_warmup f s fs)
           = (file_contents fs)(path \<mapsto> old @ (if old = [] then csv_header else []) @ row)
       \<and> file_contents (write_benchmark_csv_row path F host port clients n_ops key_count value_size get_ratio zipf_s n_warmup prefill f s fs)
           = (file_contents fs)(path \<mapsto> old @ (if old = [] then csv_header else []) @ row')
       \<and> columns row = 20 \<and> columns row' = 20 \<and> columns csv_header = 20
       \<and> suffix (csv_line (count_texts s)) row \<and> suffix (csv_line (count_texts s)) row'"
proof -
  have head: "columns csv_header = 20" by code_simp
  have plain: "\<forall>t\<in>set (figure_texts F f @ count_texts s). CHR '','' \<notin> set t"
    using assms(2) by (auto simp: figure_texts_def count_texts_def)
  have len: "length (figure_texts F f) = 6" "length (count_texts s) = 4" by (simp_all add: figure_texts_def count_texts_def)
  have row: "columns (csv_row F host port clients n_ops key_count n_warmup f s) = 20"
    unfolding csv_row_def by (subst columns_csv_line) (use assms(1,2) plain in \<open>auto simp: len\<close>)
  have row': "columns (benchmark_csv_row F host port clients n_ops key_count value_size get_ratio zipf_s n_warmup prefill f s) = 20"
    unfolding benchmark_csv_row_def by (subst columns_csv_line) (use assms(1,2) plain in \<open>auto simp: len\<close>)
  have ends: "suffix (csv_line (count_texts s)) (csv_row F host port clients n_ops key_count n_warmup f s)"
    "suffix (csv_line (count_texts s)) (benchmark_csv_row F host port clients n_ops key_count value_size get_ratio zipf_s n_warmup prefill f s)"
    unfolding csv_row_def benchmark_csv_row_def by (rule suffix_csv_line; simp add: count_texts_def)+
  have probe: "csv_probe fs path = (if old = [] then csv_header else [])"
    using assms(4) by (auto simp: csv_probe_def split: option.splits)
  show ?thesis
    by (rule exI [of _ "csv_row F host port clients n_ops key_count n_warmup f s"],
        rule exI [of _ "benchmark_csv_row F host port clients n_ops key_count value_size get_ratio zipf_s n_warmup prefill f s"])
      (use row row' ends head assms(3,4) in \<open>simp add: write_csv_row_def write_benchmark_csv_row_def append_file_def probe\<close>)
qed

theorem csv_rows_have_header_columns_witness:
  "\<exists>row. file_contents (write_csv_row ''out.csv'' unit_fp ''localhost'' 9091 1 10 8 2 (make_figures unit_fp (\<lambda>l f. ()) 5 10 [])
       empty_result example_files) ''out.csv'' = Some (csv_header @ row) \<and> columns row = 20"
proof -
  have show_ok: "\<forall>x. CHR '','' \<notin> set (fp_show unit_fp x)" by (simp add: unit_fp_def)
  have host: "CHR '','' \<notin> set ''localhost''" and path: "can_append example_files ''out.csv''"
    and old: "[] = (case file_contents example_files ''out.csv'' of None \<Rightarrow> [] | Some contents \<Rightarrow> contents)"
    by (simp_all add: example_files_def)
  show ?thesis
    using csv_rows_have_header_columns [OF host show_ok path old, of 9091 1 10 8 2 "make_figures unit_fp (\<lambda>l f. ()) 5 10 []"
        empty_result 1 "()" "()" True] by fastforce
qed

end
