(* ===== verification/Spec2Isabelle.thy ===== *)
theory Spec2Isabelle
  imports TextProtocol KvStore RdmaStore OneSidedConcurrent TcpSessionProps TcpProcessProps SocketProps RdmaServerProps RdmaClientProps
begin

text \<open>
  A verification of the key-value store of this repository: one text protocol and one store, served
  over TCP, over two-sided RDMA (send and receive) and over one-sided RDMA (the client reads and
  writes the server's slot array itself).

  \<^bold>\<open>The program and the theories.\<close>

  \<^item> \<open>src/protocol/text_protocol.cpp\<close> (\<open>trim\<close>, \<open>parse_request\<close>, \<open>serialize_response\<close>): \<open>TextProtocol\<close>.
    Both servers and the one-sided prompt parse with it. Lemmas: well-formedness of what it returns,
    the round trip with the clients' request text, injectivity of the responses.
  \<^item> \<open>src/kvstore/kv_store.cpp\<close> (\<open>KeyValueStore\<close>): \<open>KvStore\<close>, an association list under \<open>kv_set\<close>,
    \<open>kv_get\<close>, \<open>kv_erase\<close>, \<open>kv_size\<close>, and the mutex as a step relation of threads with a
    linearizability theorem.
  \<^item> \<open>src/kvstore/rdma_store.cpp\<close> (\<open>RdmaStore\<close>): \<open>RdmaStore\<close>, the array of 4096 slots of 1024 bytes with
    \<open>rdma_set\<close>, \<open>rdma_get\<close>, \<open>rdma_erase\<close>, FNV-1a, linear probing and tombstones. \<open>OpenAddressing\<close> is
    the probing search as a locale, interpreted (\<open>tab\<close>) on the slots; \<open>Memory\<close> is the layout of the
    array in a 64-bit byte-addressed memory. \<open>StoreContract\<close> is the contract of a store (locale
    \<open>map_store\<close>), interpreted for both stores (\<open>kvs\<close>, \<open>rds\<close>).
  \<^item> \<open>src/net/rdma_context.cpp\<close> (\<open>RdmaContext\<close>): \<open>RdmaContext\<close>, over a record \<open>verbs\<close> of the libibverbs
    calls; \<open>RdmaLaws\<close> states their documented behaviour (resources, queue pair states, the data path)
    and \<open>RdmaProps\<close> the properties of \<open>init\<close>, \<open>connect\<close>, \<open>destroy\<close> and polling; \<open>SimVerbs\<close> is a
    device that satisfies the laws.
  \<^item> \<open>src/client/rdma_client.cpp\<close>: \<open>OneSided\<close> and \<open>OneSidedProps\<close> (\<open>one_sided_get\<close>, \<open>one_sided_set\<close> on the
    server's memory), \<open>OneSidedPrompt\<close> (the prompt as a bounded map with access counts), \<open>OneSidedMachine\<close>,
    \<open>OneSidedInterleaving\<close> and \<open>OneSidedConcurrent\<close> (the same operations of several clients,
    interleaved request by request on one table), \<open>RdmaClient\<close> and
    \<open>RdmaClientLaws\<close> (connection, two-sided requests and prompt), \<open>RdmaBenchmark\<close> and \<open>RdmaReport\<close>
    (workers, pre-filling, totals, figures, CSV, options, \<open>main\<close>), \<open>BenchmarkLaws\<close> and
    \<open>RdmaClientProps\<close>.
  \<^item> \<open>src/server/rdma_main.cpp\<close>: \<open>RdmaServer\<close> (listener, handshake, the two handlers, preloading, accept
    loop and \<open>main\<close> with the threads it detaches), with \<open>RdmaServerLaws\<close> (the request loop against the TCP server's request
    handling), \<open>HandlerLaws\<close> (what the handlers release), \<open>HandshakeLaws\<close> (the exchange of \<open>QpInfo\<close>)
    and \<open>RdmaServerProps\<close>. \<open>MessageLaws\<close> is the contract of a message link (locales
    \<open>message_link\<close>, \<open>reliable_link\<close>), which the server's and the client's loops rely on; \<open>SimLink\<close>
    interprets it for both ends, the client's with the server's own answers (\<open>server_reply\<close>).
  \<^item> \<open>src/net/event_loop.cpp\<close> (\<open>EventLoop\<close>): \<open>EventLoop\<close>, the ready queue, the waiters, tasks and their
    frames, \<open>run\<close>. The coroutines are its parameter; the locales \<open>loop_client\<close> (what every resumption
    and every poll keep) and \<open>draining_client\<close> (what makes the ready queue drain) are its contract with them.
  \<^item> \<open>src/server/main.cpp\<close>: \<open>TcpServer\<close> (\<open>handle_request\<close>, the coroutines \<open>handle_client\<close> and
    \<open>accept_loop\<close> as state machines, all connections as the step relation \<open>server_step\<close> with the
    invariant \<open>server_inv\<close>) and \<open>TcpServerProps\<close>. \<open>TcpProcess\<close> runs both coroutines and \<open>main\<close> on the
    event loop and over the system calls, and interprets its two locales (\<open>process\<close>, \<open>serving\<close>);
    \<open>TcpProcessProps\<close> shows that this process passes only through reachable states of \<open>server_step\<close>, so
    that the theorems of \<open>TcpServerProps\<close> hold in each of them, and that every stretch between two
    polls ends.
  \<^item> \<open>src/net/socket_utils.cpp\<close>: \<open>SocketUtils\<close>, over a record \<open>kernel\<close> of the system calls, \<open>SocketLaws\<close>
    (their documented behaviour), \<open>SocketProps\<close>, and \<open>SimKernel\<close>, a kernel that satisfies the laws.
    \<open>Decimal\<close> is \<open>std::to_string\<close> and the padded numbers of \<open>snprintf\<close>.
  \<^item> \<open>src/client/main.cpp\<close>: \<open>TcpClient\<close>; \<open>TcpSession\<close> and \<open>TcpSessionProps\<close> run it against the model of
    the server: \<open>far_end\<close> says that what a kernel carries to the client is what some reachable state of
    \<open>server_step\<close> has sent, and \<open>peer_kernel\<close> is an example of such a kernel.

  The root theory holds the property that spans the two stores.

  \<^bold>\<open>State and effects.\<close> Structs and classes are records; the NIC, the kernel and the memory are one
  world that every call takes and returns. A 64-bit, 32-bit or 16-bit integer of the code is a word of
  that width wherever it can wrap (hashes, addresses, counts, ports, option values). Errors are values:
  a boolean as in the code, an option, a sum with the error text, or an exit status.

  \<^bold>\<open>Termination.\<close> Loops over data are \<open>fun\<close>, the probing loops \<open>function\<close> with a measure (4096 probes at
  most). Loops that wait for the kernel, the NIC or other coroutines (interrupted calls, polling,
  \<open>run\<close>, the request loops, \<open>accept\<close>) are \<open>partial_function (option)\<close>: \<open>None\<close> means that the loop never
  ends. No fuel is used. That they do end is proved where it is claimed: polling returns exactly when
  some poll does, transfers end when interruptions are finite, the two-sided session ends at \<open>QUIT\<close>
  on a reliable link, the one-sided operations always return on a device that completes requests
  and need at most 4097 requests whatever other clients do,
  and the TCP server comes to rest before every poll on a kernel that has finitely much to deliver.

  \<^bold>\<open>Parameters.\<close> \<open>verbs\<close> (libibverbs), \<open>kernel\<close> (system calls), \<open>poll\<close> (\<open>poll(2)\<close>), \<open>resume\<close> (the coroutine
  bodies, in \<open>EventLoop\<close>; \<open>TcpProcess\<close> supplies those of the TCP server), \<open>pause\<close> (the wait for a
  signal that ends a one-sided session), \<open>fp\<close> (doubles), \<open>rng\<close> (random numbers), the clock, and the scheduling of
  threads. The threads of the RDMA server are in \<open>others\<close>: what those started so far do to the world
  before each call of the main thread, any change whatever. Those of the benchmark are in \<open>run_all\<close>: it
  runs each body on a view of the device, the kernel and the clock whose calls it may interleave with
  steps of the other threads. Each law about these parameters is a named predicate that states
  documented behaviour and holds of an example device, kernel or machine.

  \<^bold>\<open>Not modelled.\<close> Messages on \<open>std::cerr\<close> and the progress texts of the servers; the Python and shell
  scripts, plots and documents; \<open>benchmarks/kv_benchmark.cpp\<close>, a measurement driver of the TCP server
  with the structure of the RDMA client's benchmark; the tests. Starting a \<open>std::thread\<close> is taken to
  succeed. Socket addresses are records of host-order numbers, so \<open>htonl\<close> and \<open>htons\<close> do not appear.
  C++ data races are outside the model:
  the handlers' threads meet in the mutex-protected store (\<open>KvStore\<close>) or in the exported array, where
  \<open>OneSidedMachine\<close> interleaves the clients' requests and takes the remote access of each, one slot or
  one counter, as a single access (a NIC may tear a 1024-byte slot; the code relies on it not doing so).
\<close>

section \<open>Properties across components\<close>

subsection \<open>Both stores answer alike\<close>

lemma kvs_run_accepts: "Stored False \<notin> set (fst (kvs.run xs s))"
proof (induction xs arbitrary: s)
  case (Cons x xs)
  then show ?case by (cases x) (simp_all add: prod.case_eq_if)
qed simp

text \<open>
  C2: The fixed-size slot table and the mutex-protected map are interchangeable: started empty and
  given the same sequence of set, get and erase requests whose keys and values fit a slot and
  contain no NUL, with at most as many sets as there are slots, they return the same results.
\<close>
theorem stores_equivalent:
  assumes "\<forall>x\<in>set xs. op_fits x" and "count_puts xs \<le> RDMA_NUM_SLOTS"
  shows "fst (rds.run xs RdmaStore_init) = fst (kvs.run xs empty_store)"
proof -
  have rds: "fst (rds.run xs RdmaStore_init) = fst (map_run xs Map.empty)"
    using rds.run_refines [OF store_inv_init] rds_run_accepts [OF store_inv_init] assms op_fits_ok
    by (simp add: rdma_map_init)
  have "fst (kvs.run xs empty_store) = fst (map_run xs Map.empty)"
    using kvs.run_refines [of empty_store xs] kvs_run_accepts
    by (simp add: kvs.ok_op_def split: store_op.split)
  with rds show ?thesis by simp
qed

theorem stores_equivalent_witness:
  "fst (rds.run [PutOp ''a'' ''1'', DelOp ''a'', GetOp ''a''] RdmaStore_init)
   = [Stored True, Deleted True, Found None]"
proof -
  have fits: "\<forall>x\<in>set [PutOp ''a'' ''1'', DelOp ''a'', GetOp ''a'']. op_fits x"
    by (simp add: key_ok_def fits_def rdma_sizes)
  have few: "count_puts [PutOp ''a'' ''1'', DelOp ''a'', GetOp ''a''] \<le> RDMA_NUM_SLOTS"
    by (simp add: rdma_sizes)
  show ?thesis
    unfolding stores_equivalent [OF fits few]
    by (simp add: prod.case_eq_if) (simp add: kv_set_def kv_erase_def kv_get_def empty_store_def)
qed

end
